(* ===== verification/Prelude.thy ===== *)
theory Prelude
  imports Main "HOL-Library.Word" "HOL-Library.AList"
begin

text \<open>
  Shared vocabulary of the development.

  \<^item> Fixed-width unsigned integers of the C++ sources (\<^verbatim>\<open>uint64_t\<close>, \<^verbatim>\<open>uint32_t\<close>,
    \<^verbatim>\<open>uint16_t\<close>) are natural numbers, and every operation of the code that can wrap is
    written with the explicit reduction \<open>u64\<close>, \<open>u32\<close> or \<open>u16\<close>; unsigned
    subtraction is \<open>u64_minus\<close>.
  \<^item> A \<^verbatim>\<open>std::unordered_map\<close> that the code only looks up is a HOL map. One that the
    code also iterates is an association list with distinct keys (\<open>umap_ok\<close>): the
    order of the list is the iteration order the container happens to have, so a
    theorem about an arbitrary list is a theorem about every iteration order.
  \<^item> \<open>errno\<close> and the results of system calls are data, arguments of the operations
    that make the calls.
\<close>

named_theorems wrap_simps \<open>reductions of fixed-width arithmetic in range\<close>
named_theorems umap_simps \<open>lookups after updates and erasures of association lists\<close>

subsection \<open>Fixed-width unsigned arithmetic\<close>

type_synonym byte = "8 word"

definition u64 :: "nat \<Rightarrow> nat" where
  "u64 n = n mod 2 ^ 64"

definition u32 :: "nat \<Rightarrow> nat" where
  "u32 n = n mod 2 ^ 32"

definition u16 :: "nat \<Rightarrow> nat" where
  "u16 n = n mod 2 ^ 16"

definition u64_minus :: "nat \<Rightarrow> nat \<Rightarrow> nat" where
  "u64_minus a b = (a + (2 ^ 64 - b mod 2 ^ 64)) mod 2 ^ 64"

text \<open>For evaluation: the moduli as binary literals.\<close>

lemma u64_code [code]: "u64 n = nat (int n mod 18446744073709551616)"
  by (simp add: u64_def nat_mod_as_int)

lemma u32_code [code]: "u32 n = nat (int n mod 4294967296)"
  by (simp add: u32_def nat_mod_as_int)

lemma u64_less [simp]: "u64 n < 2 ^ 64"
  by (simp add: u64_def)

lemma u64_id [wrap_simps]: "n < 2 ^ 64 \<Longrightarrow> u64 n = n"
  by (simp add: u64_def)

lemma u32_id [wrap_simps]: "n < 2 ^ 32 \<Longrightarrow> u32 n = n"
  by (simp add: u32_def)

lemma u16_id [wrap_simps]: "n < 2 ^ 16 \<Longrightarrow> u16 n = n"
  by (simp add: u16_def)

lemma u64_le: "u64 n \<le> n"
  by (simp add: u64_def)

lemma u64_minus_id [wrap_simps]:
  assumes "b \<le> a" and "a < 2 ^ 64"
  shows "u64_minus a b = a - b"
proof -
  from assms have "b mod 2 ^ 64 = b"
    by simp
  with assms have "a + (2 ^ 64 - b mod 2 ^ 64) = (a - b) + 2 ^ 64"
    by simp
  then have "u64_minus a b = ((a - b) + 2 ^ 64) mod 2 ^ 64"
    by (simp only: u64_minus_def)
  also have "\<dots> = (a - b) mod 2 ^ 64"
    by (rule mod_add_self2)
  finally show ?thesis
    using assms by simp
qed

subsection \<open>Big-endian byte sequences\<close>

definition byte_of :: "nat \<Rightarrow> byte" where
  "byte_of n = word_of_nat n"

definition be_nat :: "byte list \<Rightarrow> nat" where
  "be_nat bs = foldl (\<lambda>acc b. acc * 256 + unat b) 0 bs"

lemma unat_byte_of [simp]: "unat (byte_of n) = n mod 256"
  by (simp add: byte_of_def unat_of_nat)

lemma byte_of_0 [simp]: "byte_of 0 = 0"
  by (simp add: byte_of_def)

lemma be_nat_two [simp]: "be_nat [a, b] = unat a * 256 + unat b"
  by (simp add: be_nat_def)

lemma be_nat_four [simp]:
  "be_nat [a, b, c, d] = ((unat a * 256 + unat b) * 256 + unat c) * 256 + unat d"
  by (simp add: be_nat_def)

lemma unat_byte_less [simp]: "unat (b :: byte) < 256"
  using unsigned_less [of b, where ?'a = nat] by simp

lemma be_nat_two_less: "be_nat [a, b] < 2 ^ 16"
  unfolding be_nat_two using unat_byte_less [of a] unat_byte_less [of b]
  by (simp del: unat_byte_less)

lemma be_nat_four_less: "be_nat [a, b, c, d] < 2 ^ 32"
  unfolding be_nat_four
  using unat_byte_less [of a] unat_byte_less [of b] unat_byte_less [of c] unat_byte_less [of d]
  by (simp del: unat_byte_less)

subsection \<open>Iterated unordered maps\<close>

type_synonym ('k, 'v) umap = "('k \<times> 'v) list"

definition umap_ok :: "('k, 'v) umap \<Rightarrow> bool" where
  "umap_ok m = distinct (map fst m)"

lemma umap_ok_Nil [simp]: "umap_ok []"
  by (simp add: umap_ok_def)

lemma umap_ok_update [simp]: "umap_ok m \<Longrightarrow> umap_ok (AList.update k v m)"
  by (simp add: umap_ok_def distinct_update)

lemma umap_ok_delete [simp]: "umap_ok m \<Longrightarrow> umap_ok (AList.delete k m)"
  by (simp add: umap_ok_def distinct_delete)

lemma map_of_update [umap_simps]:
  "map_of (AList.update k v m) k' = (if k' = k then Some v else map_of m k')"
  by (simp add: update_conv)

lemma map_of_delete [umap_simps]:
  "map_of (AList.delete k m) k' = (if k' = k then None else map_of m k')"
  by (simp add: delete_conv')

lemma umap_ok_mem: "umap_ok m \<Longrightarrow> (k, v) \<in> set m \<longleftrightarrow> map_of m k = Some v"
  by (simp add: umap_ok_def)

lemma map_of_key: "map_of m k = Some v \<Longrightarrow> k \<in> fst ` set m"
  by (metis domI dom_map_of_conv_image_fst)

lemma keys_update: "fst ` set (AList.update k v m) = insert k (fst ` set m)"
  by (simp add: dom_update)

lemma keys_delete: "fst ` set (AList.delete k m) = fst ` set m - {k}"
  by (auto simp: dom_map_of_conv_image_fst [symmetric] delete_conv' dom_def split: if_splits)

text \<open>Rewriting every value of a map, the effect of \<^verbatim>\<open>for (auto& [id, p] : m) p = f(id, p)\<close>.\<close>

definition umap_map :: "('k \<Rightarrow> 'v \<Rightarrow> 'v) \<Rightarrow> ('k, 'v) umap \<Rightarrow> ('k, 'v) umap" where
  "umap_map f m = map (\<lambda>(k, v). (k, f k v)) m"

lemma map_of_umap_map [umap_simps]: "map_of (umap_map f m) k = map_option (f k) (map_of m k)"
  by (induction m) (auto simp: umap_map_def)

lemma keys_umap_map [simp]: "map fst (umap_map f m) = map fst m"
  by (auto simp: umap_map_def)

lemma umap_ok_umap_map [simp]: "umap_ok (umap_map f m) = umap_ok m"
  by (simp add: umap_ok_def)

subsection \<open>System call results\<close>

datatype errno = EAGAIN | EINTR | EMFILE | OtherErr nat

end
