(* ===== verification/Buffer.thy ===== *)
theory Buffer
  imports Prelude
begin

text \<open>
  \<^verbatim>\<open>src/net/Buffer.h\<close> and \<^verbatim>\<open>src/net/Buffer.cc\<close>: the application-level byte buffer with the
  layout \<^verbatim>\<open>| prependable | readable | writable |\<close>. The vector is a byte list, the two
  indices are naturals. \<open>buf_inv\<close> bounds the indices so that no \<^verbatim>\<open>size_t\<close> subtraction of
  the class underflows, which is why it can be natural subtraction here. The assertion
  of \<open>retrieve\<close> is the result \<open>None\<close>. The locale \<open>byte_buffer\<close> is the contract the
  codec and the connection rely on: a FIFO sequence of bytes.
\<close>

subsection \<open>The class\<close>

record Buffer =
  bufferVec :: "byte list"
  readerIndex :: nat
  writerIndex :: nat

definition kCheapPrepend :: nat where
  "kCheapPrepend = 8"

definition kInitialSize :: nat where
  "kInitialSize = 1024"

definition newBuffer :: Buffer where
  "newBuffer = \<lparr>bufferVec = replicate (kCheapPrepend + kInitialSize) 0,
     readerIndex = kCheapPrepend, writerIndex = kCheapPrepend\<rparr>"

definition readableBytes :: "Buffer \<Rightarrow> nat" where
  "readableBytes b = writerIndex b - readerIndex b"

definition writableBytes :: "Buffer \<Rightarrow> nat" where
  "writableBytes b = length (bufferVec b) - writerIndex b"

text \<open>\<open>peek\<close> is a pointer into the vector; a client reads \<open>readableBytes\<close> bytes from it.\<close>

definition peek :: "Buffer \<Rightarrow> byte list" where
  "peek b = drop (readerIndex b) (bufferVec b)"

definition retrieveAll :: "Buffer \<Rightarrow> Buffer" where
  "retrieveAll b = b\<lparr>readerIndex := kCheapPrepend, writerIndex := kCheapPrepend\<rparr>"

definition retrieve :: "Buffer \<Rightarrow> nat \<Rightarrow> Buffer option" where
  "retrieve b len =
     (if \<not> len \<le> readableBytes b then None
      else if len < readableBytes b then Some (b\<lparr>readerIndex := readerIndex b + len\<rparr>)
      else Some (retrieveAll b))"

definition retrieveAllAsString :: "Buffer \<Rightarrow> byte list \<times> Buffer" where
  "retrieveAllAsString b = (take (readableBytes b) (peek b), retrieveAll b)"

text \<open>\<^verbatim>\<open>std::vector::resize\<close> to \<open>n\<close> value-initialised elements.\<close>

definition resize :: "byte list \<Rightarrow> nat \<Rightarrow> byte list" where
  "resize v n = take n v @ replicate (n - length v) 0"

text \<open>\<^verbatim>\<open>std::copy\<close> of \<open>src\<close> to offset \<open>at\<close> of a vector.\<close>

definition copy_to :: "byte list \<Rightarrow> nat \<Rightarrow> byte list \<Rightarrow> byte list" where
  "copy_to v at src = take at v @ src @ drop (at + length src) v"

definition ensureWritable :: "Buffer \<Rightarrow> nat \<Rightarrow> Buffer" where
  "ensureWritable b len =
     (if writableBytes b \<ge> len then b
      else if writableBytes b + readerIndex b - kCheapPrepend < len
      then b\<lparr>bufferVec := resize (bufferVec b) (writerIndex b + len)\<rparr>
      else (let readable = readableBytes b in
        b\<lparr>bufferVec := copy_to (bufferVec b) kCheapPrepend (take readable (peek b)),
          readerIndex := kCheapPrepend,
          writerIndex := kCheapPrepend + readable\<rparr>))"

definition append :: "Buffer \<Rightarrow> byte list \<Rightarrow> Buffer" where
  "append b data =
     (let b' = ensureWritable b (length data) in
      b'\<lparr>bufferVec := copy_to (bufferVec b') (writerIndex b') data,
         writerIndex := writerIndex b' + length data\<rparr>)"

text \<open>
  What \<^verbatim>\<open>readv\<close> on the vector's tail and the 64 KiB stack area answers: an error or the
  bytes it delivered, which fill the tail first. \<open>readFd\<close> returns the \<^verbatim>\<open>ssize_t\<close> and,
  on an error, the saved \<open>errno\<close>.
\<close>

datatype readv_result = ReadvError errno | ReadvData "byte list"

definition kExtraBuf :: nat where
  "kExtraBuf = 65536"

definition readFd :: "Buffer \<Rightarrow> readv_result \<Rightarrow> Buffer \<times> int \<times> errno option" where
  "readFd b r = (case r of
       ReadvError e \<Rightarrow> (b, -1, Some e)
     | ReadvData data \<Rightarrow>
         (let n = length data; writable = writableBytes b in
          if n \<le> writable
          then (b\<lparr>bufferVec := copy_to (bufferVec b) (writerIndex b) data,
                  writerIndex := writerIndex b + n\<rparr>, int n, None)
          else (append (b\<lparr>bufferVec := copy_to (bufferVec b) (writerIndex b) (take writable data),
                  writerIndex := length (bufferVec b)\<rparr>) (drop writable data), int n, None)))"

definition buf_inv :: "Buffer \<Rightarrow> bool" where
  "buf_inv b \<longleftrightarrow> kCheapPrepend \<le> readerIndex b \<and> readerIndex b \<le> writerIndex b
     \<and> writerIndex b \<le> length (bufferVec b)"

text \<open>The abstract value: the readable bytes, oldest first.\<close>

definition content :: "Buffer \<Rightarrow> byte list" where
  "content b = take (readableBytes b) (peek b)"

subsection \<open>The contract: a FIFO byte sequence\<close>

locale byte_buffer =
  fixes view :: "'b \<Rightarrow> byte list"
    and ok :: "'b \<Rightarrow> bool"
    and fresh :: "'b"
    and put :: "'b \<Rightarrow> byte list \<Rightarrow> 'b"
    and consume :: "'b \<Rightarrow> nat \<Rightarrow> 'b option"
    and clear :: "'b \<Rightarrow> 'b"
  assumes view_fresh: "view fresh = []"
    and ok_fresh: "ok fresh"
    and view_put: "ok b \<Longrightarrow> view (put b bs) = view b @ bs"
    and ok_put: "ok b \<Longrightarrow> ok (put b bs)"
    and consume_Some: "ok b \<Longrightarrow> n \<le> length (view b) \<Longrightarrow>
       \<exists>b'. consume b n = Some b' \<and> ok b' \<and> view b' = drop n (view b)"
    and consume_None: "ok b \<Longrightarrow> length (view b) < n \<Longrightarrow> consume b n = None"
    and view_clear: "ok b \<Longrightarrow> view (clear b) = []"
    and ok_clear: "ok b \<Longrightarrow> ok (clear b)"
begin

lemma consume_ok: "ok b \<Longrightarrow> consume b n = Some b' \<Longrightarrow> ok b'"
  by (metis consume_Some consume_None not_le option.distinct(1) option.inject)

lemma consume_view: "ok b \<Longrightarrow> consume b n = Some b' \<Longrightarrow> view b' = drop n (view b)"
  by (metis consume_Some consume_None not_le option.distinct(1) option.inject)

lemma put_chunks:
  assumes "ok b"
  shows "ok (foldl put b cs) \<and> view (foldl put b cs) = view b @ concat cs"
  using assms
proof (induction cs arbitrary: b)
  case Nil
  then show ?case by simp
next
  case (Cons c cs)
  from Cons.prems have "ok (put b c)" and "view (put b c) = view b @ c"
    by (simp_all add: ok_put view_put)
  with Cons.IH [of "put b c"] show ?case by simp
qed

text \<open>Whatever is consumed is the oldest data, and the rest stays in order.\<close>

lemma put_consume:
  assumes "ok b" and "consume (put b bs) n = Some b'"
  shows "take n (view b @ bs) @ view b' = view b @ bs"
  using assms consume_view [of "put b bs" n b']
  by (simp only: ok_put view_put append_take_drop_id)

end

subsection \<open>The class implements the contract\<close>

lemmas buffer_defs = readableBytes_def writableBytes_def peek_def content_def buf_inv_def
  copy_to_def

lemma content_length: "buf_inv b \<Longrightarrow> length (content b) = readableBytes b"
  by (auto simp: buffer_defs)

lemma content_slice: "content b = take (writerIndex b - readerIndex b) (drop (readerIndex b) (bufferVec b))"
  by (simp add: buffer_defs)

lemma newBuffer_ok: "buf_inv newBuffer \<and> content newBuffer = []"
  by (simp add: buffer_defs newBuffer_def)

lemma retrieveAll_ok: "buf_inv b \<Longrightarrow> buf_inv (retrieveAll b) \<and> content (retrieveAll b) = []"
  by (simp add: buffer_defs retrieveAll_def)

lemma retrieve_Some:
  assumes "buf_inv b" and "n \<le> readableBytes b"
  obtains b' where "retrieve b n = Some b'" and "buf_inv b'" and "content b' = drop n (content b)"
proof (cases "n < readableBytes b")
  case True
  let ?b = "b\<lparr>readerIndex := readerIndex b + n\<rparr>"
  from True assms have "buf_inv ?b"
    by (simp add: buffer_defs)
  moreover have "content ?b = drop n (content b)"
    by (simp add: buffer_defs drop_take add.commute)
  ultimately show ?thesis
    using True assms that by (simp add: retrieve_def)
next
  case False
  with assms have n: "n = readableBytes b" by simp
  then have "drop n (content b) = []"
    using content_length [OF assms(1)] by simp
  with n show ?thesis
    using retrieveAll_ok [OF assms(1)] that by (simp add: retrieve_def)
qed

lemma retrieve_shrinks:
  assumes "retrieve b n = Some b'" and "0 < n"
  shows "readableBytes b' < readableBytes b"
  using assms by (auto simp: retrieve_def retrieveAll_def readableBytes_def split: if_splits)

text \<open>Writing at the write index extends the readable bytes.\<close>

lemma content_write:
  assumes "buf_inv b" and "length data \<le> writableBytes b"
  defines "b' \<equiv> b\<lparr>bufferVec := copy_to (bufferVec b) (writerIndex b) data,
                  writerIndex := writerIndex b + length data\<rparr>"
  shows "buf_inv b' \<and> content b' = content b @ data"
proof
  from assms(1,2) show "buf_inv b'"
    by (simp add: b'_def buffer_defs)
  from assms(1,2) show "content b' = content b @ data"
    by (simp add: b'_def buffer_defs take_drop Suc_diff_le)
qed

lemma length_resize: "length v \<le> n \<Longrightarrow> length (resize v n) = n"
  by (simp add: resize_def)

lemma ensureWritable_ok:
  assumes "buf_inv b"
  shows "buf_inv (ensureWritable b n) \<and> content (ensureWritable b n) = content b
    \<and> n \<le> writableBytes (ensureWritable b n)"
proof -
  consider (room) "n \<le> writableBytes b"
    | (grow) "writableBytes b < n" "writableBytes b + readerIndex b - kCheapPrepend < n"
    | (move) "writableBytes b < n" "n \<le> writableBytes b + readerIndex b - kCheapPrepend"
    by linarith
  then show ?thesis
  proof cases
    case room
    with assms show ?thesis by (simp add: ensureWritable_def)
  next
    case grow
    with assms have e: "ensureWritable b n = b\<lparr>bufferVec := resize (bufferVec b) (writerIndex b + n)\<rparr>"
      and l: "length (bufferVec b) \<le> writerIndex b + n"
      by (simp_all add: ensureWritable_def writableBytes_def)
    with assms show ?thesis
      by (simp add: buffer_defs length_resize resize_def)
  next
    case move
    with assms have e: "ensureWritable b n =
        b\<lparr>bufferVec := copy_to (bufferVec b) kCheapPrepend (content b),
          readerIndex := kCheapPrepend, writerIndex := kCheapPrepend + readableBytes b\<rparr>"
      by (simp add: ensureWritable_def content_def Let_def)
    from assms have "length (content b) = readableBytes b"
      by (rule content_length)
    with assms move show ?thesis
      unfolding e by (auto simp: buf_inv_def content_slice copy_to_def readableBytes_def writableBytes_def)
  qed
qed

lemma append_ok:
  assumes "buf_inv b"
  shows "buf_inv (append b data) \<and> content (append b data) = content b @ data"
  using ensureWritable_ok [OF assms, of "length data"]
    content_write [of "ensureWritable b (length data)" data]
  by (simp add: append_def Let_def)

interpretation buf: byte_buffer content buf_inv newBuffer append retrieve retrieveAll
proof unfold_locales
  fix b n
  assume b: "buf_inv b" and "n \<le> length (content b)"
  then have n: "n \<le> readableBytes b"
    by (simp add: content_length)
  show "\<exists>b'. retrieve b n = Some b' \<and> buf_inv b' \<and> content b' = drop n (content b)"
    by (rule retrieve_Some [OF b n]) blast
next
  fix b n
  assume "buf_inv b" and "length (content b) < n"
  then show "retrieve b n = None"
    by (simp add: retrieve_def content_length)
qed (simp_all add: newBuffer_ok retrieveAll_ok append_ok)

subsection \<open>Sequences of operations\<close>

lemma readFd_data_ok:
  assumes "buf_inv b" and "readFd b (ReadvData data) = (b', n, e)"
  shows "buf_inv b' \<and> content b' = content b @ data \<and> n = int (length data) \<and> e = None"
proof (cases "length data \<le> writableBytes b")
  case True
  with assms show ?thesis
    using content_write [of b data] by (auto simp: readFd_def Let_def)
next
  case False
  let ?w = "writableBytes b"
  let ?b = "b\<lparr>bufferVec := copy_to (bufferVec b) (writerIndex b) (take ?w data),
    writerIndex := length (bufferVec b)\<rparr>"
  from False have "length (take ?w data) = ?w"
    by simp
  moreover from assms(1) have "writerIndex b + ?w = length (bufferVec b)"
    by (simp add: buf_inv_def writableBytes_def)
  ultimately have "buf_inv ?b \<and> content ?b = content b @ take ?w data"
    using content_write [OF assms(1), of "take ?w data"] by simp
  with False assms(2) show ?thesis
    using append_ok [of ?b "drop ?w data"] by (auto simp: readFd_def Let_def)
qed

datatype buf_op = OpAppend "byte list" | OpReadFd readv_result | OpRetrieve nat | OpRetrieveAll

fun buf_step :: "Buffer \<Rightarrow> buf_op \<Rightarrow> Buffer option" where
  "buf_step b (OpAppend d) = Some (append b d)"
| "buf_step b (OpReadFd r) = Some (fst (readFd b r))"
| "buf_step b (OpRetrieve n) = retrieve b n"
| "buf_step b OpRetrieveAll = Some (snd (retrieveAllAsString b))"

fun fifo_step :: "byte list \<Rightarrow> buf_op \<Rightarrow> byte list option" where
  "fifo_step q (OpAppend d) = Some (q @ d)"
| "fifo_step q (OpReadFd (ReadvData d)) = Some (q @ d)"
| "fifo_step q (OpReadFd (ReadvError e)) = Some q"
| "fifo_step q (OpRetrieve n) = (if n \<le> length q then Some (drop n q) else None)"
| "fifo_step q OpRetrieveAll = Some []"

fun run_ops :: "('s \<Rightarrow> 'o \<Rightarrow> 's option) \<Rightarrow> 's \<Rightarrow> 'o list \<Rightarrow> 's option" where
  "run_ops f s [] = Some s"
| "run_ops f s (x # xs) = (case f s x of None \<Rightarrow> None | Some s' \<Rightarrow> run_ops f s' xs)"

lemma buf_step_refines:
  assumes "buf_inv b"
  shows "map_option content (buf_step b x) = fifo_step (content b) x
    \<and> (\<forall>b'. buf_step b x = Some b' \<longrightarrow> buf_inv b')"
proof (cases x)
  case (OpReadFd r)
  then show ?thesis
  proof (cases r)
    case (ReadvData d)
    obtain b' n e where r: "readFd b (ReadvData d) = (b', n, e)"
      by (metis prod_cases3)
    with readFd_data_ok [OF assms r] ReadvData OpReadFd show ?thesis by simp
  qed (use assms in \<open>simp_all add: readFd_def\<close>)
next
  case (OpRetrieve n)
  with assms buf.consume_Some [of b n] buf.consume_None [of b n] show ?thesis
    by (cases "n \<le> length (content b)") auto
qed (use assms in \<open>simp_all add: append_ok retrieveAll_ok retrieveAllAsString_def\<close>)

text \<open>
  C9. Over every sequence of \<open>append\<close>, \<open>readFd\<close>, \<open>retrieve\<close> and
  \<open>retrieveAllAsString\<close> calls on a new buffer, whatever mixture of growing, moving and
  overflow reads they cause, the readable bytes are exactly those of a plain FIFO byte
  list; an assertion of \<open>retrieve\<close> fails exactly when the list has too few bytes; and
  what remains satisfies the index invariant.
\<close>

theorem buffer_refines_fifo:
  "map_option content (run_ops buf_step newBuffer ops) = run_ops fifo_step [] ops
   \<and> pred_option buf_inv (run_ops buf_step newBuffer ops)"
proof -
  have "map_option content (run_ops buf_step b ops) = run_ops fifo_step (content b) ops
      \<and> pred_option buf_inv (run_ops buf_step b ops)" if "buf_inv b" for b
    using that
  proof (induction ops arbitrary: b)
    case Nil
    then show ?case by simp
  next
    case (Cons x xs)
    note step = buf_step_refines [OF Cons.prems, of x]
    show ?case
    proof (cases "buf_step b x")
      case None
      with step show ?thesis by simp
    next
      case (Some b')
      with step have "buf_inv b'" and "fifo_step (content b) x = Some (content b')"
        by auto
      with Some Cons.IH show ?thesis by simp
    qed
  qed
  from this [of newBuffer] show ?thesis
    by (simp add: newBuffer_ok)
qed

end
