(* ===== verification/ProtobufCodec.thy ===== *)
theory ProtobufCodec
  imports Buffer
begin

text \<open>
  \<^verbatim>\<open>src/proto/ProtobufCodec.h/.cc\<close> and \<^verbatim>\<open>src/proto/MsgId.h\<close>: the frame codec
  \<^verbatim>\<open>| len(4B, big endian) | msgId(2B, big endian) | body |\<close> with \<open>len = 2 + |body|\<close>.
  Serialisation of a message is generated code: \<open>encode\<close> takes it as the argument
  \<open>ser\<close>. The calls \<open>onMessage\<close> makes to the raw-message callback and to
  \<^verbatim>\<open>TcpConnection::shutdown\<close> are the events it returns, in order; \<open>None\<close> is a failed
  assertion of \<open>Buffer::retrieve\<close>. \<open>split_frames\<close> is the reference parser on a plain
  byte list.
\<close>

subsection \<open>Message numbers\<close>

datatype MsgId = kEcho | kHeartbeat | kLoginReq | kLoginResp | kReconnectReq | kMatchReq
  | kEnterRoom | kPlayerInput | kStateSnapshot | kBattleEnd | kLeaderboardReq | kLeaderboardResp

fun msgId_value :: "MsgId \<Rightarrow> nat" where
  "msgId_value kEcho = 1"
| "msgId_value kHeartbeat = 2"
| "msgId_value kLoginReq = 3"
| "msgId_value kLoginResp = 4"
| "msgId_value kReconnectReq = 5"
| "msgId_value kMatchReq = 10"
| "msgId_value kEnterRoom = 11"
| "msgId_value kPlayerInput = 20"
| "msgId_value kStateSnapshot = 21"
| "msgId_value kBattleEnd = 22"
| "msgId_value kLeaderboardReq = 30"
| "msgId_value kLeaderboardResp = 31"

lemma msgId_value_less: "msgId_value m < 2 ^ 16"
  by (cases m) simp_all

lemma msgId_value_inject [simp]: "msgId_value m = msgId_value n \<longleftrightarrow> m = n"
  by (cases m; cases n) simp_all

subsection \<open>Framing\<close>

definition kHeaderLen :: nat where
  "kHeaderLen = 4"

definition kIdLen :: nat where
  "kIdLen = 2"

definition kMaxFrameLen :: nat where
  "kMaxFrameLen = 64 * 1024"

lemmas codec_consts = kHeaderLen_def kIdLen_def kMaxFrameLen_def

text \<open>\<^verbatim>\<open>htonl\<close> and \<^verbatim>\<open>htons\<close> followed by \<^verbatim>\<open>memcpy\<close>: the bytes in network order.\<close>

definition htonl_bytes :: "nat \<Rightarrow> byte list" where
  "htonl_bytes n = [byte_of (n div 2 ^ 24), byte_of (n div 2 ^ 16), byte_of (n div 2 ^ 8), byte_of n]"

definition htons_bytes :: "nat \<Rightarrow> byte list" where
  "htons_bytes n = [byte_of (n div 2 ^ 8), byte_of n]"

definition encode :: "('m \<Rightarrow> byte list) \<Rightarrow> nat \<Rightarrow> 'm \<Rightarrow> byte list" where
  "encode ser msgId msg =
     htonl_bytes (u32 (kIdLen + length (ser msg))) @ htons_bytes (u16 msgId) @ ser msg"

datatype codec_event = RawMessage nat "byte list" | ShutdownConn

function onMessage :: "'c option \<Rightarrow> Buffer \<Rightarrow> (codec_event list \<times> Buffer) option" where
  "onMessage conn buf =
     (if readableBytes buf \<ge> kHeaderLen then
        (let len = be_nat (take kHeaderLen (peek buf)) in
         if len < kIdLen \<or> len > kMaxFrameLen
         then Some (if conn \<noteq> None then [ShutdownConn] else [], retrieveAll buf)
         else if readableBytes buf < kHeaderLen + len then Some ([], buf)
         else (let msgId = be_nat (take kIdLen (drop kHeaderLen (peek buf)));
                   body = take (len - kIdLen) (drop (kHeaderLen + kIdLen) (peek buf)) in
           case retrieve buf (kHeaderLen + len) of
             None \<Rightarrow> None
           | Some buf' \<Rightarrow> (case onMessage conn buf' of
               None \<Rightarrow> None
             | Some (evs, b) \<Rightarrow> Some (RawMessage msgId body # evs, b))))
      else Some ([], buf))"
  by pat_completeness auto
termination
  by (relation "measure (\<lambda>(conn, buf). readableBytes buf)")
    (auto simp: kHeaderLen_def intro: retrieve_shrinks)

declare onMessage.simps [simp del]

subsection \<open>The reference parser\<close>

text \<open>
  What a byte stream means: the complete frames in order, the bytes after the last
  complete frame, and whether parsing stopped at a length outside \<open>2..65536\<close>.
\<close>

function split_frames :: "byte list \<Rightarrow> (nat \<times> byte list) list \<times> byte list \<times> bool" where
  "split_frames s =
     (if length s < 4 then ([], s, False)
      else let len = be_nat (take 4 s) in
        if len < 2 \<or> 65536 < len then ([], [], True)
        else if length s < 4 + len then ([], s, False)
        else case split_frames (drop (4 + len) s) of
          (fs, rest, bad) \<Rightarrow>
            ((be_nat (take 2 (drop 4 s)), take (len - 2) (drop 6 s)) # fs, rest, bad))"
  by pat_completeness auto
termination
  by (relation "measure length") auto

declare split_frames.simps [simp del]

fun frame_events :: "'c option \<Rightarrow> (nat \<times> byte list) list \<times> byte list \<times> bool \<Rightarrow> codec_event list" where
  "frame_events conn (fs, rest, bad) =
     map (\<lambda>(i, d). RawMessage i d) fs @ (if bad \<and> conn \<noteq> None then [ShutdownConn] else [])"

subsection \<open>The loop implements the parser\<close>

lemma peek_prefix: "buf_inv b \<Longrightarrow> n \<le> readableBytes b \<Longrightarrow> take n (peek b) = take n (content b)"
  by (simp add: content_def min_absorb1)

lemma peek_slice:
  assumes "buf_inv b" and "k + n \<le> readableBytes b"
  shows "take n (drop k (peek b)) = take n (drop k (content b))"
  using assms by (simp add: content_def drop_take min_absorb1)

lemma onMessage_refines:
  assumes "buf_inv b"
  shows "\<exists>b'. onMessage conn b = Some (frame_events conn (split_frames (content b)), b')
    \<and> buf_inv b' \<and> content b' = fst (snd (split_frames (content b)))"
  using assms
proof (induction conn b rule: onMessage.induct)
  case (1 conn b)
  let ?s = "content b" and ?len = "be_nat (take kHeaderLen (peek b))"
  have len: "length ?s = readableBytes b"
    using 1(2) by (rule content_length)
  show ?case
  proof (cases "readableBytes b < kHeaderLen")
    case True
    then show ?thesis
      using 1(2) len by (simp add: onMessage.simps [of conn b] split_frames.simps [of ?s] kHeaderLen_def)
  next
    case hdr: False
    then have head: "take 4 (peek b) = take 4 ?s"
      using peek_prefix [OF 1(2), of 4] by (simp add: kHeaderLen_def)
    consider (bad) "?len < kIdLen \<or> kMaxFrameLen < ?len"
      | (half) "\<not> (?len < kIdLen \<or> kMaxFrameLen < ?len)" "readableBytes b < kHeaderLen + ?len"
      | (frame) "\<not> (?len < kIdLen \<or> kMaxFrameLen < ?len)" "kHeaderLen + ?len \<le> readableBytes b"
      by linarith
    then show ?thesis
    proof cases
      case bad
      with hdr head len retrieveAll_ok [OF 1(2)] show ?thesis
        by (auto simp add: onMessage.simps [of conn b] split_frames.simps [of ?s] codec_consts)
    next
      case half
      with hdr head len 1(2) show ?thesis
        by (simp add: onMessage.simps [of conn b] split_frames.simps [of ?s] codec_consts Let_def)
    next
      case frame
      obtain c where c: "retrieve b (kHeaderLen + ?len) = Some c" "buf_inv c"
          "content c = drop (kHeaderLen + ?len) ?s"
        using retrieve_Some [OF 1(2) frame(2)] .
      then obtain d where d: "onMessage conn c = Some (frame_events conn (split_frames (content c)), d)"
          "buf_inv d" "content d = fst (snd (split_frames (content c)))"
        using 1(1) [OF _ refl frame(1) _ refl refl c(1)] hdr frame by auto
      obtain fs rest bad where f: "split_frames (content c) = (fs, rest, bad)"
        by (metis prod_cases3)
      have ids: "take 2 (drop 4 (peek b)) = take 2 (drop 4 ?s)"
        "take (?len - 2) (drop 6 (peek b)) = take (?len - 2) (drop 6 ?s)"
        using frame 1(2) by (auto intro!: peek_slice simp: codec_consts)
      show ?thesis
        using hdr frame c(1,3) d f head len ids
        by (simp add: onMessage.simps [of conn b] split_frames.simps [of ?s] codec_consts Let_def)
    qed
  qed
qed

subsection \<open>Streams\<close>

lemma be_nat_htons: "n < 2 ^ 16 \<Longrightarrow> be_nat (htons_bytes n) = n"
  by (simp add: htons_bytes_def less_mult_imp_div_less)

lemma be_nat_htonl:
  assumes "n < 2 ^ 32"
  shows "be_nat (htonl_bytes n) = n"
proof -
  define a b c where "a = n div 256" and "b = a div 256" and "c = b div 256"
  have h: "htonl_bytes n = [byte_of c, byte_of b, byte_of a, byte_of n]"
    by (simp add: htonl_bytes_def a_def b_def c_def div_mult2_eq [symmetric])
  have "c mod 256 = c"
    using assms by (simp add: a_def b_def c_def div_mult2_eq [symmetric] less_mult_imp_div_less)
  moreover have "c * 256 + b mod 256 = b" "b * 256 + a mod 256 = a" "a * 256 + n mod 256 = n"
    by (simp_all only: a_def b_def c_def div_mult_mod_eq)
  ultimately show ?thesis
    unfolding h be_nat_four unat_byte_of by simp
qed

lemma length_ids [simp]: "length (htonl_bytes n) = 4" "length (htons_bytes n) = 2"
  by (simp_all add: htonl_bytes_def htons_bytes_def)

text \<open>A complete frame at the front of a stream is the first frame read.\<close>

lemma split_frames_encode:
  assumes "kIdLen + length (ser m) \<le> kMaxFrameLen" and "i < 2 ^ 16"
    and "split_frames s = (fs, rest, bad)"
  shows "split_frames (encode ser i m @ s) = ((i, ser m) # fs, rest, bad)"
proof -
  let ?n = "2 + length (ser m)"
  have n: "?n \<le> 65536" "u32 ?n = ?n" "u16 i = i"
    using assms(1,2) by (simp_all add: codec_consts wrap_simps)
  have e: "encode ser i m = htonl_bytes ?n @ htons_bytes i @ ser m"
    by (simp only: encode_def kIdLen_def n)
  have h: "be_nat (take 4 (encode ser i m @ s)) = ?n"
    "be_nat (take 2 (drop 4 (encode ser i m @ s))) = i"
    using n assms(2) by (simp_all add: e be_nat_htonl be_nat_htons)
  have "take (?n - 2) (drop 6 (encode ser i m @ s)) = ser m"
    "drop (4 + ?n) (encode ser i m @ s) = s"
    by (simp_all add: e)
  moreover have "length (encode ser i m @ s) = 4 + ?n + length s"
    by (simp add: e)
  ultimately show ?thesis
    using n assms(3) h by (subst split_frames.simps) (simp add: Let_def)
qed

text \<open>
  Parsing is incremental: what was left over by a prefix of the stream, continued by the
  rest, gives the remaining frames; and a framing error stays one.
\<close>

lemma split_frames_append:
  assumes "split_frames xs = (fs, rest, False)" and "split_frames (rest @ ys) = (gs, rest', bad)"
  shows "split_frames (xs @ ys) = (fs @ gs, rest', bad)"
  using assms
proof (induction xs arbitrary: fs rule: split_frames.induct)
  case (1 xs)
  let ?len = "be_nat (take 4 xs)"
  show ?case
  proof (cases "length xs < 4 \<or> length xs < 4 + ?len")
    case True
    with 1(2) have "fs = []" "rest = xs"
      by (auto simp: split_frames.simps [of xs] Let_def split: if_splits prod.splits)
    with 1(3) show ?thesis by simp
  next
    case False
    with 1(2) obtain gs' where len: "\<not> (?len < 2 \<or> 65536 < ?len)"
      and d: "split_frames (drop (4 + ?len) xs) = (gs', rest, False)"
      and fs: "fs = (be_nat (take 2 (drop 4 xs)), take (?len - 2) (drop 6 xs)) # gs'"
      by (auto simp: split_frames.simps [of xs] Let_def split: if_splits prod.splits)
    have "split_frames (drop (4 + ?len) xs @ ys) = (gs' @ gs, rest', bad)"
      using False len by (intro 1(1) [OF _ refl _ _ d 1(3)]) auto
    with False len fs show ?thesis
      by (subst split_frames.simps) (auto simp add: Let_def)
  qed
qed

lemma split_frames_append_bad:
  assumes "split_frames xs = (fs, rest, True)"
  shows "split_frames (xs @ ys) = (fs, [], True)"
  using assms
proof (induction xs arbitrary: fs rule: split_frames.induct)
  case (1 xs)
  let ?len = "be_nat (take 4 xs)"
  from 1(2) have long: "\<not> length xs < 4"
    by (auto simp: split_frames.simps [of xs])
  show ?case
  proof (cases "?len < 2 \<or> 65536 < ?len")
    case True
    with 1(2) long show ?thesis
      by (auto simp: split_frames.simps [of xs] split_frames.simps [of "xs @ ys"])
  next
    case False
    with 1(2) long obtain gs' where len: "\<not> length xs < 4 + ?len"
      and d: "split_frames (drop (4 + ?len) xs) = (gs', rest, True)"
      and fs: "fs = (be_nat (take 2 (drop 4 xs)), take (?len - 2) (drop 6 xs)) # gs'"
      by (auto simp: split_frames.simps [of xs] Let_def split: if_splits prod.splits)
    have "split_frames (drop (4 + ?len) xs @ ys) = (gs', [], True)"
      using False len long by (intro 1(1) [OF _ refl _ _ d]) auto
    with False len long fs show ?thesis
      by (subst split_frames.simps) (auto simp add: Let_def)
  qed
qed

lemma split_frames_rest_short:
  "split_frames s = (fs, rest, bad) \<Longrightarrow> length rest < 4 + 65536"
proof (induction s arbitrary: fs rule: split_frames.induct)
  case (1 s)
  show ?case
  proof (cases "length s < 4 \<or> length s < 4 + be_nat (take 4 s) \<or> be_nat (take 4 s) < 2
      \<or> 65536 < be_nat (take 4 s)")
    case True
    with 1(2) show ?thesis
      by (auto simp: split_frames.simps [of s] Let_def split: if_splits prod.splits)
  next
    case False
    with 1(2) obtain gs where d: "split_frames (drop (4 + be_nat (take 4 s)) s) = (gs, rest, bad)"
      by (auto simp: split_frames.simps [of s] Let_def split: prod.splits)
    with False show ?thesis
      by (intro 1(1) [OF _ refl _ _ d]) auto
  qed
qed

lemma take_two_less: "2 \<le> length s \<Longrightarrow> be_nat (take 2 s) < 2 ^ 16"
  using be_nat_two_less [of "s ! 0" "s ! 1"]
  by (cases s; cases "tl s") (auto simp: be_nat_two)

lemma split_frames_bounded:
  "split_frames s = (fs, rest, bad) \<Longrightarrow> list_all (\<lambda>(i, d). i < 2 ^ 16 \<and> length d \<le> 65534) fs"
proof (induction s arbitrary: fs rule: split_frames.induct)
  case (1 s)
  show ?case
  proof (cases "length s < 4 \<or> length s < 4 + be_nat (take 4 s) \<or> be_nat (take 4 s) < 2
      \<or> 65536 < be_nat (take 4 s)")
    case True
    with 1(2) show ?thesis
      by (auto simp: split_frames.simps [of s] Let_def split: if_splits prod.splits)
  next
    case False
    with 1(2) obtain gs where d: "split_frames (drop (4 + be_nat (take 4 s)) s) = (gs, rest, bad)"
      and fs: "fs = (be_nat (take 2 (drop 4 s)), take (be_nat (take 4 s) - 2) (drop 6 s)) # gs"
      by (auto simp: split_frames.simps [of s] Let_def split: prod.splits)
    from False have "list_all (\<lambda>(i, d). i < 2 ^ 16 \<and> length d \<le> 65534) gs"
      by (intro 1(1) [OF _ refl _ _ d]) auto
    with False fs take_two_less [of "drop 4 s"] show ?thesis
      by auto
  qed
qed

text \<open>
  One delivery by the connection: the received bytes are appended to the input buffer and
  \<open>onMessage\<close> runs on it (\<^verbatim>\<open>TcpConnection::handleRead\<close> and the message callback that
  \<open>GameServer\<close> installs).
\<close>

fun feed :: "'c option \<Rightarrow> Buffer \<Rightarrow> byte list list \<Rightarrow> (codec_event list \<times> Buffer) option" where
  "feed conn b [] = Some ([], b)"
| "feed conn b (c # cs) = (case onMessage conn (append b c) of
     None \<Rightarrow> None
   | Some (evs, b') \<Rightarrow> (case feed conn b' cs of
       None \<Rightarrow> None
     | Some (evs', b'') \<Rightarrow> Some (evs @ evs', b'')))"

lemma feed_step:
  assumes "buf_inv b" and "split_frames (content b @ c) = (fs, rest, bad)"
  obtains b' where "onMessage conn (append b c) = Some (frame_events conn (fs, rest, bad), b')"
    and "buf_inv b'" and "content b' = rest"
  using onMessage_refines [of "append b c" conn] append_ok [OF assms(1), of c] assms(2) by auto

text \<open>The leftover of a stream holds no complete frame.\<close>

lemma split_frames_rest_idle:
  "split_frames s = (fs, rest, False) \<Longrightarrow> split_frames rest = ([], rest, False)"
proof (induction s arbitrary: fs rule: split_frames.induct)
  case (1 s)
  show ?case
  proof (cases "length s < 4 \<or> length s < 4 + be_nat (take 4 s)")
    case True
    with 1(2) have "rest = s \<and> fs = []"
      by (auto simp: split_frames.simps [of s] Let_def split: if_splits prod.splits)
    with 1(2) show ?thesis by simp
  next
    case False
    with 1(2) obtain gs where len: "\<not> (be_nat (take 4 s) < 2 \<or> 65536 < be_nat (take 4 s))"
      and d: "split_frames (drop (4 + be_nat (take 4 s)) s) = (gs, rest, False)"
      by (auto simp: split_frames.simps [of s] Let_def split: if_splits prod.splits)
    with False show ?thesis
      by (intro 1(1) [OF _ refl _ _ d]) auto
  qed
qed

lemma feed_stream:
  assumes "buf_inv b" and "split_frames (content b) = ([], content b, False)"
    and "split_frames (content b @ concat cs) = (fs, rest, False)"
  shows "\<exists>b'. feed conn b cs = Some (map (\<lambda>(i, d). RawMessage i d) fs, b')
    \<and> buf_inv b' \<and> content b' = rest"
  using assms
proof (induction cs arbitrary: b fs)
  case Nil
  then show ?case by simp
next
  case (Cons c cs)
  obtain gs r bad where g: "split_frames (content b @ c) = (gs, r, bad)"
    by (metis prod_cases3)
  have nb: "bad = False"
    using split_frames_append_bad [of "content b @ c" gs r "concat cs"] g Cons.prems(3)
    by (cases bad) auto
  obtain hs r' bad' where h: "split_frames (r @ concat cs) = (hs, r', bad')"
    by (metis prod_cases3)
  have eq: "fs = gs @ hs" "r' = rest" "bad' = False"
    using split_frames_append [OF g [unfolded nb] h] Cons.prems(3) by simp_all
  obtain b' where b': "onMessage conn (append b c) = Some (frame_events conn (gs, r, False), b')"
      "buf_inv b'" "content b' = r"
    using feed_step [OF Cons.prems(1) g, of conn] unfolding nb .
  show ?case
    using Cons.IH [OF b'(2), of hs] b' h eq split_frames_rest_idle [OF g [unfolded nb]] by auto
qed

lemma split_frames_messages:
  assumes "\<forall>(i, m) \<in> set ms. i < 2 ^ 16 \<and> kIdLen + length (ser m) \<le> kMaxFrameLen"
  shows "split_frames (concat (map (\<lambda>(i, m). encode ser i m) ms))
    = (map (\<lambda>(i, m). (i, ser m)) ms, [], False)"
  using assms
proof (induction ms)
  case Nil
  then show ?case by (simp add: split_frames.simps)
next
  case (Cons x ms)
  then show ?case
    by (cases x) (auto intro: split_frames_encode)
qed

subsection \<open>Properties\<close>

text \<open>
  C10. Round trip over a TCP stream: whatever sequence of messages is encoded, and however
  the network cuts the resulting bytes into deliveries (several frames at once, half
  frames, single bytes), the receiving codec calls its callback with exactly those message
  numbers and bodies, in order, and keeps no bytes. Hypotheses: each message number is a
  \<^verbatim>\<open>uint16_t\<close> and each frame is within the 64 KiB limit.
\<close>

theorem codec_stream_roundtrip:
  assumes "\<forall>(i, m) \<in> set ms. i < 2 ^ 16 \<and> kIdLen + length (ser m) \<le> kMaxFrameLen"
    and "concat chunks = concat (map (\<lambda>(i, m). encode ser i m) ms)"
  shows "\<exists>b. feed conn newBuffer chunks = Some (map (\<lambda>(i, m). RawMessage i (ser m)) ms, b)
    \<and> buf_inv b \<and> content b = []"
proof -
  have "split_frames (content newBuffer @ concat chunks) = (map (\<lambda>(i, m). (i, ser m)) ms, [], False)"
    using split_frames_messages [OF assms(1)] assms(2) by (simp add: newBuffer_ok)
  moreover have "split_frames (content newBuffer) = ([], content newBuffer, False)"
    by (simp add: newBuffer_ok split_frames.simps)
  moreover have "map (\<lambda>(i, d). RawMessage i d) (map (\<lambda>(i, m). (i, ser m)) ms)
      = map (\<lambda>(i, m). RawMessage i (ser m)) ms"
    by auto
  ultimately show ?thesis
    using feed_stream [of newBuffer chunks _ "[]" conn] by (simp add: newBuffer_ok del: map_map)
qed

theorem codec_stream_roundtrip_witness:
  "\<exists>b. feed (Some ()) newBuffer [[0, 0, 0], [4, 0, 1, 7, 8, 0, 0, 0, 2, 0], [2]]
     = Some ([RawMessage 1 [7, 8], RawMessage 2 []], b) \<and> buf_inv b \<and> content b = []"
  using codec_stream_roundtrip [of "[(1, [7, 8]), (2, [])]" id
      "[[0, 0, 0], [4, 0, 1, 7, 8, 0, 0, 0, 2, 0], [2]]" "Some ()"]
  by (simp add: encode_def htonl_bytes_def htons_bytes_def codec_consts u32_def u16_def byte_of_def)

text \<open>
  C34. Robustness of the receive loop: on any buffer contents whatsoever \<open>onMessage\<close>
  returns (no assertion of \<open>retrieve\<close> fails), it keeps the buffer invariant, every body
  it delivers has at most 65534 bytes and a 16-bit message number, it leaves fewer than
  65540 bytes buffered, and the connection is shut down at most once, as the last action.
\<close>

theorem codec_total_and_bounded:
  assumes "buf_inv b"
  shows "\<exists>fs tail b'. onMessage conn b = Some (map (\<lambda>(i, d). RawMessage i d) fs @ tail, b')
    \<and> tail \<in> {[], [ShutdownConn]}
    \<and> buf_inv b' \<and> length (content b') < 65540
    \<and> list_all (\<lambda>(i, d). i < 2 ^ 16 \<and> length d \<le> 65534) fs"
proof -
  obtain fs rest bad where f: "split_frames (content b) = (fs, rest, bad)"
    by (metis prod_cases3)
  have "list_all (\<lambda>(i, d). i < 2 ^ 16 \<and> length d \<le> 65534) fs"
    using f by (rule split_frames_bounded)
  moreover obtain b' where b': "onMessage conn b = Some (frame_events conn (fs, rest, bad), b')"
      "buf_inv b'" "content b' = rest"
    using onMessage_refines [OF assms, of conn] f by auto
  ultimately have "onMessage conn b = Some (map (\<lambda>(i, d). RawMessage i d) fs
        @ (if bad \<and> conn \<noteq> None then [ShutdownConn] else []), b')
      \<and> (if bad \<and> conn \<noteq> None then [ShutdownConn] else []) \<in> {[], [ShutdownConn]}
      \<and> buf_inv b' \<and> length (content b') < 65540
      \<and> list_all (\<lambda>(i, d). i < 2 ^ 16 \<and> length d \<le> 65534) fs"
    using split_frames_rest_short [OF f] by simp
  then show ?thesis by blast
qed

theorem codec_total_and_bounded_witness:
  "\<exists>fs tail b'. onMessage (Some ()) newBuffer = Some (map (\<lambda>(i, d). RawMessage i d) fs @ tail, b')
    \<and> tail \<in> {[], [ShutdownConn]}
    \<and> buf_inv b' \<and> length (content b') < 65540
    \<and> list_all (\<lambda>(i, d). i < 2 ^ 16 \<and> length d \<le> 65534) fs"
  by (rule codec_total_and_bounded) (simp add: newBuffer_ok)

text \<open>
  A framing error does not end the dialogue: \<open>shutdown\<close> only closes the write side and
  clears the buffer, so a well-formed frame that arrives after the corrupt header is still
  delivered to the message callback, although the code calls the stream untrustworthy from
  that point on.
\<close>

theorem codec_delivers_after_framing_error:
  assumes "be_nat [w, x, y, z] < kIdLen \<or> kMaxFrameLen < be_nat [w, x, y, z]"
    and "i < 2 ^ 16" and "kIdLen + length (ser m) \<le> kMaxFrameLen"
  shows "\<exists>b. feed (Some c) newBuffer [[w, x, y, z], encode ser i m]
    = Some ([ShutdownConn, RawMessage i (ser m)], b)"
proof -
  have bad: "split_frames (content newBuffer @ [w, x, y, z]) = ([], [], True)"
    using assms(1) by (simp add: newBuffer_ok split_frames.simps codec_consts)
  obtain b where b: "onMessage (Some c) (append newBuffer [w, x, y, z]) = Some ([ShutdownConn], b)"
      "buf_inv b" "content b = []"
    by (rule feed_step [OF conjunct1 [OF newBuffer_ok] bad, of "Some c"]) simp
  have "split_frames (content b @ encode ser i m) = ([(i, ser m)], [], False)"
    using split_frames_encode [of ser m i "[]" "[]" "[]" False] assms(2,3) b(3)
    by (simp add: split_frames.simps)
  then obtain b' where "onMessage (Some c) (append b (encode ser i m)) = Some ([RawMessage i (ser m)], b')"
    by (rule feed_step [OF b(2), of _ _ _ _ "Some c"]) simp
  with b(1) show ?thesis by simp
qed

theorem codec_delivers_after_framing_error_witness:
  "\<exists>b. feed (Some ()) newBuffer [[0, 0, 0, 0], encode id 3 [1, 2]]
    = Some ([ShutdownConn, RawMessage 3 (id [1, 2])], b)"
  by (rule codec_delivers_after_framing_error) (simp_all add: codec_consts)

end
