(* ===== verification/MatchQueue.thy ===== *)
theory MatchQueue
  imports Prelude
begin

text \<open>
  \<^verbatim>\<open>src/game/MatchQueue.h\<close>: the matchmaking queue, a deque in arrival order plus a set of
  the players really waiting; \<open>remove\<close> only touches the set, so the deque may hold stale
  entries that \<open>popPair\<close> skips. Reading the front of an empty deque is undefined
  behaviour in C++ and the result \<open>None\<close> here. The locale \<open>pairing_queue\<close> is the contract
  the lobby relies on; \<open>mq_view\<close> is the order in which players will be paired.
\<close>

record MatchQueue =
  order :: "nat list"
  waiting :: "nat set"

definition newMatchQueue :: MatchQueue where
  "newMatchQueue = \<lparr>order = [], waiting = {}\<rparr>"

definition push :: "MatchQueue \<Rightarrow> nat \<Rightarrow> bool \<times> MatchQueue" where
  "push q playerId =
     (if playerId \<in> waiting q then (False, q)
      else (True, q\<lparr>waiting := insert playerId (waiting q), order := order q @ [playerId]\<rparr>))"

definition remove :: "MatchQueue \<Rightarrow> nat \<Rightarrow> MatchQueue" where
  "remove q playerId = q\<lparr>waiting := waiting q - {playerId}\<rparr>"

definition contains :: "MatchQueue \<Rightarrow> nat \<Rightarrow> bool" where
  "contains q playerId = (playerId \<in> waiting q)"

fun compact_loop :: "nat set \<Rightarrow> nat list \<Rightarrow> nat list" where
  "compact_loop w [] = []"
| "compact_loop w (x # xs) = (if x \<notin> w then compact_loop w xs else x # xs)"

definition compact :: "MatchQueue \<Rightarrow> MatchQueue" where
  "compact q = q\<lparr>order := compact_loop (waiting q) (order q)\<rparr>"

definition takeFront :: "MatchQueue \<Rightarrow> (nat \<times> MatchQueue) option" where
  "takeFront q0 = (let q = compact q0 in
     case order q of
       [] \<Rightarrow> None
     | x # xs \<Rightarrow> Some (x, q\<lparr>order := xs, waiting := waiting q - {x}\<rparr>))"

definition popPair :: "MatchQueue \<Rightarrow> ((nat \<times> nat) option \<times> MatchQueue) option" where
  "popPair q0 = (let q = compact q0 in
     if card (waiting q) < 2 then Some (None, q)
     else case takeFront q of
       None \<Rightarrow> None
     | Some (a, q1) \<Rightarrow> (case takeFront q1 of
         None \<Rightarrow> None
       | Some (b, q2) \<Rightarrow> Some (Some (a, b), q2)))"

definition mq_inv :: "MatchQueue \<Rightarrow> bool" where
  "mq_inv q \<longleftrightarrow> waiting q \<subseteq> set (order q)"

text \<open>The waiting players in pairing order: first live occurrences in the deque.\<close>

fun firsts :: "nat set \<Rightarrow> nat list \<Rightarrow> nat list" where
  "firsts w [] = []"
| "firsts w (x # xs) = (if x \<in> w then x # firsts (w - {x}) xs else firsts w xs)"

definition mq_view :: "MatchQueue \<Rightarrow> nat list" where
  "mq_view q = firsts (waiting q) (order q)"

subsection \<open>The contract of a pairing queue\<close>

locale pairing_queue =
  fixes members :: "'q \<Rightarrow> nat set"
    and ok :: "'q \<Rightarrow> bool"
    and enter :: "'q \<Rightarrow> nat \<Rightarrow> bool \<times> 'q"
    and leave :: "'q \<Rightarrow> nat \<Rightarrow> 'q"
    and pop :: "'q \<Rightarrow> ((nat \<times> nat) option \<times> 'q) option"
  assumes finite_members: "ok q \<Longrightarrow> finite (members q)"
    and enter_ok: "ok q \<Longrightarrow> ok (snd (enter q p))"
    and enter_result: "ok q \<Longrightarrow> fst (enter q p) = (p \<notin> members q)"
    and enter_members: "ok q \<Longrightarrow> members (snd (enter q p)) = insert p (members q)"
    and leave_ok: "ok q \<Longrightarrow> ok (leave q p)"
    and leave_members: "ok q \<Longrightarrow> members (leave q p) = members q - {p}"
    and pop_small: "ok q \<Longrightarrow> card (members q) < 2 \<Longrightarrow>
      \<exists>q'. pop q = Some (None, q') \<and> ok q' \<and> members q' = members q"
    and pop_pair: "ok q \<Longrightarrow> 2 \<le> card (members q) \<Longrightarrow>
      \<exists>a b q'. pop q = Some (Some (a, b), q') \<and> ok q' \<and> a \<in> members q \<and> b \<in> members q
        \<and> a \<noteq> b \<and> members q' = members q - {a, b}"
begin

lemma pop_total: "ok q \<Longrightarrow> \<exists>r q'. pop q = Some (r, q') \<and> ok q'"
  using pop_small [of q] pop_pair [of q] by (cases "card (members q) < 2") fastforce+

lemma pop_SomeD:
  assumes "ok q" and "pop q = Some (Some (a, b), q')"
  shows "ok q' \<and> a \<in> members q \<and> b \<in> members q \<and> a \<noteq> b \<and> members q' = members q - {a, b}"
proof (cases "card (members q) < 2")
  case True
  with pop_small [OF assms(1)] assms(2) show ?thesis by simp
next
  case False
  with pop_pair [OF assms(1)] assms(2) show ?thesis by auto
qed

lemma pop_NoneD:
  assumes "ok q" and "pop q = Some (None, q')"
  shows "ok q' \<and> members q' = members q \<and> card (members q) < 2"
proof (cases "card (members q) < 2")
  case True
  with pop_small [OF assms(1)] assms(2) show ?thesis by simp
next
  case False
  with pop_pair [OF assms(1)] assms(2) show ?thesis by auto
qed

text \<open>
  A client that pops after every entry never leaves two players waiting.
\<close>

lemma enter_pop_at_most_one:
  assumes "ok q" and "card (members q) \<le> 1" and "pop (snd (enter q p)) = Some (r, q')"
  shows "ok q' \<and> card (members q') \<le> 1"
proof -
  let ?q = "snd (enter q p)"
  have ok: "ok ?q" and mem: "members ?q = insert p (members q)"
    using assms(1) by (simp_all add: enter_ok enter_members)
  have card: "card (members ?q) \<le> 2"
    using assms(1,2) finite_members [OF assms(1)] by (simp add: mem card_insert_if)
  show ?thesis
  proof (cases r)
    case None
    with assms(3) pop_NoneD [OF ok] show ?thesis by fastforce
  next
    case (Some ab)
    obtain a b where ab: "ab = (a, b)" by (cases ab)
    with Some assms(3) pop_SomeD [OF ok] have "ok q'" "{a, b} \<subseteq> members ?q" "a \<noteq> b"
        "members q' = members ?q - {a, b}"
      by auto
    moreover have "card (members ?q - {a, b}) = card (members ?q) - card {a, b}"
      using calculation finite_members [OF ok] by (intro card_Diff_subset) auto
    ultimately show ?thesis
      using card by simp
  qed
qed

end

subsection \<open>The class implements the contract\<close>

lemma set_firsts: "set (firsts w xs) = w \<inter> set xs"
  by (induction w xs rule: firsts.induct) auto

lemma distinct_firsts: "distinct (firsts w xs)"
  by (induction w xs rule: firsts.induct) (auto simp: set_firsts)

lemma mq_view_set: "mq_inv q \<Longrightarrow> set (mq_view q) = waiting q"
  by (auto simp: mq_inv_def mq_view_def set_firsts)

lemma mq_view_length: "mq_inv q \<Longrightarrow> length (mq_view q) = card (waiting q)"
  using distinct_card [OF distinct_firsts, of "waiting q" "order q"] mq_view_set [of q]
  by (simp add: mq_view_def)

lemma mq_inv_finite: "mq_inv q \<Longrightarrow> finite (waiting q)"
  by (auto simp: mq_inv_def intro: finite_subset)

lemma firsts_compact: "firsts w (compact_loop w xs) = firsts w xs"
  by (induction w xs rule: compact_loop.induct) auto

lemma compact_loop_covers: "w \<subseteq> set xs \<Longrightarrow> w \<subseteq> set (compact_loop w xs)"
  by (induction w xs rule: compact_loop.induct) auto

lemma compact_ok:
  "mq_inv q \<Longrightarrow> mq_inv (compact q)" "mq_view (compact q) = mq_view q"
  "waiting (compact q) = waiting q"
  by (simp_all add: compact_def mq_inv_def mq_view_def firsts_compact compact_loop_covers)

lemma compact_loop_head: "compact_loop w xs = y # ys \<Longrightarrow> y \<in> w"
  by (induction w xs rule: compact_loop.induct) (auto split: if_splits)

lemma takeFront_view:
  assumes "mq_inv q" and "mq_view q = a # v"
  obtains q' where "takeFront q = Some (a, q')" and "mq_inv q'" and "mq_view q' = v"
    and "waiting q' = waiting q - {a}"
proof -
  let ?o = "compact_loop (waiting q) (order q)"
  from assms(2) have v: "firsts (waiting q) ?o = a # v"
    by (simp add: mq_view_def firsts_compact)
  then obtain y ys where o: "?o = y # ys"
    by (cases ?o) auto
  then have y: "y \<in> waiting q"
    by (rule compact_loop_head)
  let ?q = "q\<lparr>order := ys, waiting := waiting q - {a}\<rparr>"
  from v o y have "y = a" "firsts (waiting q - {a}) ys = v"
    by auto
  moreover have "waiting q \<subseteq> set ?o"
    using assms(1) by (simp add: mq_inv_def compact_loop_covers)
  ultimately show ?thesis
    using that [of ?q] o by (auto simp: takeFront_def compact_def mq_inv_def mq_view_def Let_def)
qed

lemma popPair_view_pair:
  assumes "mq_inv q" and "mq_view q = a # b # v"
  obtains q' where "popPair q = Some (Some (a, b), q')" and "mq_inv q'" and "mq_view q' = v"
    and "waiting q' = waiting q - {a, b}"
proof -
  have c: "mq_inv (compact q)" "mq_view (compact q) = a # b # v"
    using assms by (simp_all add: compact_ok)
  then have card: "\<not> card (waiting (compact q)) < 2"
    using mq_view_length [OF c(1)] by simp
  obtain q1 where q1: "takeFront (compact q) = Some (a, q1)" "mq_inv q1" "mq_view q1 = b # v"
      "waiting q1 = waiting q - {a}"
    using takeFront_view [OF c] by (auto simp: compact_ok)
  obtain q2 where q2: "takeFront q1 = Some (b, q2)" "mq_inv q2" "mq_view q2 = v"
      "waiting q2 = waiting q1 - {b}"
    using takeFront_view [OF q1(2,3)] .
  show ?thesis
    using that [of q2] card q1 q2 by (auto simp: popPair_def Let_def)
qed

lemma popPair_view_short:
  assumes "mq_inv q" and "length (mq_view q) < 2"
  shows "popPair q = Some (None, compact q)"
  using assms mq_view_length [OF assms(1)] by (simp add: popPair_def Let_def compact_ok)

lemma push_mq_inv: "mq_inv q \<Longrightarrow> mq_inv (snd (push q p))"
  by (auto simp: push_def mq_inv_def)

lemma remove_mq_inv: "mq_inv q \<Longrightarrow> mq_inv (remove q p)"
  by (auto simp: remove_def mq_inv_def)

interpretation mq: pairing_queue waiting mq_inv push remove popPair
proof unfold_locales
  fix q
  assume q: "mq_inv q" and "card (waiting q) < 2"
  then show "\<exists>q'. popPair q = Some (None, q') \<and> mq_inv q' \<and> waiting q' = waiting q"
    using popPair_view_short [OF q] by (simp add: mq_view_length compact_ok)
next
  fix q
  assume q: "mq_inv q" and "2 \<le> card (waiting q)"
  then have "2 \<le> length (mq_view q)"
    by (simp add: mq_view_length)
  then obtain a b v where v: "mq_view q = a # b # v"
    by (metis Suc_le_length_iff numeral_2_eq_2)
  then have "a \<noteq> b" "a \<in> waiting q" "b \<in> waiting q"
    using distinct_firsts [of "waiting q" "order q"] mq_view_set [OF q]
    by (auto simp: mq_view_def)
  then show "\<exists>a b q'. popPair q = Some (Some (a, b), q') \<and> mq_inv q' \<and> a \<in> waiting q
      \<and> b \<in> waiting q \<and> a \<noteq> b \<and> waiting q' = waiting q - {a, b}"
    by (auto intro: popPair_view_pair [OF q v])
qed (simp_all add: mq_inv_finite push_mq_inv remove_mq_inv, auto simp: push_def remove_def)

lemma newMatchQueue_inv: "mq_inv newMatchQueue \<and> waiting newMatchQueue = {}"
  by (simp add: mq_inv_def newMatchQueue_def)

subsection \<open>Properties\<close>

text \<open>
  \<open>popPair\<close> never reads the front of an empty deque, and it serves the queue in order:
  when the players still waiting, in arrival order, are \<open>a # b # v\<close> it returns
  \<open>(a, b)\<close> and leaves \<open>v\<close>; with fewer than two it returns nothing and leaves the
  waiting players as they were.
\<close>

theorem popPair_serves_in_order:
  assumes "mq_inv q"
  shows "\<exists>r q'. popPair q = Some (r, q') \<and> mq_inv q' \<and>
    (case mq_view q of
       a # b # v \<Rightarrow> r = Some (a, b) \<and> a \<noteq> b \<and> mq_view q' = v \<and> waiting q' = waiting q - {a, b}
     | v \<Rightarrow> r = None \<and> mq_view q' = v \<and> waiting q' = waiting q)"
proof (cases "length (mq_view q) < 2")
  case True
  have "mq_inv (compact q)" "mq_view (compact q) = mq_view q" "waiting (compact q) = waiting q"
    using assms by (simp_all add: compact_ok)
  with True show ?thesis
    using popPair_view_short [OF assms True] by (auto split: list.splits)
next
  case False
  then obtain a b v where v: "mq_view q = a # b # v"
    by (metis Suc_le_length_iff numeral_2_eq_2 not_less)
  then have "a \<noteq> b"
    using distinct_firsts [of "waiting q" "order q"] by (auto simp: mq_view_def)
  with v show ?thesis
    by (auto intro: popPair_view_pair [OF assms v])
qed

theorem popPair_serves_in_order_witness:
  "\<exists>r q'. popPair \<lparr>order = [7, 5, 7, 9], waiting = {5, 9}\<rparr> = Some (r, q') \<and> mq_inv q' \<and>
    r = Some (5, 9) \<and> waiting q' = {}"
  using popPair_serves_in_order [of "\<lparr>order = [7, 5, 7, 9], waiting = {5, 9}\<rparr>"]
  by (auto simp: mq_inv_def mq_view_def)

text \<open>
  Arrival order: a player with no stale entry in the deque joins at the end of the
  pairing order; a duplicate push is refused and changes nothing; \<open>remove\<close> takes exactly
  that player out and keeps the order of the others.
\<close>

lemma firsts_snoc: "p \<notin> set xs \<Longrightarrow> p \<notin> w \<Longrightarrow> firsts (insert p w) (xs @ [p]) = firsts w xs @ [p]"
proof (induction w xs rule: firsts.induct)
  case (2 w x xs)
  then have "insert p w - {x} = insert p (w - {x})" by auto
  with 2 show ?case by auto
qed simp

lemma firsts_remove: "firsts (w - {p}) xs = filter (\<lambda>x. x \<noteq> p) (firsts w xs)"
proof (induction w xs rule: firsts.induct)
  case (2 w x xs)
  show ?case
  proof (cases "x = p")
    case True
    have "p \<notin> set (firsts (w - {p}) xs)" by (simp add: set_firsts)
    then have "filter (\<lambda>y. y \<noteq> p) (firsts (w - {p}) xs) = firsts (w - {p}) xs"
      by (intro filter_True) auto
    with True 2 show ?thesis by simp
  next
    case False
    have "w - {x} - {p} = w - {p} - {x}" by auto
    with False 2 show ?thesis by auto
  qed
qed simp

theorem matchQueue_arrival_order:
  "(p \<in> waiting q \<longrightarrow> push q p = (False, q))
   \<and> (p \<notin> waiting q \<and> p \<notin> set (order q) \<longrightarrow>
        fst (push q p) \<and> mq_view (snd (push q p)) = mq_view q @ [p])
   \<and> mq_view (remove q p) = filter (\<lambda>x. x \<noteq> p) (mq_view q)"
  by (simp add: push_def remove_def mq_view_def firsts_snoc firsts_remove)

theorem matchQueue_arrival_order_witness:
  "mq_view (snd (push \<lparr>order = [4], waiting = {4}\<rparr> 6)) = mq_view \<lparr>order = [4], waiting = {4}\<rparr> @ [6]"
  using matchQueue_arrival_order [of 6 "\<lparr>order = [4], waiting = {4}\<rparr>"] by simp

text \<open>
  The queue is not FIFO across a removal: the entry that \<open>remove\<close> leaves in the deque
  comes back to life when the same player queues again, so that player is paired ahead of
  one who has been waiting since before the second \<open>push\<close>.
\<close>

theorem matchQueue_requeue_jumps_ahead:
  assumes "p \<noteq> r"
  defines "q \<equiv> remove (snd (push newMatchQueue p)) p"
  defines "q' \<equiv> snd (push (snd (push q r)) p)"
  shows "mq_view (snd (push q r)) = [r] \<and> mq_view q' = [p, r]
    \<and> map_option fst (popPair q') = Some (Some (p, r))"
  using assms
  by (simp add: newMatchQueue_def push_def remove_def mq_view_def popPair_def takeFront_def
      compact_def Let_def)

theorem matchQueue_requeue_jumps_ahead_witness:
  "mq_view (snd (push (snd (push (remove (snd (push newMatchQueue 1)) 1) 2)) 1)) = [1, 2]"
  using matchQueue_requeue_jumps_ahead [of 1 2] by simp

end
