(* ===== verification/TimerWheel.thy ===== *)
theory TimerWheel
  imports Prelude
begin

text \<open>
  \<^verbatim>\<open>src/timer/TimerWheel.h/.cc\<close>: the two-level timer wheel of the lobby.

  The nodes are shared objects (\<^verbatim>\<open>shared_ptr<Node>\<close>, reachable from a slot and from
  \<open>alive_\<close> at once, and \<open>cancel\<close> writes a flag the slot's reference sees), so they live
  in an explicit store \<open>nodes\<close> addressed by the timer id; slots hold ids and \<open>alive\<close>
  is the key set of \<open>alive_\<close>. A callback is a value of the type \<open>'c\<close> and
  \<open>run\<close> is its interpreter: it may change the wheel (callbacks add and cancel timers)
  and the rest of the program's state. \<open>advance\<close> returns the timers it fired, with the
  tick. The delay and the elapsed time are 64-bit arguments and wrap; the tick and id
  counters are unbounded (they would need \<open>2^64\<close> steps to wrap).
\<close>

record 'c Node =
  expiryTick :: nat
  callback :: 'c
  canceled :: bool

record 'c TimerWheel =
  nowTick :: nat
  remainderMs :: nat
  nextId :: nat
  l0 :: "nat \<Rightarrow> nat list"
  l1 :: "nat \<Rightarrow> nat list"
  alive :: "nat set"
  nodes :: "nat \<rightharpoonup> 'c Node"

definition kTickMs :: nat where
  "kTickMs = 100"

definition kSlots :: nat where
  "kSlots = 64"

definition newTimerWheel :: "'c TimerWheel" where
  "newTimerWheel = \<lparr>nowTick = 0, remainderMs = 0, nextId = 1, l0 = (\<lambda>_. []), l1 = (\<lambda>_. []),
     alive = {}, nodes = Map.empty\<rparr>"

definition place :: "'c TimerWheel \<Rightarrow> nat \<Rightarrow> 'c TimerWheel" where
  "place w tid = (case nodes w tid of
       None \<Rightarrow> w
     | Some n \<Rightarrow>
        (let diff = expiryTick n - nowTick w in
         if diff < kSlots
         then w\<lparr>l0 := (l0 w)(expiryTick n mod kSlots := l0 w (expiryTick n mod kSlots) @ [tid])\<rparr>
         else
           (let n' = (if diff \<ge> kSlots * kSlots
                      then n\<lparr>expiryTick := nowTick w + kSlots * kSlots - 1\<rparr> else n);
                slot = expiryTick n' div kSlots mod kSlots in
            w\<lparr>nodes := (nodes w)(tid \<mapsto> n'), l1 := (l1 w)(slot := l1 w slot @ [tid])\<rparr>)))"

definition add :: "'c TimerWheel \<Rightarrow> nat \<Rightarrow> 'c \<Rightarrow> nat \<times> 'c TimerWheel" where
  "add w delayMs c =
     (let ticks0 = u64 (delayMs + kTickMs - 1) div kTickMs;
          ticks = (if ticks0 = 0 then 1 else ticks0);
          tid = nextId w;
          node = \<lparr>expiryTick = nowTick w + ticks, callback = c, canceled = False\<rparr>;
          w' = w\<lparr>nextId := tid + 1, nodes := (nodes w)(tid \<mapsto> node), alive := insert tid (alive w)\<rparr>
      in (tid, place w' tid))"

definition cancel :: "'c TimerWheel \<Rightarrow> nat \<Rightarrow> 'c TimerWheel" where
  "cancel w tid =
     (if tid \<notin> alive w then w
      else w\<lparr>nodes := (nodes w)(tid := map_option (\<lambda>n. n\<lparr>canceled := True\<rparr>) (nodes w tid)),
             alive := alive w - {tid}\<rparr>)"

definition is_canceled :: "'c TimerWheel \<Rightarrow> nat \<Rightarrow> bool" where
  "is_canceled w tid = (case nodes w tid of None \<Rightarrow> True | Some n \<Rightarrow> canceled n)"

text \<open>
  The loop of \<open>fireSlot\<close> over the nodes taken out of the slot. A timer that an earlier
  callback of the same slot cancels is skipped when its turn comes.
\<close>

fun fire_pending ::
  "('c \<Rightarrow> 'c TimerWheel \<times> 'e \<Rightarrow> 'c TimerWheel \<times> 'e) \<Rightarrow> nat list \<Rightarrow> 'c TimerWheel \<times> 'e
     \<Rightarrow> nat list \<times> 'c TimerWheel \<times> 'e" where
  "fire_pending run [] s = ([], s)"
| "fire_pending run (tid # ids) (w, e) =
     (case nodes w tid of
        None \<Rightarrow> fire_pending run ids (w, e)
      | Some n \<Rightarrow>
          if canceled n then fire_pending run ids (w, e)
          else (case fire_pending run ids (run (callback n) (w\<lparr>alive := alive w - {tid}\<rparr>, e)) of
                  (fired, s) \<Rightarrow> (tid # fired, s)))"

definition fireSlot ::
  "('c \<Rightarrow> 'c TimerWheel \<times> 'e \<Rightarrow> 'c TimerWheel \<times> 'e) \<Rightarrow> nat \<Rightarrow> 'c TimerWheel \<times> 'e
     \<Rightarrow> nat list \<times> 'c TimerWheel \<times> 'e" where
  "fireSlot run slot s = (case s of (w, e) \<Rightarrow>
     fire_pending run (l0 w slot) (w\<lparr>l0 := (l0 w)(slot := [])\<rparr>, e))"

definition cascade :: "'c TimerWheel \<Rightarrow> 'c TimerWheel" where
  "cascade w =
     (let slot = nowTick w div kSlots mod kSlots in
      foldl (\<lambda>w' tid. if is_canceled w' tid then w' else place w' tid)
        (w\<lparr>l1 := (l1 w)(slot := [])\<rparr>) (l1 w slot))"

text \<open>One iteration of the loop of \<open>advance\<close>.\<close>

definition tick ::
  "('c \<Rightarrow> 'c TimerWheel \<times> 'e \<Rightarrow> 'c TimerWheel \<times> 'e) \<Rightarrow> 'c TimerWheel \<times> 'e
     \<Rightarrow> nat list \<times> 'c TimerWheel \<times> 'e" where
  "tick run s = (case s of (w, e) \<Rightarrow>
     (let w1 = w\<lparr>nowTick := nowTick w + 1\<rparr>;
          w2 = (if nowTick w1 mod kSlots = 0 then cascade w1 else w1) in
      fireSlot run (nowTick w2 mod kSlots) (w2, e)))"

fun tick_loop ::
  "('c \<Rightarrow> 'c TimerWheel \<times> 'e \<Rightarrow> 'c TimerWheel \<times> 'e) \<Rightarrow> nat \<Rightarrow> 'c TimerWheel \<times> 'e
     \<Rightarrow> (nat \<times> nat) list \<times> 'c TimerWheel \<times> 'e" where
  "tick_loop run 0 s = ([], s)"
| "tick_loop run (Suc k) s =
     (let t = nowTick (fst s) + 1 in
      case tick run s of (ids, s') \<Rightarrow>
        (case tick_loop run k s' of (fired, s'') \<Rightarrow> (map (Pair t) ids @ fired, s'')))"

definition advance ::
  "('c \<Rightarrow> 'c TimerWheel \<times> 'e \<Rightarrow> 'c TimerWheel \<times> 'e) \<Rightarrow> nat \<Rightarrow> 'c TimerWheel \<times> 'e
     \<Rightarrow> (nat \<times> nat) list \<times> 'c TimerWheel \<times> 'e" where
  "advance run elapsedMs s = (case s of (w, e) \<Rightarrow>
     (let r = u64 (remainderMs w + elapsedMs) in
      tick_loop run (r div kTickMs) (w\<lparr>remainderMs := r mod kTickMs\<rparr>, e)))"

subsection \<open>The abstract timer service\<close>

text \<open>The tick at which a timer that is still scheduled is due.\<close>

definition due :: "'c TimerWheel \<Rightarrow> nat \<Rightarrow> nat option" where
  "due w tid = map_option expiryTick (nodes w tid)"

definition deadline :: "'c TimerWheel \<Rightarrow> nat \<Rightarrow> nat option" where
  "deadline w tid = (if tid \<in> alive w then due w tid else None)"

text \<open>
  The representation invariant, relative to a list \<open>P\<close> of ids that are out of every slot
  (the nodes being cascaded or fired) and a bound \<open>lo\<close>: between ticks every L0 entry is
  due within the next 63 ticks (\<open>lo = 1\<close>); inside a tick the current slot may still hold
  what is due now (\<open>lo = 0\<close>).
\<close>

definition l0_ok :: "nat \<Rightarrow> 'c TimerWheel \<Rightarrow> bool" where
  "l0_ok lo w \<longleftrightarrow> (\<forall>i. \<forall>tid \<in> set (l0 w i). \<exists>t. due w tid = Some t \<and> i = t mod kSlots
     \<and> nowTick w + lo \<le> t \<and> t < nowTick w + kSlots)"

definition l1_ok :: "'c TimerWheel \<Rightarrow> bool" where
  "l1_ok w \<longleftrightarrow> (\<forall>i. \<forall>tid \<in> set (l1 w i). \<exists>t. due w tid = Some t \<and> i = t div kSlots mod kSlots
     \<and> nowTick w div kSlots < t div kSlots \<and> t div kSlots \<le> nowTick w div kSlots + kSlots)"

definition pend_ok :: "nat list \<Rightarrow> 'c TimerWheel \<Rightarrow> bool" where
  "pend_ok P w \<longleftrightarrow> (\<forall>tid \<in> set P. \<exists>t. due w tid = Some t \<and> nowTick w \<le> t)"

definition all_ids :: "(nat \<Rightarrow> nat list) \<Rightarrow> nat set" where
  "all_ids f = (\<Union>i. set (f i))"

definition listed :: "nat list \<Rightarrow> 'c TimerWheel \<Rightarrow> nat set" where
  "listed P w = set P \<union> all_ids (l0 w) \<union> all_ids (l1 w)"

definition once_ok :: "nat list \<Rightarrow> 'c TimerWheel \<Rightarrow> bool" where
  "once_ok P w \<longleftrightarrow> distinct P \<and> (\<forall>i. distinct (l0 w i)) \<and> (\<forall>i. distinct (l1 w i))
     \<and> (\<forall>i j. set (l0 w i) \<inter> set (l1 w j) = {})
     \<and> (\<forall>i. set P \<inter> set (l0 w i) = {} \<and> set P \<inter> set (l1 w i) = {})"

definition books_ok :: "nat list \<Rightarrow> 'c TimerWheel \<Rightarrow> bool" where
  "books_ok P w \<longleftrightarrow> dom (nodes w) \<subseteq> {0<..<nextId w} \<and> 0 < nextId w
     \<and> alive w = {tid \<in> listed P w. \<not> is_canceled w tid}"

definition wheel_inv :: "nat \<Rightarrow> nat list \<Rightarrow> 'c TimerWheel \<Rightarrow> bool" where
  "wheel_inv lo P w \<longleftrightarrow> l0_ok lo w \<and> l1_ok w \<and> pend_ok P w \<and> once_ok P w \<and> books_ok P w"

lemmas wheel_parts = l0_ok_def l1_ok_def pend_ok_def once_ok_def books_ok_def listed_def


subsection \<open>Placing, adding and cancelling\<close>

lemma kSlots_pos [simp]: "0 < kSlots"
  by (simp add: kSlots_def)

lemma wheel_invI:
  "l0_ok lo w \<Longrightarrow> l1_ok w \<Longrightarrow> pend_ok P w \<Longrightarrow> once_ok P w \<Longrightarrow> books_ok P w \<Longrightarrow> wheel_inv lo P w"
  by (simp add: wheel_inv_def)

lemma wheel_invD:
  assumes "wheel_inv lo P w"
  shows "l0_ok lo w" and "l1_ok w" and "pend_ok P w" and "once_ok P w" and "books_ok P w"
  using assms by (simp_all add: wheel_inv_def)

lemma l0_okD: "l0_ok lo w \<Longrightarrow> tid \<in> set (l0 w i) \<Longrightarrow>
    \<exists>t. due w tid = Some t \<and> i = t mod kSlots \<and> nowTick w + lo \<le> t \<and> t < nowTick w + kSlots"
  unfolding l0_ok_def by blast

lemma l1_okD: "l1_ok w \<Longrightarrow> tid \<in> set (l1 w i) \<Longrightarrow>
    \<exists>t. due w tid = Some t \<and> i = t div kSlots mod kSlots
      \<and> nowTick w div kSlots < t div kSlots \<and> t div kSlots \<le> nowTick w div kSlots + kSlots"
  unfolding l1_ok_def by blast

text \<open>The bookkeeping only depends on which ids are listed and which are cancelled.\<close>

lemma books_ok_cong:
  assumes "books_ok P w" and "listed Q w' = listed P w" and "is_canceled w' = is_canceled w"
    and "alive w' = alive w" and "nextId w' = nextId w" and "dom (nodes w') = dom (nodes w)"
  shows "books_ok Q w'"
  using assms by (simp add: books_ok_def)

lemma all_ids_snoc [simp]: "all_ids (f(i := f i @ [x])) = insert x (all_ids f)"
  by (auto simp: all_ids_def split: if_splits)

lemma all_ids_empty [simp]: "all_ids (\<lambda>_. []) = {}"
  by (simp add: all_ids_def)

text \<open>The two cases of \<open>place\<close> for a node that is not overdue.\<close>

lemma place_l0:
  assumes "nodes w tid = Some n" and "expiryTick n < nowTick w + kSlots"
  shows "place w tid = w\<lparr>l0 := (l0 w)(expiryTick n mod kSlots := l0 w (expiryTick n mod kSlots) @ [tid])\<rparr>"
proof -
  have "expiryTick n - nowTick w < kSlots"
    using assms(2) kSlots_pos by linarith
  with assms show ?thesis
    by (simp add: place_def Let_def)
qed

lemma place_l1:
  assumes "nodes w tid = Some n" and "nowTick w + kSlots \<le> expiryTick n"
  defines "t \<equiv> min (expiryTick n) (nowTick w + kSlots * kSlots - 1)"
  shows "place w tid = w\<lparr>nodes := (nodes w)(tid \<mapsto> n\<lparr>expiryTick := t\<rparr>),
    l1 := (l1 w)(t div kSlots mod kSlots := l1 w (t div kSlots mod kSlots) @ [tid])\<rparr>"
proof (cases "expiryTick n - nowTick w \<ge> kSlots * kSlots")
  case True
  then have "t = nowTick w + kSlots * kSlots - 1"
    unfolding t_def by (simp add: kSlots_def)
  with True assms show ?thesis
    by (simp add: place_def Let_def kSlots_def)
next
  case False
  then have "t = expiryTick n"
    using assms(2) by (simp add: t_def)
  with False assms show ?thesis
    by (simp add: place_def Let_def)
qed

lemma l1_window:
  assumes "now + kSlots \<le> t" and "t < now + kSlots * kSlots"
  shows "now div kSlots < t div kSlots \<and> t div kSlots \<le> now div kSlots + kSlots"
proof
  have "(now + kSlots) div kSlots \<le> t div kSlots"
    using assms(1) by (rule div_le_mono)
  then show "now div kSlots < t div kSlots"
    by (simp add: kSlots_def)
  have "t div kSlots \<le> (now + kSlots * kSlots) div kSlots"
    using assms(2) by (intro div_le_mono) simp
  then show "t div kSlots \<le> now div kSlots + kSlots"
    by (simp add: kSlots_def)
qed

lemma due_node: "nodes w tid = Some n \<Longrightarrow> due w tid = Some (expiryTick n)"
  by (simp add: due_def)

lemma place_wheel_inv:
  assumes "wheel_inv lo (tid # P) w" and "nodes w tid = Some n" and "nowTick w + lo \<le> expiryTick n"
  shows "wheel_inv lo P (place w tid)"
proof (cases "expiryTick n < nowTick w + kSlots")
  case True
  let ?w = "w\<lparr>l0 := (l0 w)(expiryTick n mod kSlots := l0 w (expiryTick n mod kSlots) @ [tid])\<rparr>"
  note inv = wheel_invD [OF assms(1)]
  have due: "due ?w = due w"
    by (simp add: due_def fun_eq_iff)
  have "wheel_inv lo P ?w"
  proof (rule wheel_invI)
    show "l0_ok lo ?w"
      using inv(1) assms(3) True due_node [OF assms(2)] by (simp add: l0_ok_def due)
    show "l1_ok ?w" and "pend_ok P ?w"
      using inv(2,3) by (simp_all add: l1_ok_def pend_ok_def due)
    show "once_ok P ?w"
      using inv(4) by (auto simp add: once_ok_def)
    show "books_ok P ?w"
      by (rule books_ok_cong [OF inv(5)]) (auto simp: listed_def is_canceled_def fun_eq_iff)
  qed
  with place_l0 [OF assms(2) True] show ?thesis by simp
next
  case False
  define t where "t = min (expiryTick n) (nowTick w + kSlots * kSlots - 1)"
  let ?w = "w\<lparr>nodes := (nodes w)(tid \<mapsto> n\<lparr>expiryTick := t\<rparr>),
    l1 := (l1 w)(t div kSlots mod kSlots := l1 w (t div kSlots mod kSlots) @ [tid])\<rparr>"
  note inv = wheel_invD [OF assms(1)]
  have "nowTick w + kSlots \<le> t" "t < nowTick w + kSlots * kSlots"
    using False by (auto simp: t_def kSlots_def)
  then have win: "nowTick w div kSlots < t div kSlots" "t div kSlots \<le> nowTick w div kSlots + kSlots"
    using l1_window by blast+
  have out: "\<forall>i. tid \<notin> set (l0 w i)" "\<forall>i. tid \<notin> set (l1 w i)" "tid \<notin> set P"
    using inv(4) by (auto simp: once_ok_def)
  have due: "due ?w = (due w)(tid \<mapsto> t)"
    by (simp add: due_def fun_eq_iff)
  have "wheel_inv lo P ?w"
  proof (rule wheel_invI)
    show "l0_ok lo ?w"
      using inv(1) out(1) by (auto simp: l0_ok_def due)
    show "l1_ok ?w"
      using inv(2) out(2) win by (auto simp: l1_ok_def due)
    show "pend_ok P ?w"
      using inv(3) out(3) by (auto simp: pend_ok_def due)
    show "once_ok P ?w"
      using inv(4) by (auto simp add: once_ok_def)
    show "books_ok P ?w"
      by (rule books_ok_cong [OF inv(5)])
        (use assms(2) in \<open>auto simp: listed_def is_canceled_def fun_eq_iff\<close>)
  qed
  moreover have "place w tid = ?w"
    using False place_l1 [OF assms(2)] by (simp add: t_def)
  ultimately show ?thesis by simp
qed

lemma place_frame [simp]:
  "nowTick (place w tid) = nowTick w" "remainderMs (place w tid) = remainderMs w"
  "nextId (place w tid) = nextId w" "alive (place w tid) = alive w"
  by (auto simp: place_def Let_def split: option.splits)

lemma place_canceled [simp]: "is_canceled (place w tid) = is_canceled w"
  by (auto simp: place_def Let_def is_canceled_def fun_eq_iff split: option.splits)

lemma due_place:
  assumes "due w tid = Some t"
  shows "due (place w tid) = (due w)(tid \<mapsto>
    (if t < nowTick w + kSlots * kSlots then t else nowTick w + kSlots * kSlots - 1))"
proof -
  obtain n where n: "nodes w tid = Some n" and t: "t = expiryTick n"
    using assms by (auto simp: due_def)
  show ?thesis
  proof (cases "t < nowTick w + kSlots")
    case True
    then have "t < nowTick w + kSlots * kSlots" by (simp add: kSlots_def)
    with True n t assms show ?thesis
      by (auto simp: place_l0 due_def fun_eq_iff)
  next
    case False
    with n t place_l1 [OF n] show ?thesis
      by (auto simp: due_def fun_eq_iff min_def kSlots_def)
  qed
qed

text \<open>Ticks until a timer of the given delay is due: rounded up, at least one.\<close>

definition delay_ticks :: "nat \<Rightarrow> nat" where
  "delay_ticks delayMs = max 1 ((delayMs + 99) div 100)"

lemma add_expand:
  assumes "delayMs + 99 < 2 ^ 64"
  shows "add w delayMs c = (nextId w, place (w\<lparr>nextId := Suc (nextId w),
     nodes := (nodes w)(nextId w \<mapsto> \<lparr>expiryTick = nowTick w + delay_ticks delayMs, callback = c,
       canceled = False\<rparr>),
     alive := insert (nextId w) (alive w)\<rparr>) (nextId w))"
proof -
  have "u64 (delayMs + kTickMs - 1) = delayMs + 99"
    using assms(1) by (simp add: kTickMs_def u64_def)
  then have "(let k = u64 (delayMs + kTickMs - 1) div kTickMs in if k = 0 then 1 else k)
      = delay_ticks delayMs"
    by (simp add: delay_ticks_def kTickMs_def Let_def)
  then show ?thesis
    by (simp add: add_def Let_def)
qed

text \<open>A new node is listed nowhere yet.\<close>

lemma listed_known:
  assumes "wheel_inv lo P w" and "tid \<in> listed P w"
  shows "tid \<in> dom (due w)"
  using assms by (force simp: wheel_inv_def listed_def all_ids_def l0_ok_def l1_ok_def pend_ok_def)

lemma listed_less:
  assumes "wheel_inv lo P w" and "tid \<in> listed P w"
  shows "tid < nextId w"
proof -
  have "tid \<in> dom (nodes w)"
    using listed_known [OF assms] by (auto simp: due_def)
  then show ?thesis
    using wheel_invD(5) [OF assms(1)] by (auto simp: books_ok_def)
qed

lemma fresh_not_listed: "wheel_inv lo P w \<Longrightarrow> nextId w \<notin> listed P w"
  using listed_less by blast

lemma new_node_wheel_inv:
  assumes "wheel_inv lo P w" and "nowTick w \<le> expiryTick n" and "\<not> canceled n"
  shows "wheel_inv lo (nextId w # P) (w\<lparr>nextId := Suc (nextId w),
     nodes := (nodes w)(nextId w \<mapsto> n), alive := insert (nextId w) (alive w)\<rparr>)" (is "wheel_inv _ _ ?w")
proof (rule wheel_invI)
  note inv = wheel_invD [OF assms(1)]
  have fresh: "nextId w \<notin> set P" "\<forall>i. nextId w \<notin> set (l0 w i)" "\<forall>i. nextId w \<notin> set (l1 w i)"
    using fresh_not_listed [OF assms(1)] by (auto simp: listed_def all_ids_def)
  have due: "due ?w = (due w)(nextId w \<mapsto> expiryTick n)"
    by (simp add: due_def fun_eq_iff)
  show "l0_ok lo ?w"
    using inv(1) fresh(2) by (auto simp: l0_ok_def due)
  show "l1_ok ?w"
    using inv(2) fresh(3) by (auto simp: l1_ok_def due)
  show "pend_ok (nextId w # P) ?w"
    using inv(3) fresh(1) assms(2) by (auto simp: pend_ok_def due)
  show "once_ok (nextId w # P) ?w"
    using inv(4) fresh by (auto simp: once_ok_def)
  have "is_canceled ?w tid = (if tid = nextId w then False else is_canceled w tid)" for tid
    using assms(3) by (simp add: is_canceled_def)
  then show "books_ok (nextId w # P) ?w"
    using inv(5) by (auto simp: books_ok_def listed_def)
qed

lemma add_wheel_inv:
  assumes "wheel_inv lo P w" and "delayMs + 99 < 2 ^ 64" and "lo \<le> 1"
  shows "wheel_inv lo P (snd (add w delayMs c))"
proof -
  let ?n = "\<lparr>expiryTick = nowTick w + delay_ticks delayMs, callback = c, canceled = False\<rparr>"
  have "1 \<le> delay_ticks delayMs"
    by (simp add: delay_ticks_def)
  with assms(3) have "nowTick w + lo \<le> nowTick w + delay_ticks delayMs"
    by simp
  then show ?thesis
    using place_wheel_inv [OF new_node_wheel_inv [OF assms(1), of ?n], of ?n]
    by (simp add: add_expand [OF assms(2)])
qed

lemma cancel_wheel_inv:
  assumes "wheel_inv lo P w"
  shows "wheel_inv lo P (cancel w tid)"
proof (cases "tid \<in> alive w")
  case True
  note inv = wheel_invD [OF assms]
  have same: "due (cancel w tid) = due w" "l0 (cancel w tid) = l0 w" "l1 (cancel w tid) = l1 w"
      "nowTick (cancel w tid) = nowTick w"
    by (auto simp: cancel_def due_def fun_eq_iff option.map_comp o_def)
  have flag: "is_canceled (cancel w tid) x = (x = tid \<or> is_canceled w x)" for x
    using True by (auto simp: cancel_def is_canceled_def split: option.splits)
  show ?thesis
  proof (rule wheel_invI)
    show "l0_ok lo (cancel w tid)" "l1_ok (cancel w tid)" "pend_ok P (cancel w tid)"
        "once_ok P (cancel w tid)"
      using inv(1-4) by (simp_all add: l0_ok_def l1_ok_def pend_ok_def once_ok_def same)
    have "dom (nodes (cancel w tid)) = dom (nodes w)" "nextId (cancel w tid) = nextId w"
        "alive (cancel w tid) = alive w - {tid}"
      using True by (auto simp: cancel_def dom_def)
    then show "books_ok P (cancel w tid)"
      using inv(5) by (auto simp: books_ok_def listed_def same flag)
  qed
next
  case False
  with assms show ?thesis by (simp add: cancel_def)
qed

lemma wheel_inv_new: "wheel_inv 1 [] newTimerWheel"
  by (simp add: wheel_inv_def wheel_parts newTimerWheel_def)

subsection \<open>What callbacks may do to the wheel\<close>

text \<open>A callback uses the wheel through its public operations only.\<close>

inductive wheel_user :: "'c TimerWheel \<Rightarrow> 'c TimerWheel \<Rightarrow> bool" where
  user_refl: "wheel_user w w"
| user_add: "wheel_user w w' \<Longrightarrow> d + 99 < 2 ^ 64 \<Longrightarrow> wheel_user w (snd (add w' d c))"
| user_cancel: "wheel_user w w' \<Longrightarrow> wheel_user w (cancel w' tid)"

text \<open>
  How scheduled timers can change while the clock stands still, apart from the set
  \<open>S\<close> of timers being fired: nothing happens to them but cancellation.
\<close>

definition undisturbed :: "nat set \<Rightarrow> 'c TimerWheel \<Rightarrow> 'c TimerWheel \<Rightarrow> bool" where
  "undisturbed S w w' \<longleftrightarrow> nowTick w' = nowTick w \<and> remainderMs w' = remainderMs w
     \<and> nextId w \<le> nextId w'
     \<and> (\<forall>tid < nextId w. is_canceled w tid \<longrightarrow> is_canceled w' tid)
     \<and> (\<forall>tid < nextId w. tid \<notin> S \<longrightarrow>
          deadline w' tid = (if is_canceled w' tid then None else deadline w tid))"

lemma undisturbed_trans:
  assumes "undisturbed S w w'" and "undisturbed T w' w''"
  shows "undisturbed (S \<union> T) w w''"
  using assms unfolding undisturbed_def by (auto split: if_splits)

lemma undisturbed_refl:
  assumes "wheel_inv lo P w"
  shows "undisturbed S w w"
  using assms by (auto simp: undisturbed_def deadline_def wheel_inv_def books_ok_def)

lemma deadline_add:
  assumes "wheel_inv lo P w" and "d + 99 < 2 ^ 64" and "tid < nextId w"
  shows "deadline (snd (add w d c)) tid = deadline w tid
    \<and> is_canceled (snd (add w d c)) tid = is_canceled w tid"
proof -
  let ?n = "\<lparr>expiryTick = nowTick w + delay_ticks d, callback = c, canceled = False\<rparr>"
  let ?w = "w\<lparr>nextId := Suc (nextId w), nodes := (nodes w)(nextId w \<mapsto> ?n),
    alive := insert (nextId w) (alive w)\<rparr>"
  have "due ?w (nextId w) = Some (nowTick w + delay_ticks d)"
    by (simp add: due_def)
  from due_place [OF this] assms(3) show ?thesis
    by (auto simp: add_expand [OF assms(2)] deadline_def due_def is_canceled_def [of ?w] is_canceled_def [of w])
qed

lemma add_undisturbed:
  assumes "wheel_inv lo P w" and "d + 99 < 2 ^ 64"
  shows "undisturbed {} w (snd (add w d c))"
proof -
  have "deadline w tid = None" if "is_canceled w tid" for tid
    using that assms(1) by (auto simp: deadline_def wheel_inv_def books_ok_def)
  then show ?thesis
    using deadline_add [OF assms, of _ c]
    by (auto simp: undisturbed_def add_expand [OF assms(2)])
qed

lemma cancel_undisturbed:
  assumes "wheel_inv lo P w"
  shows "undisturbed {} w (cancel w tid)"
proof (cases "tid \<in> alive w")
  case True
  have "deadline w x = None" if "is_canceled w x" for x
    using that assms by (auto simp: deadline_def wheel_inv_def books_ok_def)
  moreover have "is_canceled (cancel w tid) x = (x = tid \<or> is_canceled w x)" for x
    using True by (auto simp: cancel_def is_canceled_def split: option.splits)
  moreover have "deadline (cancel w tid) x = (if x = tid then None else deadline w x)" for x
    using True by (auto simp: cancel_def deadline_def due_def)
  ultimately show ?thesis
    using True by (auto simp: undisturbed_def cancel_def)
next
  case False
  with undisturbed_refl [OF assms] show ?thesis by (simp add: cancel_def)
qed

lemma wheel_user_preserves:
  assumes "wheel_user w w'" and "wheel_inv lo P w" and "lo \<le> 1"
  shows "wheel_inv lo P w' \<and> undisturbed {} w w'"
  using assms
proof (induction rule: wheel_user.induct)
  case (user_refl w)
  then show ?case by (simp add: undisturbed_refl)
next
  case (user_add w w' d c)
  then show ?case
    using add_undisturbed [of lo P w' d c] undisturbed_trans [of "{}" w w' "{}"]
    by (simp add: add_wheel_inv)
next
  case (user_cancel w w' tid)
  then show ?case
    using cancel_undisturbed [of lo P w' tid] undisturbed_trans [of "{}" w w' "{}"]
    by (simp add: cancel_wheel_inv)
qed

text \<open>Taking the head of the pending list: skipped when cancelled, else no longer alive.\<close>

lemma drop_canceled:
  assumes "wheel_inv lo (tid # P) w" and "is_canceled w tid"
  shows "wheel_inv lo P w"
  using assms by (auto simp: wheel_inv_def pend_ok_def once_ok_def books_ok_def listed_def)

lemma take_alive:
  assumes "wheel_inv lo (tid # P) w"
  defines "w' \<equiv> w\<lparr>alive := alive w - {tid}\<rparr>"
  shows "wheel_inv lo P w'" and "undisturbed {tid} w w'"
proof -
  note inv = wheel_invD [OF assms(1)]
  have same: "due w' = due w" "is_canceled w' = is_canceled w" "l0 w' = l0 w" "l1 w' = l1 w"
      "nowTick w' = nowTick w" "nodes w' = nodes w" "nextId w' = nextId w"
    by (auto simp: w'_def due_def is_canceled_def fun_eq_iff)
  have "tid \<notin> set P" "tid \<notin> all_ids (l0 w)" "tid \<notin> all_ids (l1 w)"
    using inv(4) by (auto simp: once_ok_def all_ids_def)
  then have "books_ok P w'"
    using inv(5) by (auto simp: books_ok_def listed_def same) (auto simp: w'_def)
  moreover have "l0_ok lo w'" "l1_ok w'" "pend_ok P w'" "once_ok P w'"
    using inv(1-4) by (simp_all add: l0_ok_def l1_ok_def pend_ok_def once_ok_def same)
  ultimately show "wheel_inv lo P w'"
    by (simp add: wheel_inv_def)
  have "x \<notin> alive w" if "is_canceled w x" for x
    using that inv(5) by (auto simp: books_ok_def)
  then show "undisturbed {tid} w w'"
    by (auto simp: undisturbed_def same deadline_def) (auto simp: w'_def)
qed

subsection \<open>One tick\<close>

text \<open>Two values of a window of \<open>m\<close> consecutive numbers that agree modulo \<open>m\<close> are equal.\<close>

lemma mod_window_eq:
  fixes a t m :: nat
  assumes "a \<le> t" and "t < a + m" and "t mod m = a mod m"
  shows "t = a"
proof -
  from assms(1,3) have "m dvd t - a"
    by (simp add: mod_eq_dvd_iff_nat)
  with assms(1,2) show ?thesis
    by (auto dest: dvd_imp_le)
qed

lemma alive_deadline: "wheel_inv lo P w \<Longrightarrow> tid \<in> alive w \<longleftrightarrow> deadline w tid \<noteq> None"
  using listed_known [of lo P w tid] by (auto simp: deadline_def wheel_inv_def books_ok_def)

text \<open>The timers \<open>P\<close> of a slot have been dealt with between \<open>w\<close> and \<open>w'\<close>: those of \<open>fired\<close> have run, the others were
  canceled, and none is left alive.\<close>

definition slot_done :: "nat list \<Rightarrow> 'c TimerWheel \<Rightarrow> nat list \<Rightarrow> 'c TimerWheel \<Rightarrow> bool" where
  "slot_done P w fired w' \<longleftrightarrow> wheel_inv 1 [] w' \<and> undisturbed (set P) w w' \<and> distinct fired
    \<and> set fired \<subseteq> set P \<inter> alive w
    \<and> (\<forall>tid \<in> set P \<inter> alive w. tid \<in> set fired \<or> is_canceled w' tid)
    \<and> (\<forall>tid \<in> set P. tid \<notin> alive w')"

lemma pending_facts:
  assumes "wheel_inv 1 P w" "x \<in> set P"
  shows "x < nextId w" "x \<in> alive w \<longleftrightarrow> \<not> is_canceled w x"
  using listed_less [OF assms(1), of x] wheel_invD(5) [OF assms(1)] assms(2) by (auto simp: books_ok_def listed_def)

lemma slot_skip:
  assumes inv: "wheel_inv 1 (tid # P) w" and "is_canceled w tid" and rest: "slot_done P w fired w'"
  shows "slot_done (tid # P) w fired w'"
proof -
  have "is_canceled w' tid"
    using assms pending_facts(1) [OF inv, of tid] by (simp add: slot_done_def undisturbed_def)
  then have "tid \<notin> alive w'"
    using wheel_invD(5) [of 1 "[]" w'] rest by (auto simp: slot_done_def books_ok_def)
  then show ?thesis
    using assms(2) rest pending_facts(2) [OF inv, of tid] by (auto simp: slot_done_def undisturbed_def)
qed

lemma slot_fire:
  assumes inv: "wheel_inv 1 (tid # P) w" and "\<not> is_canceled w tid"
    and w1: "wheel_inv 1 P w1" "undisturbed {} (w\<lparr>alive := alive w - {tid}\<rparr>) w1" and rest: "slot_done P w1 fired w'"
  shows "slot_done (tid # P) w (tid # fired) w'"
proof -
  note tid = pending_facts [OF inv] and al1 = pending_facts(2) [OF w1(1)] and rest = rest [unfolded slot_done_def]
  have new: "tid \<notin> set P"
    using wheel_invD(4) [OF inv] by (auto simp: once_ok_def)
  have u: "undisturbed {tid} w w1"
    using undisturbed_trans [OF take_alive(2) [OF inv] w1(2)] by simp
  then have nx: "nextId w \<le> nextId w1"
    by (simp add: undisturbed_def)
  have "deadline w1 tid = None"
    using w1(2) tid(1) by (auto simp: undisturbed_def deadline_def split: if_splits)
  then have "deadline w' tid = None"
    using rest nx tid(1) [of tid] new by (auto simp: undisturbed_def)
  then have gone: "tid \<notin> alive w'"
    using rest alive_deadline [of 1 "[]" w' tid] by simp
  have mono: "is_canceled w x \<Longrightarrow> is_canceled w1 x" "is_canceled w1 x \<Longrightarrow> is_canceled w' x" if "x \<in> set P" for x
    using u rest that tid(1) [of x] nx by (auto simp: undisturbed_def)
  have "undisturbed (set (tid # P)) w w'"
    using undisturbed_trans [OF u, of "set P" w'] rest by simp
  moreover have "x \<in> alive w" if "x \<in> set fired" for x
    using rest that tid(2) [of x] al1 [of x] mono(1) [of x] by auto
  then have "distinct (tid # fired)" "set (tid # fired) \<subseteq> set (tid # P) \<inter> alive w"
    using rest new tid(2) [of tid] assms(2) by auto
  moreover have "x \<in> set fired \<or> is_canceled w' x" if "x \<in> set P" for x
    using rest that al1 [of x] mono(2) [of x] by auto
  ultimately show ?thesis
    using rest gone by (auto simp: slot_done_def)
qed

locale timer_callbacks =
  fixes run :: "'c \<Rightarrow> 'c TimerWheel \<times> 'e \<Rightarrow> 'c TimerWheel \<times> 'e"
  assumes run_user: "wheel_user w (fst (run c (w, e)))"
begin

lemma run_preserves:
  assumes "wheel_inv 1 P w" and "run c (w, e) = (w', e')"
  shows "wheel_inv 1 P w' \<and> undisturbed {} w w'"
  using wheel_user_preserves [OF run_user [of w c e] assms(1)] assms(2) by simp

lemma fire_pending_done:
  assumes "wheel_inv 1 P w" and "fire_pending run P (w, e) = (fired, w', e')"
  shows "slot_done P w fired w'"
  using assms
proof (induction P arbitrary: w e fired)
  case Nil
  then show ?case by (auto simp: slot_done_def undisturbed_refl)
next
  case (Cons tid P)
  show ?case
  proof (cases "is_canceled w tid")
    case True
    then have "fire_pending run P (w, e) = (fired, w', e')"
      using Cons.prems(2) by (auto simp: is_canceled_def split: option.splits)
    from slot_skip [OF Cons.prems(1) True Cons.IH [OF drop_canceled [OF Cons.prems(1) True] this]] show ?thesis .
  next
    case False
    then obtain n where n: "nodes w tid = Some n" "\<not> canceled n"
      by (auto simp: is_canceled_def split: option.splits)
    let ?w = "w\<lparr>alive := alive w - {tid}\<rparr>"
    obtain w1 e1 where r: "run (callback n) (?w, e) = (w1, e1)"
      by fastforce
    obtain fired' where f: "fire_pending run P (w1, e1) = (fired', w', e')" "fired = tid # fired'"
      using Cons.prems(2) n r by (auto split: prod.splits)
    have w1: "wheel_inv 1 P w1" "undisturbed {} ?w w1"
      using run_preserves [OF take_alive(1) [OF Cons.prems(1)] r] by simp_all
    from slot_fire [OF Cons.prems(1) False w1 Cons.IH [OF w1(1) f(1)]] show ?thesis
      unfolding f(2) .
  qed
qed

lemmas fire_pending_spec = fire_pending_done [unfolded slot_done_def]

end

text \<open>What \<open>fireSlot\<close> does to the timers of a slot, in the locale's terms.\<close>

lemma unlink_slot:
  assumes "wheel_inv 0 [] w"
  defines "s \<equiv> nowTick w mod kSlots"
  shows "wheel_inv 1 (l0 w s) (w\<lparr>l0 := (l0 w)(s := [])\<rparr>)"
    and "\<forall>tid. tid \<in> set (l0 w s) \<longleftrightarrow> tid \<in> all_ids (l0 w) \<and> due w tid = Some (nowTick w)"
proof -
  note inv = wheel_invD [OF assms(1)]
  let ?w = "w\<lparr>l0 := (l0 w)(s := [])\<rparr>"
  have due: "due ?w = due w" "is_canceled ?w = is_canceled w"
    by (auto simp: due_def is_canceled_def fun_eq_iff)
  have now: "t = nowTick w" if "nowTick w \<le> t" "t < nowTick w + kSlots" "t mod kSlots = s" for t
    using that mod_window_eq [of "nowTick w" t kSlots] by (simp add: s_def)
  have slot: "due w tid = Some (nowTick w)" if "tid \<in> set (l0 w s)" for tid
    using l0_okD [OF inv(1) that] now by auto
  moreover have "tid \<in> set (l0 w s)" if "tid \<in> all_ids (l0 w)" "due w tid = Some (nowTick w)" for tid
    using inv(1) that by (force simp: l0_ok_def all_ids_def s_def)
  ultimately show "\<forall>tid. tid \<in> set (l0 w s) \<longleftrightarrow> tid \<in> all_ids (l0 w) \<and> due w tid = Some (nowTick w)"
    by (auto simp: all_ids_def)
  have "l0_ok 1 ?w"
    unfolding l0_ok_def due
  proof (intro allI ballI)
    fix i tid
    assume "tid \<in> set (l0 ?w i)"
    then have i: "i \<noteq> s" "tid \<in> set (l0 w i)"
      by (auto split: if_splits)
    then obtain t where t: "due w tid = Some t" "i = t mod kSlots" "nowTick w \<le> t"
        "t < nowTick w + kSlots"
      using l0_okD [OF inv(1) i(2)] by auto
    then have "t \<noteq> nowTick w"
      using i(1) by (auto simp: s_def)
    with t show "\<exists>t. due w tid = Some t \<and> i = t mod kSlots \<and> nowTick ?w + 1 \<le> t
        \<and> t < nowTick ?w + kSlots"
      by auto
  qed
  moreover have "pend_ok (l0 w s) ?w"
    using slot by (simp add: pend_ok_def due)
  moreover have "once_ok (l0 w s) ?w"
  proof -
    have "set (l0 w s) \<inter> set (l0 w i) = {}" if "i \<noteq> s" for i
      using inv(1) that unfolding l0_ok_def by (metis disjoint_iff option.inject)
    with inv(4) show ?thesis by (auto simp: once_ok_def)
  qed
  moreover have "listed (l0 w s) ?w = listed [] w"
    by (auto simp: listed_def all_ids_def split: if_splits)
  then have "books_ok (l0 w s) ?w"
    by (intro books_ok_cong [OF inv(5)]) (simp_all add: due)
  ultimately show "wheel_inv 1 (l0 w s) ?w"
    using inv(2) by (simp add: wheel_inv_def l1_ok_def due)
qed

text \<open>The cascade puts every live node of the current L1 slot back, within L0's range.\<close>

lemma cascade_fold:
  assumes "wheel_inv 0 P w" and "\<forall>tid \<in> set P. \<exists>t. due w tid = Some t \<and> t < nowTick w + kSlots"
  defines "w' \<equiv> foldl (\<lambda>w' tid. if is_canceled w' tid then w' else place w' tid) w P"
  shows "wheel_inv 0 [] w' \<and> nowTick w' = nowTick w \<and> remainderMs w' = remainderMs w
    \<and> nextId w' = nextId w \<and> alive w' = alive w \<and> is_canceled w' = is_canceled w \<and> due w' = due w"
  using assms(1,2) unfolding w'_def
proof (induction P arbitrary: w)
  case Nil
  then show ?case by simp
next
  case (Cons tid P)
  show ?case
  proof (cases "is_canceled w tid")
    case True
    with Cons.IH [OF drop_canceled [OF Cons.prems(1)]] Cons.prems(2) show ?thesis by simp
  next
    case False
    obtain n where n: "nodes w tid = Some n"
      using False by (auto simp: is_canceled_def split: option.splits)
    have t: "due w tid = Some (expiryTick n)" "nowTick w \<le> expiryTick n"
        "expiryTick n < nowTick w + kSlots"
      using n Cons.prems wheel_invD(3) [OF Cons.prems(1)] by (auto simp: due_def pend_ok_def)
    have "due (place w tid) = due w"
      using t by (simp add: place_l0 [OF n] due_def fun_eq_iff)
    moreover have "wheel_inv 0 P (place w tid)"
      using place_wheel_inv [OF Cons.prems(1) n] t by simp
    ultimately show ?thesis
      using False Cons.IH [of "place w tid"] Cons.prems(2) by simp
  qed
qed

text \<open>At a multiple of \<open>kSlots\<close> the second level moves on by one slot.\<close>

lemma slot_boundary:
  assumes "(n + 1) mod kSlots = 0"
  shows "(n + 1) div kSlots = n div kSlots + 1" "n + 1 = kSlots * (n div kSlots + 1)"
proof -
  show 1: "(n + 1) div kSlots = n div kSlots + 1"
    using assms by (simp add: div_Suc)
  show "n + 1 = kSlots * (n div kSlots + 1)"
    using assms mult_div_mod_eq [of kSlots "n + 1"] unfolding 1 by simp
qed

lemma l1_slot_due:
  assumes ok: "l1_ok w" and wrap: "(nowTick w + 1) mod kSlots = 0" and m: "tid \<in> set (l1 w ((nowTick w + 1) div kSlots mod kSlots))"
  shows "\<exists>t. due w tid = Some t \<and> nowTick w + 1 \<le> t \<and> t < nowTick w + 1 + kSlots"
proof -
  let ?q = "nowTick w div kSlots"
  obtain t where t: "due w tid = Some t" "(nowTick w + 1) div kSlots mod kSlots = t div kSlots mod kSlots" "?q < t div kSlots"
      "t div kSlots \<le> ?q + kSlots"
    using l1_okD [OF ok m] by blast
  have "?q + 1 \<le> t div kSlots" and "t div kSlots < ?q + 1 + kSlots"
    using t(3,4) by linarith+
  moreover have "t div kSlots mod kSlots = (?q + 1) mod kSlots"
    using t(2) by (simp only: slot_boundary(1) [OF wrap])
  ultimately have "t div kSlots = ?q + 1"
    by (rule mod_window_eq)
  moreover have "kSlots * (t div kSlots) \<le> t" "t < kSlots * (t div kSlots) + kSlots"
    using mult_div_mod_eq [of kSlots t] mod_less_divisor [OF kSlots_pos, of t] by linarith+
  ultimately show ?thesis
    using t(1) slot_boundary(2) [OF wrap] by auto
qed

lemma l1_others_ok:
  assumes ok: "l1_ok w" and wrap: "(nowTick w + 1) mod kSlots = 0"
    and i: "i \<noteq> (nowTick w + 1) div kSlots mod kSlots" "tid \<in> set (l1 w i)"
  shows "\<exists>t. due w tid = Some t \<and> i = t div kSlots mod kSlots \<and> (nowTick w + 1) div kSlots < t div kSlots
    \<and> t div kSlots \<le> (nowTick w + 1) div kSlots + kSlots"
proof -
  obtain t where t: "due w tid = Some t" "i = t div kSlots mod kSlots" "nowTick w div kSlots < t div kSlots"
      "t div kSlots \<le> nowTick w div kSlots + kSlots"
    using l1_okD [OF ok i(2)] by blast
  have "t div kSlots \<noteq> nowTick w div kSlots + 1"
    using i(1) t(2) unfolding slot_boundary(1) [OF wrap] by metis
  with t show ?thesis
    unfolding slot_boundary(1) [OF wrap] by auto
qed

lemma unlink_l1_slot:
  assumes "wheel_inv 1 [] w" and "(nowTick w + 1) mod kSlots = 0"
  defines "s \<equiv> (nowTick w + 1) div kSlots mod kSlots"
  defines "w' \<equiv> w\<lparr>nowTick := nowTick w + 1, l1 := (l1 w)(s := [])\<rparr>"
  shows "wheel_inv 0 (l1 w s) w'"
    and "\<forall>tid \<in> set (l1 w s). \<exists>t. due w' tid = Some t \<and> t < nowTick w' + kSlots"
proof -
  note inv = wheel_invD [OF assms(1)]
  have same: "due w' = due w" "is_canceled w' = is_canceled w" "nowTick w' = nowTick w + 1"
      "l0 w' = l0 w" "l1 w' = (l1 w)(s := [])"
    by (auto simp: w'_def due_def is_canceled_def fun_eq_iff)
  note range = l1_slot_due [OF inv(2) assms(2), folded s_def]
  then show "\<forall>tid \<in> set (l1 w s). \<exists>t. due w' tid = Some t \<and> t < nowTick w' + kSlots"
    by (force simp: same)
  have "l1_ok w'"
    unfolding l1_ok_def same
  proof (intro allI ballI)
    fix i tid
    assume "tid \<in> set (((l1 w)(s := [])) i)"
    then have "i \<noteq> s" "tid \<in> set (l1 w i)"
      by (auto split: if_splits)
    then show "\<exists>t. due w tid = Some t \<and> i = t div kSlots mod kSlots \<and> (nowTick w + 1) div kSlots < t div kSlots
        \<and> t div kSlots \<le> (nowTick w + 1) div kSlots + kSlots"
      using l1_others_ok [OF inv(2) assms(2)] by (simp only: s_def)
  qed
  moreover have "l0_ok 0 w'"
    using inv(1) by (force simp: l0_ok_def same)
  moreover have "pend_ok (l1 w s) w'"
    using range by (force simp: pend_ok_def same)
  moreover have "once_ok (l1 w s) w'"
  proof -
    have "set (l1 w s) \<inter> set (l1 w i) = {}" if "i \<noteq> s" for i
      using inv(2) that unfolding l1_ok_def by (metis disjoint_iff option.inject)
    with inv(4) show ?thesis by (simp add: once_ok_def same Int_commute)
  qed
  moreover have "listed (l1 w s) w' = listed [] w"
    by (auto simp: listed_def all_ids_def same split: if_splits)
  then have "books_ok (l1 w s) w'"
    by (rule books_ok_cong [OF inv(5)]) (simp_all add: same, simp_all add: w'_def)
  ultimately show "wheel_inv 0 (l1 w s) w'"
    by (simp add: wheel_inv_def)
qed

lemma begin_tick:
  assumes "wheel_inv 1 [] w"
  defines "w1 \<equiv> w\<lparr>nowTick := nowTick w + 1\<rparr>"
  defines "w2 \<equiv> (if nowTick w1 mod kSlots = 0 then cascade w1 else w1)"
  shows "wheel_inv 0 [] w2 \<and> nowTick w2 = nowTick w + 1 \<and> remainderMs w2 = remainderMs w
    \<and> nextId w2 = nextId w \<and> is_canceled w2 = is_canceled w \<and> deadline w2 = deadline w"
proof (cases "nowTick w1 mod kSlots = 0")
  case True
  let ?s = "(nowTick w + 1) div kSlots mod kSlots"
  let ?w = "w\<lparr>nowTick := nowTick w + 1, l1 := (l1 w)(?s := [])\<rparr>"
  have "(nowTick w + 1) mod kSlots = 0"
    using True by (simp add: w1_def)
  note cas = unlink_l1_slot [OF assms(1) this]
  have "w2 = foldl (\<lambda>w' tid. if is_canceled w' tid then w' else place w' tid) ?w (l1 w ?s)"
    using True by (simp add: w2_def cascade_def w1_def Let_def)
  moreover have "due ?w = due w" "is_canceled ?w = is_canceled w"
    by (auto simp: due_def is_canceled_def fun_eq_iff)
  ultimately show ?thesis
    using cascade_fold [OF cas] by (simp add: deadline_def fun_eq_iff)
next
  case False
  note inv = wheel_invD [OF assms(1)]
  have same: "due w1 = due w" "is_canceled w1 = is_canceled w" "l0 w1 = l0 w" "l1 w1 = l1 w"
      "alive w1 = alive w" "nodes w1 = nodes w" "nextId w1 = nextId w" "nowTick w1 = nowTick w + 1"
    by (auto simp: w1_def due_def is_canceled_def fun_eq_iff)
  have q: "nowTick w1 div kSlots = nowTick w div kSlots"
    using False by (simp add: w1_def div_Suc)
  have "l0_ok 0 w1"
    using inv(1) by (force simp: l0_ok_def same)
  moreover have "l1_ok w1"
    using inv(2) by (simp only: l1_ok_def q) (simp only: same)
  moreover have "books_ok [] w1"
    by (rule books_ok_cong [OF inv(5)]) (simp_all add: listed_def same)
  moreover have "once_ok [] w1" "pend_ok [] w1"
    using inv(3,4) by (simp_all add: pend_ok_def once_ok_def same)
  ultimately have "wheel_inv 0 [] w1"
    by (simp add: wheel_inv_def)
  with False show ?thesis
    by (simp add: w2_def same deadline_def fun_eq_iff) (simp add: w1_def)
qed

text \<open>At the start of the firing phase exactly the timers due now are in the current slot.\<close>

lemma slot_is_due:
  assumes "wheel_inv 0 [] w"
  shows "set (l0 w (nowTick w mod kSlots)) \<inter> alive w = {tid. deadline w tid = Some (nowTick w)}"
proof -
  note inv = wheel_invD [OF assms]
  have "tid \<in> all_ids (l0 w)" if "tid \<in> alive w" "due w tid = Some (nowTick w)" for tid
  proof -
    have "tid \<notin> all_ids (l1 w)"
      using inv(2) that(2) by (force simp: l1_ok_def all_ids_def)
    with that(1) inv(5) show ?thesis by (auto simp: books_ok_def listed_def)
  qed
  then show ?thesis
    using unlink_slot(2) [OF assms] by (auto simp: deadline_def split: if_splits)
qed

context timer_callbacks
begin

lemma tick_spec:
  assumes "wheel_inv 1 [] w" and "tick run (w, e) = (fired, w', e')"
  shows "wheel_inv 1 [] w' \<and> nowTick w' = nowTick w + 1 \<and> remainderMs w' = remainderMs w
    \<and> nextId w \<le> nextId w' \<and> distinct fired
    \<and> (\<forall>tid \<in> set fired. deadline w tid = Some (nowTick w + 1))
    \<and> (\<forall>tid. deadline w tid = Some (nowTick w + 1) \<longrightarrow>
         tid \<notin> alive w' \<and> (tid \<in> set fired \<or> is_canceled w' tid))
    \<and> (\<forall>tid < nextId w. deadline w tid \<noteq> Some (nowTick w + 1) \<longrightarrow>
         deadline w' tid = (if is_canceled w' tid then None else deadline w tid))"
proof -
  define w1 where "w1 = w\<lparr>nowTick := nowTick w + 1\<rparr>"
  define w2 where "w2 = (if nowTick w1 mod kSlots = 0 then cascade w1 else w1)"
  have b: "wheel_inv 0 [] w2" "nowTick w2 = nowTick w + 1" "remainderMs w2 = remainderMs w"
      "nextId w2 = nextId w" "is_canceled w2 = is_canceled w" "deadline w2 = deadline w"
    using begin_tick [OF assms(1), folded w1_def, folded w2_def] by blast+
  let ?s = "nowTick w2 mod kSlots"
  let ?w = "w2\<lparr>l0 := (l0 w2)(?s := [])\<rparr>"
  have f: "fire_pending run (l0 w2 ?s) (?w, e) = (fired, w', e')"
    using assms(2) unfolding tick_def prod.case Let_def w1_def [symmetric] w2_def [symmetric] fireSlot_def .
  have same: "deadline ?w = deadline w" "is_canceled ?w = is_canceled w" "alive ?w = alive w2"
    unfolding b(5) [symmetric] b(6) [symmetric]
    by (auto simp: deadline_def due_def is_canceled_def fun_eq_iff)
  have slot: "set (l0 w2 ?s) \<inter> alive w2 = {tid. deadline w tid = Some (nowTick w + 1)}"
    using slot_is_due [OF b(1)] by (simp add: b)
  have known: "\<forall>tid \<in> set (l0 w2 ?s). tid \<notin> alive w2 \<longrightarrow> deadline w tid = None"
    unfolding b(6) [symmetric] by (simp add: deadline_def)
  note spec = fire_pending_spec [OF unlink_slot(1) [OF b(1)] f]
  have "deadline w' tid = (if is_canceled w' tid then None else deadline w tid)"
    if "tid < nextId w" "deadline w tid \<noteq> Some (nowTick w + 1)" for tid
  proof (cases "tid \<in> set (l0 w2 ?s)")
    case True
    then have "deadline w' tid = None" "deadline w tid = None"
      using spec that(2) slot known by (auto simp: deadline_def [of w'])
    then show ?thesis by simp
  next
    case False
    with spec that(1) b(4) same show ?thesis by (simp add: undisturbed_def)
  qed
  with spec slot same b show ?thesis
    by (auto simp: undisturbed_def)
qed

end

subsection \<open>The contract of the timer service\<close>

text \<open>A scheduled timer with the tick it is due at and its callback.\<close>

definition scheduled :: "'c TimerWheel \<Rightarrow> nat \<Rightarrow> (nat \<times> 'c) option" where
  "scheduled w tid = (if tid \<in> alive w
     then map_option (\<lambda>n. (expiryTick n, callback n)) (nodes w tid) else None)"

lemma deadline_scheduled: "deadline w tid = map_option fst (scheduled w tid)"
  by (simp add: deadline_def scheduled_def due_def option.map_comp o_def)

locale timer_service =
  fixes clock :: "'w \<Rightarrow> nat"
    and entry :: "'w \<Rightarrow> nat \<Rightarrow> (nat \<times> 'c) option"
    and ok :: "'w \<Rightarrow> bool"
    and schedule :: "'w \<Rightarrow> nat \<Rightarrow> 'c \<Rightarrow> nat \<times> 'w"
    and revoke :: "'w \<Rightarrow> nat \<Rightarrow> 'w"
  assumes entry_0: "ok w \<Longrightarrow> entry w 0 = None"
    and schedule_fresh: "ok w \<Longrightarrow> entry w (fst (schedule w d c)) = None"
    and schedule_pos: "ok w \<Longrightarrow> fst (schedule w d c) \<noteq> 0"
    and schedule_entry: "ok w \<Longrightarrow> d \<le> 409500 \<Longrightarrow>
       entry (snd (schedule w d c)) =
         (entry w)(fst (schedule w d c) \<mapsto> (clock w + delay_ticks d, c))"
    and schedule_clock: "ok w \<Longrightarrow> clock (snd (schedule w d c)) = clock w"
    and schedule_ok: "ok w \<Longrightarrow> d \<le> 409500 \<Longrightarrow> ok (snd (schedule w d c))"
    and revoke_entry: "ok w \<Longrightarrow> entry (revoke w tid) = (entry w)(tid := None)"
    and revoke_clock: "ok w \<Longrightarrow> clock (revoke w tid) = clock w"
    and revoke_ok: "ok w \<Longrightarrow> ok (revoke w tid)"
begin

lemma schedule_other:
  "ok w \<Longrightarrow> d \<le> 409500 \<Longrightarrow> entry w x = Some v \<Longrightarrow> entry (snd (schedule w d c)) x = Some v"
  using schedule_fresh [of w d c] by (auto simp: schedule_entry)

lemma schedule_revoke:
  assumes "ok w" and "d \<le> 409500" and "schedule w d c = (tid, w')"
  shows "entry (revoke w' tid) = entry w"
  using assms schedule_entry [OF assms(1,2), of c] schedule_fresh [OF assms(1), of d c]
    revoke_entry [of w' tid] schedule_ok [OF assms(1,2), of c] by (auto simp: fun_eq_iff)

lemma schedule_distinct:
  assumes "ok w" and "d \<le> 409500" and "schedule w d c = (t1, w1)" and "schedule w1 d' c' = (t2, w2)"
  shows "t1 \<noteq> t2"
  using assms schedule_entry [OF assms(1,2), of c] schedule_fresh [of w1 d' c']
    schedule_ok [OF assms(1,2), of c] by auto

end

lemma add_scheduled:
  assumes "wheel_inv lo P w" and "d + 99 < 2 ^ 64"
  shows "fst (add w d c) = nextId w"
    and "scheduled (snd (add w d c)) = (scheduled w)(nextId w \<mapsto>
      (nowTick w + min (delay_ticks d) 4095, c))"
proof -
  let ?n = "\<lparr>expiryTick = nowTick w + delay_ticks d, callback = c, canceled = False\<rparr>"
  let ?w = "w\<lparr>nextId := Suc (nextId w), nodes := (nodes w)(nextId w \<mapsto> ?n),
    alive := insert (nextId w) (alive w)\<rparr>"
  show "fst (add w d c) = nextId w"
    by (simp add: add_expand [OF assms(2)])
  have n: "nodes ?w (nextId w) = Some ?n" by simp
  have "scheduled (place ?w (nextId w)) = (scheduled w)(nextId w \<mapsto>
      (nowTick w + min (delay_ticks d) 4095, c))"
  proof (cases "delay_ticks d < kSlots")
    case True
    then have "min (delay_ticks d) 4095 = delay_ticks d"
      by (simp add: kSlots_def)
    with True show ?thesis
      using place_l0 [OF n] by (auto simp: scheduled_def fun_eq_iff)
  next
    case False
    then have "min (nowTick w + delay_ticks d) (nowTick w + kSlots * kSlots - 1)
        = nowTick w + min (delay_ticks d) 4095"
      by (simp add: kSlots_def)
    with False show ?thesis
      using place_l1 [OF n] by (auto simp: scheduled_def fun_eq_iff)
  qed
  then show "scheduled (snd (add w d c)) = (scheduled w)(nextId w \<mapsto>
      (nowTick w + min (delay_ticks d) 4095, c))"
    by (simp add: add_expand [OF assms(2)])
qed

lemma delay_ticks_in_range: "d \<le> 409500 \<Longrightarrow> min (delay_ticks d) 4095 = delay_ticks d"
  by (simp add: delay_ticks_def)

lemma fst_add: "fst (add w d c) = nextId w"
  by (simp add: add_def Let_def)

lemma add_frame [simp]:
  "nowTick (snd (add w d c)) = nowTick w" "remainderMs (snd (add w d c)) = remainderMs w"
  by (simp_all add: add_def Let_def)

lemma cancel_frame [simp]:
  "nowTick (cancel w tid) = nowTick w" "remainderMs (cancel w tid) = remainderMs w"
  by (simp_all add: cancel_def)

lemma unknown_unscheduled: "wheel_inv lo P w \<Longrightarrow> tid \<notin> {0<..<nextId w} \<Longrightarrow> scheduled w tid = None"
  by (force simp: scheduled_def wheel_inv_def books_ok_def)

interpretation tw: timer_service nowTick scheduled "wheel_inv 1 []" add cancel
proof unfold_locales
  fix w :: "'a TimerWheel" and d c
  assume w: "wheel_inv 1 [] w"
  show "scheduled w (fst (add w d c)) = None"
    using unknown_unscheduled [OF w] by (simp add: fst_add)
  show "fst (add w d c) \<noteq> 0"
    using w by (auto simp: fst_add wheel_inv_def books_ok_def)
  show "scheduled w 0 = None"
    using unknown_unscheduled [OF w] by simp
next
  fix w :: "'a TimerWheel" and d :: nat and c
  assume w: "wheel_inv 1 [] w" "d \<le> 409500"
  then have d: "d + 99 < 2 ^ 64" by simp
  show "scheduled (snd (add w d c)) = (scheduled w)(fst (add w d c) \<mapsto> (nowTick w + delay_ticks d, c))"
    using add_scheduled [OF w(1) d] w(2) by (simp add: delay_ticks_in_range)
  show "wheel_inv 1 [] (snd (add w d c))"
    using add_wheel_inv [OF w(1) d] by simp
next
  fix w :: "'a TimerWheel" and tid
  show "scheduled (cancel w tid) = (scheduled w)(tid := None)"
    by (auto simp: scheduled_def cancel_def fun_eq_iff)
qed (simp_all add: cancel_wheel_inv)

subsection \<open>Clients of the wheel\<close>

lemma place_callback: "map_option callback (nodes (place w i) j) = map_option callback (nodes w j)"
  by (auto simp: place_def Let_def split: option.splits)

lemma cascade_callback: "map_option callback (nodes (cascade w) j) = map_option callback (nodes w j)"
proof -
  have "map_option callback (nodes (foldl (\<lambda>w' i. if is_canceled w' i then w' else place w' i) w ids) j)
      = map_option callback (nodes w j)" for w :: "'a TimerWheel" and ids
    by (induction ids arbitrary: w) (simp_all add: place_callback)
  then show ?thesis
    by (simp add: cascade_def Let_def)
qed

lemma scheduled_deadline:
  "scheduled w i = (case deadline w i of None \<Rightarrow> None
     | Some t \<Rightarrow> map_option (\<lambda>c. (t, c)) (map_option callback (nodes w i)))"
  by (auto simp: scheduled_def deadline_def due_def split: option.splits)

lemma begin_tick_scheduled:
  assumes "wheel_inv 1 [] w"
  defines "w1 \<equiv> w\<lparr>nowTick := nowTick w + 1\<rparr>"
  shows "scheduled (if nowTick w1 mod kSlots = 0 then cascade w1 else w1) = scheduled w" (is "scheduled ?w = _")
proof -
  have "map_option callback (nodes ?w j) = map_option callback (nodes w j)" for j
    using cascade_callback [of w1 j] by (simp add: w1_def)
  moreover have "deadline ?w = deadline w"
    using begin_tick [OF assms(1), folded w1_def] by blast
  ultimately show ?thesis
    by (intro ext) (simp only: scheduled_deadline)
qed

text \<open>
  An invariant of a program that owns a wheel. It may speak of the wheel's schedule and, as a
  lower bound, of its clock; while a callback runs, its own timer is off the schedule (\<open>Some c\<close>),
  and the callback has to re-establish the invariant. Then advancing the wheel keeps it.
\<close>

locale timer_client = timer_callbacks run
  for run :: "'c \<Rightarrow> 'c TimerWheel \<times> 'e \<Rightarrow> 'c TimerWheel \<times> 'e" +
  fixes I :: "'c option \<Rightarrow> 'c TimerWheel \<Rightarrow> 'e \<Rightarrow> bool"
  assumes I_clock: "I x w e \<Longrightarrow> scheduled w' = scheduled w \<Longrightarrow> nowTick w \<le> nowTick w' \<Longrightarrow> I x w' e"
    and I_take: "I None w e \<Longrightarrow> scheduled w i = Some (t, c) \<Longrightarrow> I (Some c) (w\<lparr>alive := alive w - {i}\<rparr>) e"
    and I_run: "wheel_inv 1 P w \<Longrightarrow> I (Some c) w e \<Longrightarrow> run c (w, e) = (w', e') \<Longrightarrow> I None w' e'"
begin

lemma fire_pending_inv:
  assumes "wheel_inv 1 P w" "I None w e" "fire_pending run P (w, e) = (fired, w', e')"
  shows "I None w' e'"
  using assms
proof (induction P arbitrary: w e fired)
  case (Cons i P)
  show ?case
  proof (cases "is_canceled w i")
    case True
    then have "fire_pending run P (w, e) = (fired, w', e')"
      using Cons.prems(3) by (auto simp: is_canceled_def split: option.splits)
    with Cons.IH [OF drop_canceled [OF Cons.prems(1) True] Cons.prems(2)] show ?thesis
      by blast
  next
    case False
    then obtain n where n: "nodes w i = Some n" "\<not> canceled n"
      by (auto simp: is_canceled_def split: option.splits)
    have "i \<in> alive w"
      using wheel_invD(5) [OF Cons.prems(1)] False by (auto simp: books_ok_def listed_def)
    then have "scheduled w i = Some (expiryTick n, callback n)"
      using n by (simp add: scheduled_def)
    note taken = I_take [OF Cons.prems(2) this]
    obtain w1 e1 where r: "run (callback n) (w\<lparr>alive := alive w - {i}\<rparr>, e) = (w1, e1)"
      by fastforce
    obtain fired' where f: "fire_pending run P (w1, e1) = (fired', w', e')"
      using Cons.prems(3) n r by (auto split: prod.splits)
    have inv: "wheel_inv 1 P (w\<lparr>alive := alive w - {i}\<rparr>)"
      by (rule take_alive(1) [OF Cons.prems(1)])
    have "wheel_inv 1 P w1"
      using run_preserves [OF inv r] by simp
    then show ?thesis
      using Cons.IH [OF _ I_run [OF inv taken r] f] by simp
  qed
qed simp

lemma tick_inv:
  assumes "wheel_inv 1 [] w" "I None w e" "tick run (w, e) = (fired, w', e')"
  shows "I None w' e'"
proof -
  define w1 where "w1 = w\<lparr>nowTick := nowTick w + 1\<rparr>"
  define w2 where "w2 = (if nowTick w1 mod kSlots = 0 then cascade w1 else w1)"
  let ?s = "nowTick w2 mod kSlots"
  let ?w = "w2\<lparr>l0 := (l0 w2)(?s := [])\<rparr>"
  have b: "wheel_inv 0 [] w2" "nowTick w2 = nowTick w + 1"
    using begin_tick [OF assms(1), folded w1_def, folded w2_def] by blast+
  have f: "fire_pending run (l0 w2 ?s) (?w, e) = (fired, w', e')"
    using assms(3) unfolding tick_def prod.case Let_def w1_def [symmetric] w2_def [symmetric] fireSlot_def .
  have "scheduled ?w = scheduled w2"
    by (simp add: scheduled_def fun_eq_iff)
  then have "scheduled ?w = scheduled w"
    using begin_tick_scheduled [OF assms(1), folded w1_def, folded w2_def] by simp
  then have "I None ?w e"
    using I_clock [OF assms(2)] b(2) by simp
  then show ?thesis
    using fire_pending_inv [OF unlink_slot(1) [OF b(1)] _ f] by simp
qed

lemma tick_loop_inv:
  assumes "wheel_inv 1 [] w" "I None w e" "tick_loop run k (w, e) = (fired, w', e')"
  shows "wheel_inv 1 [] w' \<and> nowTick w' = nowTick w + k \<and> I None w' e'"
  using assms
proof (induction k arbitrary: w e fired)
  case (Suc k)
  obtain ids w1 e1 where t: "tick run (w, e) = (ids, w1, e1)"
    by (metis prod.exhaust)
  obtain fired' where l: "tick_loop run k (w1, e1) = (fired', w', e')"
    using Suc.prems(3) t by (auto simp: Let_def split: prod.splits)
  have "wheel_inv 1 [] w1" "nowTick w1 = nowTick w + 1"
    using tick_spec [OF Suc.prems(1) t] by simp_all
  then show ?case
    using Suc.IH [OF _ tick_inv [OF Suc.prems(1,2) t] l] by simp
qed simp

lemma advance_inv:
  assumes "wheel_inv 1 [] w" "I None w e" "advance run d (w, e) = (fired, w', e')"
  shows "wheel_inv 1 [] w' \<and> nowTick w \<le> nowTick w' \<and> I None w' e'"
proof -
  let ?w = "w\<lparr>remainderMs := u64 (remainderMs w + d) mod kTickMs\<rparr>"
  have "wheel_inv 1 [] ?w"
    using assms(1)
    by (simp add: wheel_inv_def l0_ok_def l1_ok_def pend_ok_def once_ok_def books_ok_def listed_def due_def is_canceled_def)
  moreover have "I None ?w e"
    by (rule I_clock [OF assms(2)]) (simp_all add: scheduled_def fun_eq_iff)
  ultimately show ?thesis
    using tick_loop_inv [of ?w e] assms(3) by (fastforce simp: advance_def Let_def)
qed

end

subsection \<open>Callbacks that leave the wheel alone\<close>

lemma distinct_one:
  assumes "distinct xs" and "set xs = {x}"
  shows "xs = [x]"
proof -
  have "length xs = 1"
    using assms distinct_card [of xs] by simp
  then obtain y where "xs = [y]"
    by (metis One_nat_def length_0_conv length_Suc_conv)
  with assms(2) show ?thesis by simp
qed

lemma filter_one_key:
  assumes "distinct xs" and "\<And>t. (t, k) \<in> set xs \<longleftrightarrow> t = v \<and> b"
  shows "filter (\<lambda>x. snd x = k) xs = (if b then [(v, k)] else [])"
proof -
  have "set (filter (\<lambda>x. snd x = k) xs) = (if b then {(v, k)} else {})"
    using assms(2) by force
  moreover have "distinct (filter (\<lambda>x. snd x = k) xs)"
    using assms(1) by simp
  ultimately show ?thesis
    using distinct_one [of "filter (\<lambda>x. snd x = k) xs" "(v, k)"] by (cases b) (simp_all only: if_True if_False set_empty)
qed

definition hands_off :: "('c \<Rightarrow> 'c TimerWheel \<times> 'e \<Rightarrow> 'c TimerWheel \<times> 'e) \<Rightarrow> bool" where
  "hands_off run \<longleftrightarrow> (\<forall>c w e. fst (run c (w, e)) = w)"

lemma hands_off_callbacks: "hands_off run \<Longrightarrow> timer_callbacks run"
  by unfold_locales (simp add: hands_off_def user_refl)

lemma hands_off_fire:
  assumes "hands_off run" and "fire_pending run P (w, e) = (fired, w', e')"
  shows "nodes w' = nodes w"
  using assms(2)
proof (induction P arbitrary: w e fired)
  case Nil
  then show ?case by simp
next
  case (Cons tid P)
  show ?case
  proof (cases "is_canceled w tid")
    case True
    with Cons.prems show ?thesis
      by (intro Cons.IH [of w e fired]) (auto simp: is_canceled_def split: option.splits)
  next
    case False
    then obtain n where n: "nodes w tid = Some n" "\<not> canceled n"
      by (auto simp: is_canceled_def split: option.splits)
    obtain e1 where r: "run (callback n) (w\<lparr>alive := alive w - {tid}\<rparr>, e) = (w\<lparr>alive := alive w - {tid}\<rparr>, e1)"
      using assms(1) unfolding hands_off_def by (metis prod.collapse)
    with Cons.prems n obtain fired' where
        "fire_pending run P (w\<lparr>alive := alive w - {tid}\<rparr>, e1) = (fired', w', e')"
      by (auto split: prod.splits)
    from Cons.IH [OF this] show ?thesis by simp
  qed
qed

lemma hands_off_tick_canceled:
  assumes "hands_off run" and "wheel_inv 1 [] w" and "tick run (w, e) = (fired, w', e')"
  shows "is_canceled w' = is_canceled w"
proof -
  define w1 where "w1 = w\<lparr>nowTick := nowTick w + 1\<rparr>"
  define w2 where "w2 = (if nowTick w1 mod kSlots = 0 then cascade w1 else w1)"
  have "is_canceled w2 = is_canceled w"
    using begin_tick [OF assms(2), folded w1_def, folded w2_def] by blast
  moreover have "fire_pending run (l0 w2 (nowTick w2 mod kSlots))
      (w2\<lparr>l0 := (l0 w2)(nowTick w2 mod kSlots := [])\<rparr>, e) = (fired, w', e')"
    using assms(3) unfolding tick_def prod.case Let_def w1_def [symmetric] w2_def [symmetric] fireSlot_def .
  from hands_off_fire [OF assms(1) this] have "is_canceled w' = is_canceled w2"
    by (simp add: is_canceled_def fun_eq_iff)
  ultimately show ?thesis by simp
qed

lemma hands_off_tick:
  assumes "hands_off run" and "wheel_inv 1 [] w" and "tick run (w, e) = (fired, w', e')"
  shows "wheel_inv 1 [] w'" and "nowTick w' = nowTick w + 1" and "distinct fired"
    and "set fired = {tid. deadline w tid = Some (nowTick w + 1)}"
    and "deadline w' = (\<lambda>tid. if deadline w tid = Some (nowTick w + 1) then None else deadline w tid)"
proof -
  note spec = timer_callbacks.tick_spec [OF hands_off_callbacks [OF assms(1)] assms(2,3)]
  note canc = hands_off_tick_canceled [OF assms]
  show inv: "wheel_inv 1 [] w'" and "nowTick w' = nowTick w + 1" and "distinct fired"
    using spec by simp_all
  have live: "\<not> is_canceled w tid" if "deadline w tid = Some d" for tid d
    using that wheel_invD(5) [OF assms(2)] by (auto simp: deadline_def books_ok_def split: if_splits)
  show "set fired = {tid. deadline w tid = Some (nowTick w + 1)}"
    using spec live canc by auto
  have "deadline w' tid = (if deadline w tid = Some (nowTick w + 1) then None else deadline w tid)" for tid
  proof (cases "tid < nextId w")
    case True
    show ?thesis
    proof (cases "deadline w tid")
      case None
      with True spec show ?thesis by simp
    next
      case (Some d)
      with True spec canc live [OF Some] show ?thesis
        by (cases "d = nowTick w + 1") (auto simp: deadline_def [of w'])
    qed
  next
    case False
    then have "is_canceled w tid" "tid \<notin> alive w"
      using wheel_invD(5) [OF assms(2)] unknown_unscheduled [OF assms(2), of tid] alive_deadline [OF assms(2), of tid]
      by (auto simp: is_canceled_def books_ok_def deadline_scheduled split: option.splits)
    moreover have "tid \<notin> alive w'"
      using calculation(1) canc wheel_invD(5) [OF inv] by (auto simp: books_ok_def)
    ultimately show ?thesis
      by (simp add: deadline_def)
  qed
  then show "deadline w' = (\<lambda>tid. if deadline w tid = Some (nowTick w + 1) then None else deadline w tid)"
    by (rule ext)
qed

text \<open>Deadlines lie in the future: no scheduled timer is ever overdue.\<close>

lemma deadline_future:
  assumes "wheel_inv 1 [] w" and "deadline w tid = Some d"
  shows "nowTick w < d"
proof -
  have al: "tid \<in> alive w" and d: "due w tid = Some d"
    using assms(2) by (auto simp: deadline_def split: if_splits)
  then consider i where "tid \<in> set (l0 w i)" | i where "tid \<in> set (l1 w i)"
    using wheel_invD(5) [OF assms(1)] by (auto simp: books_ok_def listed_def all_ids_def)
  then show ?thesis
  proof cases
    case 1
    with l0_okD [OF wheel_invD(1) [OF assms(1)]] d show ?thesis by fastforce
  next
    case 2
    then have "nowTick w div kSlots < d div kSlots"
      using l1_okD [OF wheel_invD(2) [OF assms(1)] 2] d by auto
    then show ?thesis
      by (meson div_le_mono not_less)
  qed
qed

lemma hands_off_loop:
  assumes "hands_off run" and "wheel_inv 1 [] w" and "tick_loop run k (w, e) = (log, w', e')"
  shows "wheel_inv 1 [] w' \<and> nowTick w' = nowTick w + k
    \<and> set log = {(d, tid). deadline w tid = Some d \<and> d \<le> nowTick w + k}
    \<and> distinct log \<and> sorted (map fst log)
    \<and> deadline w' = (\<lambda>tid. case deadline w tid of None \<Rightarrow> None
         | Some d \<Rightarrow> if d \<le> nowTick w + k then None else Some d)"
  using assms(2,3)
proof (induction k arbitrary: w e log)
  case 0
  then show ?case
    using deadline_future [OF 0(1)] by (fastforce simp: fun_eq_iff split: option.splits)
next
  case (Suc k)
  obtain ids w1 e1 where t: "tick run (w, e) = (ids, w1, e1)"
    by (metis prod_cases3)
  obtain log' where l: "tick_loop run k (w1, e1) = (log', w', e')"
    and log: "log = map (Pair (nowTick w + 1)) ids @ log'"
    using Suc.prems(2) t by (auto simp: Let_def split: prod.splits)
  note p = hands_off_tick [OF assms(1) Suc.prems(1) t]
  note IH = Suc.IH [OF p(1) l]
  have fut: "nowTick w < d" if "deadline w tid = Some d" for tid d
    using deadline_future [OF Suc.prems(1) that] .
  have late: "nowTick w + 1 < d" if "(d, tid) \<in> set log'" for d tid
    using that IH deadline_future [OF p(1), of tid d] p(2) by auto
  have "set log = {(d, tid). deadline w tid = Some d \<and> d \<le> nowTick w + Suc k}"
    unfolding log using IH p(2,4,5) fut by (auto split: if_splits)
  moreover have "distinct log"
    unfolding log using IH p(3) late by (auto simp: distinct_map inj_on_def)
  moreover have "map fst log = replicate (length ids) (nowTick w + 1) @ map fst log'"
    unfolding log by (simp add: o_def map_replicate_const)
  then have "sorted (map fst log)"
    using IH late by (auto simp: sorted_append less_imp_le)
  moreover have "deadline w' = (\<lambda>tid. case deadline w tid of None \<Rightarrow> None
         | Some d \<Rightarrow> if d \<le> nowTick w + Suc k then None else Some d)"
    using IH p(2,5) by (auto simp: fun_eq_iff split: option.splits)
  ultimately show ?case
    using IH p(2) by simp
qed

subsection \<open>Properties\<close>

text \<open>
  C11. Exactness of one tick with re-entrant callbacks. Whatever the callbacks add or cancel
  on the way, a tick keeps the wheel's invariant, fires each timer at most once, fires only
  timers whose deadline is this very tick, leaves none of those scheduled (each one fired,
  unless a callback of the same tick cancelled it first), and does not touch the deadline of
  any other timer that no callback cancelled. This covers the L1-to-L0 cascade.
\<close>

theorem timer_tick_exact:
  assumes "\<forall>c w e. wheel_user w (fst (run c (w, e)))"
    and "wheel_inv 1 [] w" and "tick run (w, e) = (fired, w', e')"
  shows "wheel_inv 1 [] w' \<and> nowTick w' = nowTick w + 1 \<and> distinct fired
    \<and> (\<forall>tid \<in> set fired. deadline w tid = Some (nowTick w + 1))
    \<and> (\<forall>tid. deadline w tid = Some (nowTick w + 1) \<longrightarrow>
         deadline w' tid = None \<and> (tid \<in> set fired \<or> is_canceled w' tid))
    \<and> (\<forall>tid < nextId w. deadline w tid \<noteq> Some (nowTick w + 1) \<longrightarrow>
         deadline w' tid = (if is_canceled w' tid then None else deadline w tid))"
proof -
  have "timer_callbacks run"
    using assms(1) by unfold_locales blast
  from timer_callbacks.tick_spec [OF this assms(2,3)] show ?thesis
    by (simp add: deadline_def [of w'])
qed

theorem timer_tick_exact_witness:
  "\<exists>fired w' e'. tick (\<lambda>c s. s) (snd (add newTimerWheel 100 ()), ()) = (fired, w', e')
    \<and> wheel_inv 1 [] w' \<and> deadline w' 1 = None \<and> set fired \<subseteq> {1}"
proof -
  let ?w = "snd (add (newTimerWheel :: unit TimerWheel) 100 ())"
  have inv: "wheel_inv 1 [] ?w"
    by (rule add_wheel_inv [OF wheel_inv_new]) simp_all
  have d: "deadline ?w tid = (if tid = 1 then Some 1 else None)" for tid
    by (simp add: add_def newTimerWheel_def place_def deadline_def due_def kTickMs_def kSlots_def u64_def Let_def)
  have now: "nowTick ?w = 0"
    by (simp add: newTimerWheel_def)
  obtain fired w' e' where t: "tick (\<lambda>c s. s) (?w, ()) = (fired, w', e')"
    by (metis prod_cases3)
  have u: "\<forall>(c :: unit) w (e :: unit). wheel_user w (fst (w, e))"
    by (simp add: user_refl)
  note ex = timer_tick_exact [of "\<lambda>c s. s", OF u inv t]
  have "wheel_inv 1 [] w'" "deadline w' 1 = None" "set fired \<subseteq> {1}"
    using ex d now by (auto split: if_splits)
  with t show ?thesis by blast
qed



text \<open>
  A cancelled timer never fires: after \<open>cancel\<close>, whatever the callbacks of the
  following ticks do, no tick fires that timer, and it is never scheduled again.
\<close>

lemma canceled_stays_quiet:
  assumes "timer_callbacks run" and "wheel_inv 1 [] w" and "tid < nextId w" and "deadline w tid = None"
    and "tick_loop run k (w, e) = (log, w', e')"
  shows "tid \<notin> snd ` set log \<and> deadline w' tid = None"
  using assms(2-5)
proof (induction k arbitrary: w e log)
  case 0
  then show ?case by simp
next
  case (Suc k)
  obtain ids w1 e1 where t: "tick run (w, e) = (ids, w1, e1)"
    by (metis prod_cases3)
  obtain log' where l: "tick_loop run k (w1, e1) = (log', w', e')"
    and log: "log = map (Pair (nowTick w + 1)) ids @ log'"
    using Suc.prems(4) t by (auto simp: Let_def split: prod.splits)
  note spec = timer_callbacks.tick_spec [OF assms(1) Suc.prems(1) t]
  have "tid \<notin> set ids" "deadline w1 tid = None" "tid < nextId w1" "wheel_inv 1 [] w1"
    using spec Suc.prems(2,3) by auto
  with Suc.IH [OF _ _ _ l] log show ?case by auto
qed

theorem canceled_timer_never_fires:
  assumes "\<forall>c w e. wheel_user w (fst (run c (w, e)))"
    and "wheel_inv 1 [] w" and "deadline w tid = Some d"
    and "advance run elapsed (cancel w tid, e) = (log, w', e')"
  shows "tid \<notin> snd ` set log \<and> deadline w' tid = None"
proof -
  have cb: "timer_callbacks run"
    using assms(1) by unfold_locales blast
  let ?w = "cancel w tid"
  have lt: "tid < nextId w"
    using assms(3) unknown_unscheduled [OF assms(2), of tid]
    by (cases "tid < nextId w") (auto simp: deadline_scheduled)
  have none: "deadline ?w tid = None"
    using tw.revoke_entry [OF assms(2), of tid] by (simp add: deadline_scheduled)
  let ?v = "?w\<lparr>remainderMs := u64 (remainderMs ?w + elapsed) mod kTickMs\<rparr>"
  have inv: "wheel_inv 1 [] ?v"
    using cancel_wheel_inv [OF assms(2), of tid]
    by (simp add: wheel_inv_def wheel_parts due_def is_canceled_def)
  have "tick_loop run (u64 (remainderMs ?w + elapsed) div kTickMs) (?v, e) = (log, w', e')"
    using assms(4) by (simp add: advance_def Let_def)
  moreover have "tid < nextId ?v" "deadline ?v tid = None"
    using lt none by (auto simp: cancel_def deadline_def due_def split: if_splits)
  ultimately show ?thesis
    using canceled_stays_quiet [OF cb inv] by blast
qed

theorem canceled_timer_never_fires_witness:
  "\<exists>w1 log w' e'. add (newTimerWheel :: unit TimerWheel) 500 () = (1, w1)
    \<and> advance (\<lambda>c s. s) 1000 (cancel w1 1, ()) = (log, w', e')
    \<and> 1 \<notin> snd ` set log \<and> deadline w' 1 = None"
proof -
  obtain w1 where a: "add (newTimerWheel :: unit TimerWheel) 500 () = (1, w1)"
    by (simp add: add_def newTimerWheel_def Let_def)
  have inv: "wheel_inv 1 [] w1"
    using tw.schedule_ok [OF wheel_inv_new, of 500 "()"] a by simp
  have d: "deadline w1 1 = Some 5"
    using tw.schedule_entry [OF wheel_inv_new, of 500 "()"] a
    by (simp add: deadline_scheduled newTimerWheel_def delay_ticks_def)
  obtain log w' e' where adv: "advance (\<lambda>c s. s) 1000 (cancel w1 1, ()) = (log, w', e')"
    by (metis prod_cases3)
  have u: "\<forall>(c :: unit) w (e :: unit). wheel_user w (fst (w, e))"
    by (simp add: user_refl)
  from canceled_timer_never_fires [of "\<lambda>c s. s", OF u inv d adv] a adv show ?thesis
    by blast
qed

text \<open>
  Delays beyond the range of L1 are cut off for good: a timer of more than 409.5 s is
  due after 4095 ticks, however long the requested delay. The comment in \<open>place\<close> promises
  that the cascade re-hangs it by its remaining distance, but \<open>place\<close> overwrites
  \<open>expiryTick\<close>, so there is no remaining distance left.
\<close>

theorem long_delay_fires_early:
  assumes "wheel_inv 1 [] w" and "409500 < d" and "d + 99 < 2 ^ 64"
  shows "deadline (snd (add w d c)) (fst (add w d c)) = Some (nowTick w + 4095)
    \<and> nowTick w + 4095 < nowTick w + delay_ticks d"
proof -
  have "4096 \<le> (d + 99) div 100"
    using assms(2) by linarith
  then have "4095 < delay_ticks d"
    by (simp add: delay_ticks_def)
  then show ?thesis
    using add_scheduled [OF assms(1,3), of c] by (simp add: deadline_scheduled)
qed

theorem long_delay_fires_early_witness:
  "deadline (snd (add (newTimerWheel :: unit TimerWheel) 3600000 ())) 1 = Some 4095
    \<and> delay_ticks 3600000 = 36000"
  using long_delay_fires_early [OF wheel_inv_new, of 3600000 "()"]
  by (simp add: fst_add newTimerWheel_def delay_ticks_def)

end
