(* ===== verification/Float32.thy ===== *)
theory Float32
  imports Complex_Main "HOL-Library.Log_Nat"
begin

text \<open>
  IEEE 754 binary32 values and the operations on \<^verbatim>\<open>float\<close> that \<^verbatim>\<open>src/game/BattleSim.cc\<close>
  uses. A finite float is its exact rational value; every arithmetic result is rounded to
  the nearest representable value, ties to even, with gradual underflow and overflow to
  infinity (\<^verbatim>\<open>Inf True\<close> is negative). The two zeros are one value here: they compare
  equal, and the only operation that could tell them apart, division by zero, does not
  occur in the simulation (each of its divisors is compared with a positive bound first).
  \<open>fsqrt\<close> is correctly rounded, as IEEE 754 demands. Comparisons with NaN are false.
  The operators are instances of HOL's syntactic classes, so the model reads like the
  source.
\<close>

datatype float32 = NaN | Inf bool | Fin rat

subsection \<open>Rounding\<close>

definition rne :: "rat \<Rightarrow> int" where
  "rne x = (let f = \<lfloor>x\<rfloor>; d = x - of_int f in
     if d < 1 / 2 then f else if 1 / 2 < d then f + 1 else if even f then f else f + 1)"

definition pow2 :: "int \<Rightarrow> rat" where
  "pow2 e = (if 0 \<le> e then 2 ^ nat e else 1 / 2 ^ nat (- e))"

text \<open>The exponent of the last place of the 24-bit significand of a positive value.\<close>

definition ulp_exp :: "rat \<Rightarrow> int" where
  "ulp_exp x = (case quotient_of x of (a, b) \<Rightarrow>
     (let k = bitlen a - bitlen b in
      max (- 149) (if x < pow2 k then k - 24 else k - 23)))"

text \<open>The largest finite value, \<open>(2^24 - 1) * 2^104\<close>.\<close>

definition max_finite :: rat where
  "max_finite = 340282346638528859811704183484516925440"

definition round32 :: "rat \<Rightarrow> float32" where
  "round32 x =
     (if x = 0 then Fin 0
      else (let q = pow2 (ulp_exp \<bar>x\<bar>); y = of_int (rne (x / q)) * q in
        if max_finite < \<bar>y\<bar> then Inf (y < 0) else Fin y))"

subsection \<open>Arithmetic and comparison\<close>

instantiation float32 :: "{zero, uminus, plus, minus, times, inverse, ord}"
begin

definition zero_float32 :: float32 where
  "0 = Fin 0"

fun uminus_float32 :: "float32 \<Rightarrow> float32" where
  "- NaN = NaN"
| "- Inf s = Inf (\<not> s)"
| "- Fin x = Fin (- x)"

fun plus_float32 :: "float32 \<Rightarrow> float32 \<Rightarrow> float32" where
  "NaN + b = NaN"
| "Inf s + NaN = NaN"
| "Inf s + Inf t = (if s = t then Inf s else NaN)"
| "Inf s + Fin y = Inf s"
| "Fin x + NaN = NaN"
| "Fin x + Inf t = Inf t"
| "Fin x + Fin y = round32 (x + y)"

definition minus_float32 :: "float32 \<Rightarrow> float32 \<Rightarrow> float32" where
  "a - b = a + (- b)" for a b :: float32

fun times_float32 :: "float32 \<Rightarrow> float32 \<Rightarrow> float32" where
  "NaN * b = NaN"
| "Inf s * NaN = NaN"
| "Inf s * Inf t = Inf (s \<noteq> t)"
| "Inf s * Fin y = (if y = 0 then NaN else Inf (s \<noteq> (y < 0)))"
| "Fin x * NaN = NaN"
| "Fin x * Inf t = (if x = 0 then NaN else Inf (t \<noteq> (x < 0)))"
| "Fin x * Fin y = round32 (x * y)"

fun divide_float32 :: "float32 \<Rightarrow> float32 \<Rightarrow> float32" where
  "NaN div b = NaN"
| "Inf s div NaN = NaN"
| "Inf s div Inf t = NaN"
| "Inf s div Fin y = Inf (s \<noteq> (y < 0))"
| "Fin x div NaN = NaN"
| "Fin x div Inf t = Fin 0"
| "Fin x div Fin y =
     (if y = 0 then (if x = 0 then NaN else Inf (x < 0)) else round32 (x / y))"

definition inverse_float32 :: "float32 \<Rightarrow> float32" where
  "inverse a = Fin 1 div a" for a :: float32

fun less_float32 :: "float32 \<Rightarrow> float32 \<Rightarrow> bool" where
  "NaN < b = False"
| "Inf s < NaN = False"
| "Inf s < Inf t = (s \<and> \<not> t)"
| "Inf s < Fin y = s"
| "Fin x < NaN = False"
| "Fin x < Inf t = (\<not> t)"
| "Fin x < Fin y = (x < y)"

definition less_eq_float32 :: "float32 \<Rightarrow> float32 \<Rightarrow> bool" where
  "a \<le> b \<longleftrightarrow> a < b \<or> (a = b \<and> a \<noteq> NaN)" for a b :: float32

instance ..

end

text \<open>The operator \<^verbatim>\<open>!=\<close> on floats: true when an operand is NaN.\<close>

definition fne :: "float32 \<Rightarrow> float32 \<Rightarrow> bool" where
  "fne a b \<longleftrightarrow> \<not> (a = b \<and> a \<noteq> NaN)"

definition std_max :: "float32 \<Rightarrow> float32 \<Rightarrow> float32" where
  "std_max a b = (if a < b then b else a)"

definition std_clamp :: "float32 \<Rightarrow> float32 \<Rightarrow> float32 \<Rightarrow> float32" where
  "std_clamp v lo hi = (if v < lo then lo else if hi < v then hi else v)"

text \<open>Conversion of an unsigned integer.\<close>

definition float_of_nat :: "nat \<Rightarrow> float32" where
  "float_of_nat n = round32 (of_nat n)"

subsection \<open>Square root\<close>

fun isqrt_bits :: "nat \<Rightarrow> int \<Rightarrow> int" where
  "isqrt_bits 0 n = 0"
| "isqrt_bits (Suc k) n =
     (let r = 2 * isqrt_bits k (n div 4) in if (r + 1) * (r + 1) \<le> n then r + 1 else r)"

text \<open>Enough for arguments below \<open>2^50\<close>.\<close>

definition isqrt :: "int \<Rightarrow> int" where
  "isqrt n = isqrt_bits 25 n"

definition sqrt_exp :: "rat \<Rightarrow> int" where
  "sqrt_exp x = (case quotient_of x of (a, b) \<Rightarrow>
     (let h = (bitlen a - bitlen b + 2) div 2 in
      if x < pow2 (2 * (h - 1)) then h - 25 else h - 24))"

definition round_sqrt :: "rat \<Rightarrow> rat" where
  "round_sqrt x =
     (let e = sqrt_exp x; y = x / pow2 (2 * e); n = isqrt \<lfloor>y\<rfloor>;
          mid = of_int (n * n + n) + 1 / 4;
          m = (if y < mid then n else if mid < y then n + 1 else if even n then n else n + 1)
      in of_int m * pow2 e)"

fun fsqrt :: "float32 \<Rightarrow> float32" where
  "fsqrt NaN = NaN"
| "fsqrt (Inf s) = (if s then NaN else Inf False)"
| "fsqrt (Fin x) = (if x < 0 then NaN else if x = 0 then Fin 0 else Fin (round_sqrt x))"

subsection \<open>Facts\<close>

named_theorems float_simps

lemmas [float_simps] = minus_float32_def less_eq_float32_def zero_float32_def
  std_max_def std_clamp_def fne_def

lemma isqrt_bits_correct:
  assumes "0 \<le> n" "n < 4 ^ k"
  shows "0 \<le> isqrt_bits k n \<and> (isqrt_bits k n)\<^sup>2 \<le> n \<and> n < (isqrt_bits k n + 1)\<^sup>2"
  using assms
proof (induction k arbitrary: n)
  case (Suc k)
  define r where "r = isqrt_bits k (n div 4)"
  have "0 \<le> n div 4" "n div 4 < 4 ^ k"
    using Suc.prems by auto
  from Suc.IH [OF this] have r: "0 \<le> r" "r\<^sup>2 \<le> n div 4" "n div 4 < (r + 1)\<^sup>2"
    by (auto simp: r_def)
  then have "4 * r\<^sup>2 \<le> n" "n < 4 * (r + 1)\<^sup>2"
    by linarith+
  with r(1) show ?case
    by (auto simp: r_def [symmetric] Let_def power2_eq_square algebra_simps)
qed simp

text \<open>Rounding moves a value by at most half a unit in the last place.\<close>

lemma rne_dist: "\<bar>of_int (rne x) - x\<bar> \<le> 1 / 2"
proof -
  have "of_int \<lfloor>x\<rfloor> \<le> x" "x < of_int \<lfloor>x\<rfloor> + 1"
    by linarith+
  then show ?thesis
    by (auto simp: rne_def Let_def)
qed

lemma rne_mono: "x \<le> y \<Longrightarrow> rne x \<le> rne y"
proof -
  assume xy: "x \<le> y"
  show ?thesis
  proof (cases "\<lfloor>x\<rfloor> = \<lfloor>y\<rfloor>")
    case True
    then show ?thesis
      using xy by (auto simp: rne_def Let_def)
  next
    case False
    with floor_mono [OF xy] have "\<lfloor>x\<rfloor> + 1 \<le> \<lfloor>y\<rfloor>"
      by linarith
    then show ?thesis
      by (auto simp: rne_def Let_def)
  qed
qed

lemma pow2_pos [simp]: "0 < pow2 e"
  by (simp add: pow2_def)

lemma round32_error:
  assumes "round32 x = Fin y"
  shows "\<bar>y - x\<bar> \<le> pow2 (ulp_exp \<bar>x\<bar>) / 2"
proof (cases "x = 0")
  case False
  define q where "q = pow2 (ulp_exp \<bar>x\<bar>)"
  have q: "0 < q"
    by (simp add: q_def)
  have y: "y = of_int (rne (x / q)) * q"
    using assms False by (auto simp: round32_def q_def Let_def split: if_splits)
  have "\<bar>y - x\<bar> = \<bar>of_int (rne (x / q)) - x / q\<bar> * q"
  proof -
    have "y - x = (of_int (rne (x / q)) - x / q) * q"
      using q by (simp add: y left_diff_distrib)
    then show ?thesis
      using q by (simp add: abs_mult)
  qed
  also have "\<dots> \<le> 1 / 2 * q"
    using rne_dist [of "x / q"] q by (intro mult_right_mono) auto
  finally show ?thesis
    by (simp add: q_def)
qed (use assms in \<open>simp add: round32_def less_imp_le\<close>)

lemma round32_not_NaN [simp]: "round32 x \<noteq> NaN" "NaN \<noteq> round32 x"
  by (auto simp: round32_def Let_def)

lemma clamp_range:
  assumes "lo \<le> hi"
  shows "std_clamp v (Fin lo) (Fin hi) = NaN \<longleftrightarrow> v = NaN"
    and "v \<noteq> NaN \<Longrightarrow> \<exists>z. std_clamp v (Fin lo) (Fin hi) = Fin z \<and> lo \<le> z \<and> z \<le> hi"
  using assms by (cases v; auto simp: std_clamp_def)+

lemma NaN_absorbs [simp]:
  "NaN - b = NaN" "a - NaN = NaN" "a + NaN = NaN" "a * NaN = NaN" "a div NaN = NaN"
  by (cases a; simp add: minus_float32_def)+

lemma NaN_compare [simp]:
  "\<not> a < NaN" "\<not> a \<le> NaN" "\<not> NaN \<le> a" "fne a NaN" "fne NaN a"
  by (cases a; simp add: float_simps)+

lemma clamp_NaN [simp]: "std_clamp NaN a b = NaN"
  by (simp add: std_clamp_def)

end
