(* ===== verification/BattleSim.thy ===== *)
theory BattleSim
  imports Prelude Float32
begin

text \<open>
  The battle simulation of \<^verbatim>\<open>src/src/game/BattleSim.h\<close> and \<^verbatim>\<open>BattleSim.cc\<close>: players and
  projectiles in a 100 x 100 arena, advanced by \<open>step\<close>. The four phases of \<open>step\<close> are
  definitions of their own, in the order of the code: \<open>move_loop\<close>, \<open>decay\<close>,
  \<open>attack_loop\<close>, \<open>advance_loop\<close>. Floats are the binary32 values of Float32.
  \<^verbatim>\<open>std::hypot\<close>, whose accuracy the C++ standard leaves to the implementation, is an argument
  of the definitions that call it; \<open>hypot_exact\<close> is the correctly rounded one, for concrete
  runs. The unordered maps are association lists: the iteration order of the map is the order
  of the list, and the lemmas hold for every order.
\<close>

record PlayerInput =
  in_seq :: nat
  move_x :: float32
  move_y :: float32
  attack :: bool

definition noInput :: PlayerInput where
  "noInput = \<lparr> in_seq = 0, move_x = 0, move_y = 0, attack = False \<rparr>"

definition kArena :: float32 where
  "kArena = Fin 100"

definition kSpeed :: float32 where
  "kSpeed = Fin 20"

definition kDamage :: int where
  "kDamage = 25"

definition kAttackCd :: float32 where
  "kAttackCd = Fin 500"

definition kMaxHp :: int where
  "kMaxHp = 100"

definition kProjectileSpeed :: float32 where
  "kProjectileSpeed = Fin 60"

definition kProjectileRadius :: float32 where
  "kProjectileRadius = Fin 3"

definition kProjectileRange :: float32 where
  "kProjectileRange = Fin 65"

text \<open>The literal \<^verbatim>\<open>1e-6f\<close>.\<close>

definition kTiny :: float32 where
  "kTiny = round32 (1 / 1000000)"

record P =
  pid :: nat
  px :: float32
  py :: float32
  hp :: int
  seq :: nat
  cdMs :: float32
  facingX :: float32
  facingY :: float32
  input :: PlayerInput
  hasInput :: bool

definition alive :: "P \<Rightarrow> bool" where
  "alive p \<longleftrightarrow> 0 < hp p"

record Projectile =
  prId :: nat
  ownerId :: nat
  prX :: float32
  prY :: float32
  vx :: float32
  vy :: float32
  traveled :: float32

record BattleSim =
  players :: "(nat, P) umap"
  projectiles :: "(nat, Projectile) umap"
  removedProjectileIds :: "nat list"
  nextProjectileId :: nat

definition newBattleSim :: BattleSim where
  "newBattleSim = \<lparr> players = [], projectiles = [], removedProjectileIds = [],
     nextProjectileId = 1 \<rparr>"

definition addPlayer :: "BattleSim \<Rightarrow> nat \<Rightarrow> float32 \<Rightarrow> float32 \<Rightarrow> BattleSim" where
  "addPlayer s i x y =
     s\<lparr> players := AList.update i
          \<lparr> pid = i, px = x, py = y, hp = kMaxHp, seq = 0, cdMs = 0,
            facingX = (if x \<le> kArena * Fin (1 / 2) then Fin 1 else - Fin 1), facingY = 0,
            input = noInput, hasInput = False \<rparr> (players s) \<rparr>"

definition applyInput :: "BattleSim \<Rightarrow> nat \<Rightarrow> PlayerInput \<Rightarrow> BattleSim" where
  "applyInput s i inp =
     (case map_of (players s) i of
        None \<Rightarrow> s
      | Some p \<Rightarrow>
          s\<lparr> players := AList.update i
               (p\<lparr> input := inp, hasInput := True, seq := in_seq inp \<rparr>) (players s) \<rparr>)"

subsection \<open>Phase 1: movement\<close>

text \<open>The body of the first loop; the flag tells whether the player entered \<open>changed\<close>.\<close>

definition move_one :: "float32 \<Rightarrow> P \<Rightarrow> P \<times> bool" where
  "move_one dt p =
     (if \<not> alive p \<or> \<not> hasInput p then (p, False)
      else let mx = move_x (input p); my = move_y (input p); len = fsqrt (mx * mx + my * my) in
        if len < kTiny then (p, False)
        else let mx = (if Fin 1 < len then mx / len else mx);
                 my = (if Fin 1 < len then my / len else my);
                 p = p\<lparr> facingX := mx, facingY := my \<rparr>;
                 nx = std_clamp (px p + mx * kSpeed * dt) 0 kArena;
                 ny = std_clamp (py p + my * kSpeed * dt) 0 kArena
             in if fne nx (px p) \<or> fne ny (py p) then (p\<lparr> px := nx, py := ny \<rparr>, True)
                else (p, False))"

fun move_loop :: "float32 \<Rightarrow> (nat, P) umap \<Rightarrow> (nat, P) umap \<times> nat set" where
  "move_loop dt [] = ([], {})"
| "move_loop dt ((i, p) # ps) =
     (let (p', c) = move_one dt p; (ps', changed) = move_loop dt ps
      in ((i, p') # ps', if c then insert i changed else changed))"

subsection \<open>Phase 2: cooldown\<close>

definition decay :: "nat \<Rightarrow> (nat, P) umap \<Rightarrow> (nat, P) umap" where
  "decay dtMs = umap_map (\<lambda>_ p. p\<lparr> cdMs := std_max 0 (cdMs p - float_of_nat dtMs) \<rparr>)"

subsection \<open>Phase 3: attacks\<close>

fun nearest :: "(float32 \<Rightarrow> float32 \<Rightarrow> float32) \<Rightarrow> nat \<Rightarrow> P \<Rightarrow> (nat, P) umap \<Rightarrow>
    P option \<Rightarrow> float32 \<Rightarrow> P option" where
  "nearest hyp i p [] target best = target"
| "nearest hyp i p ((tid, t) # ts) target best =
     (if tid = i \<or> \<not> alive t then nearest hyp i p ts target best
      else let d = hyp (px t - px p) (py t - py p) in
        if d < best then nearest hyp i p ts (Some t) d else nearest hyp i p ts target best)"

definition aim :: "(float32 \<Rightarrow> float32 \<Rightarrow> float32) \<Rightarrow> nat \<Rightarrow> P \<Rightarrow> (nat, P) umap \<Rightarrow>
    float32 \<times> float32" where
  "aim hyp i p ps =
     (case nearest hyp i p ps None (Inf False) of
        None \<Rightarrow> (facingX p, facingY p)
      | Some t \<Rightarrow>
          let dx = px t - px p; dy = py t - py p; len = hyp dx dy in
          if kTiny < len then (dx / len, dy / len) else (dx, dy))"

definition attack_one :: "(float32 \<Rightarrow> float32 \<Rightarrow> float32) \<Rightarrow> BattleSim \<Rightarrow> nat \<Rightarrow> BattleSim" where
  "attack_one hyp s i =
     (case map_of (players s) i of
        None \<Rightarrow> s
      | Some p \<Rightarrow>
          if \<not> alive p \<or> \<not> hasInput p \<or> \<not> attack (input p) \<or> 0 < cdMs p then s
          else let (dx, dy) = aim hyp i p (players s);
                   n = nextProjectileId s;
                   pr = \<lparr> prId = n, ownerId = i, prX = px p + dx * Fin 2, prY = py p + dy * Fin 2,
                          vx = dx * kProjectileSpeed, vy = dy * kProjectileSpeed, traveled = 0 \<rparr>
               in s\<lparr> nextProjectileId := u64 (n + 1),
                     projectiles := AList.update n pr (projectiles s),
                     players := AList.update i (p\<lparr> cdMs := kAttackCd \<rparr>) (players s) \<rparr>)"

fun attack_loop ::
  "(float32 \<Rightarrow> float32 \<Rightarrow> float32) \<Rightarrow> nat list \<Rightarrow> BattleSim \<Rightarrow> BattleSim" where
  "attack_loop hyp [] s = s"
| "attack_loop hyp (i # is) s = attack_loop hyp is (attack_one hyp s i)"

subsection \<open>Phase 4: projectiles\<close>

text \<open>Where on the segment a target is closest, and whether it is within the hit radius.\<close>

definition hit_test :: "float32 \<Rightarrow> float32 \<Rightarrow> float32 \<Rightarrow> float32 \<Rightarrow> float32 \<Rightarrow> P \<Rightarrow>
    float32 \<times> bool" where
  "hit_test oldX oldY segX segY segLenSq target =
     (let t = (if kTiny < segLenSq
               then std_clamp (((px target - oldX) * segX + (py target - oldY) * segY) / segLenSq)
                      0 (Fin 1)
               else 0);
          closestX = oldX + segX * t; closestY = oldY + segY * t;
          distanceX = px target - closestX; distanceY = py target - closestY
      in (t, distanceX * distanceX + distanceY * distanceY
               \<le> kProjectileRadius * kProjectileRadius))"

fun find_hit :: "nat \<Rightarrow> (P \<Rightarrow> float32 \<times> bool) \<Rightarrow> (nat, P) umap \<Rightarrow> (nat \<times> P) option \<Rightarrow>
    float32 \<Rightarrow> (nat \<times> P) option" where
  "find_hit owner test [] hit hitT = hit"
| "find_hit owner test ((tid, target) # ts) hit hitT =
     (if tid = owner \<or> \<not> alive target then find_hit owner test ts hit hitT
      else let (t, close) = test target in
        if close \<and> t < hitT then find_hit owner test ts (Some (tid, target)) t
        else find_hit owner test ts hit hitT)"

definition damage :: "P \<Rightarrow> P" where
  "damage p = p\<lparr> hp := max 0 (hp p - kDamage) \<rparr>"

definition advance_one :: "float32 \<Rightarrow> BattleSim \<times> nat set \<Rightarrow> nat \<Rightarrow> BattleSim \<times> nat set" where
  "advance_one dt = (\<lambda>(s, changed) n.
     case map_of (projectiles s) n of
       None \<Rightarrow> (s, changed)
     | Some pr \<Rightarrow>
         let oldX = prX pr; oldY = prY pr;
             newX = oldX + vx pr * dt; newY = oldY + vy pr * dt;
             segX = newX - oldX; segY = newY - oldY;
             segLenSq = segX * segX + segY * segY
         in (case find_hit (ownerId pr) (hit_test oldX oldY segX segY segLenSq) (players s)
                    None (Inf False) of
               Some (tid, h) \<Rightarrow>
                 (s\<lparr> players := AList.update tid (damage h) (players s),
                     removedProjectileIds := removedProjectileIds s @ [n],
                     projectiles := AList.delete n (projectiles s) \<rparr>,
                  insert (pid h) changed)
             | None \<Rightarrow>
                 let pr' = pr\<lparr> prX := newX, prY := newY, traveled := traveled pr + fsqrt segLenSq \<rparr>
                 in if kProjectileRange \<le> traveled pr' \<or> newX < 0 \<or> kArena < newX
                       \<or> newY < 0 \<or> kArena < newY
                    then (s\<lparr> removedProjectileIds := removedProjectileIds s @ [n],
                             projectiles := AList.delete n (projectiles s) \<rparr>, changed)
                    else (s\<lparr> projectiles := AList.update n pr' (projectiles s) \<rparr>, changed)))"

fun advance_loop :: "float32 \<Rightarrow> nat list \<Rightarrow> BattleSim \<times> nat set \<Rightarrow> BattleSim \<times> nat set" where
  "advance_loop dt [] sc = sc"
| "advance_loop dt (n # ns) sc = advance_loop dt ns (advance_one dt sc n)"

subsection \<open>The step and the observers\<close>

definition step :: "(float32 \<Rightarrow> float32 \<Rightarrow> float32) \<Rightarrow> BattleSim \<Rightarrow> nat \<Rightarrow> nat list \<times> BattleSim" where
  "step hyp s dtMs =
     (let dt = float_of_nat dtMs / Fin 1000;
          toAdvance = map fst (projectiles s);
          (ps, changed) = move_loop dt (players s);
          s1 = s\<lparr> removedProjectileIds := [], players := decay dtMs ps \<rparr>;
          s2 = attack_loop hyp (map fst (players s1)) s1;
          (s3, changed) = advance_loop dt toAdvance (s2, changed)
      in (sorted_list_of_set changed, s3))"

definition winnerOrZero :: "BattleSim \<Rightarrow> nat" where
  "winnerOrZero s =
     (case foldl (\<lambda>(n, l) (i, p). if alive p then (n + 1, i) else (n, l)) (0 :: nat, 0)
             (players s) of
        (n, l) \<Rightarrow> if n = 1 then l else 0)"

record PlayerState =
  ps_player_id :: nat
  ps_x :: float32
  ps_y :: float32
  ps_hp :: int
  ps_last_input_seq :: nat

definition emptyPlayerState :: PlayerState where
  "emptyPlayerState = \<lparr> ps_player_id = 0, ps_x = 0, ps_y = 0, ps_hp = 0, ps_last_input_seq = 0 \<rparr>"

record ProjectileState =
  prs_projectile_id :: nat
  prs_owner_id :: nat
  prs_x :: float32
  prs_y :: float32
  prs_velocity_x :: float32
  prs_velocity_y :: float32

definition emptyProjectileState :: ProjectileState where
  "emptyProjectileState = \<lparr> prs_projectile_id = 0, prs_owner_id = 0, prs_x = 0, prs_y = 0,
     prs_velocity_x = 0, prs_velocity_y = 0 \<rparr>"

definition fillState :: "BattleSim \<Rightarrow> nat \<Rightarrow> PlayerState \<Rightarrow> PlayerState" where
  "fillState s i out =
     (case map_of (players s) i of
        None \<Rightarrow> out
      | Some p \<Rightarrow> \<lparr> ps_player_id = pid p, ps_x = px p, ps_y = py p, ps_hp = hp p,
          ps_last_input_seq = seq p \<rparr>)"

definition fillProjectileState :: "BattleSim \<Rightarrow> nat \<Rightarrow> ProjectileState \<Rightarrow> ProjectileState" where
  "fillProjectileState s n out =
     (case map_of (projectiles s) n of
        None \<Rightarrow> out
      | Some pr \<Rightarrow> \<lparr> prs_projectile_id = prId pr, prs_owner_id = ownerId pr, prs_x = prX pr,
          prs_y = prY pr, prs_velocity_x = vx pr, prs_velocity_y = vy pr \<rparr>)"

definition playerIds :: "BattleSim \<Rightarrow> nat list" where
  "playerIds s = map fst (players s)"

definition projectileIds :: "BattleSim \<Rightarrow> nat list" where
  "projectileIds s = map fst (projectiles s)"

definition takeRemovedProjectileIds :: "BattleSim \<Rightarrow> nat list \<times> BattleSim" where
  "takeRemovedProjectileIds s = (removedProjectileIds s, s\<lparr> removedProjectileIds := [] \<rparr>)"

definition hypot_exact :: "float32 \<Rightarrow> float32 \<Rightarrow> float32" where
  "hypot_exact a b =
     (case (a, b) of
        (Fin x, Fin y) \<Rightarrow> if x = 0 \<and> y = 0 then Fin 0 else Fin (round_sqrt (x * x + y * y))
      | (Inf _, _) \<Rightarrow> Inf False
      | (_, Inf _) \<Rightarrow> Inf False
      | _ \<Rightarrow> NaN)"

subsection \<open>What each phase changes\<close>

lemma move_loop_lookup [umap_simps]:
  "map_of (fst (move_loop dt ps)) i = map_option (\<lambda>p. fst (move_one dt p)) (map_of ps i)"
  by (induction ps) (auto simp: case_prod_unfold Let_def)

lemma move_loop_keys [simp]: "map fst (fst (move_loop dt ps)) = map fst ps"
  by (induction ps) (auto simp: case_prod_unfold Let_def)

lemma move_loop_changed:
  "umap_ok ps \<Longrightarrow>
   i \<in> snd (move_loop dt ps) \<longleftrightarrow> (\<exists>p. map_of ps i = Some p \<and> snd (move_one dt p))"
proof (induction ps)
  case (Cons jp ps)
  obtain j p where jp: "jp = (j, p)"
    by (cases jp)
  have j: "map_of ps j = None" and ok: "umap_ok ps"
    using Cons.prems by (auto simp: jp umap_ok_def map_of_eq_None_iff)
  show ?case
    using Cons.IH [OF ok] j by (auto simp: jp case_prod_unfold Let_def)
qed simp

lemma finite_move_changed [simp]: "finite (snd (move_loop dt ps))"
  by (induction ps) (auto simp: case_prod_unfold Let_def)

text \<open>Movement writes the position and the facing only.\<close>

lemma move_one_frame [simp]:
  "pid (fst (move_one dt p)) = pid p" "hp (fst (move_one dt p)) = hp p"
  "seq (fst (move_one dt p)) = seq p" "cdMs (fst (move_one dt p)) = cdMs p"
  "input (fst (move_one dt p)) = input p" "hasInput (fst (move_one dt p)) = hasInput p"
  by (auto simp: move_one_def Let_def)

lemma move_one_still: "\<not> snd (move_one dt p) \<Longrightarrow> px (fst (move_one dt p)) = px p"
  "\<not> snd (move_one dt p) \<Longrightarrow> py (fst (move_one dt p)) = py p"
  by (auto simp: move_one_def Let_def split: if_splits)

lemma move_one_moved:
  assumes "snd (move_one dt p)" "px p \<noteq> NaN" "py p \<noteq> NaN"
  shows "px (fst (move_one dt p)) \<noteq> px p \<or> py (fst (move_one dt p)) \<noteq> py p"
  using assms by (auto simp: move_one_def Let_def fne_def split: if_splits)

lemma move_one_dead: "\<not> alive p \<Longrightarrow> move_one dt p = (p, False)"
  by (simp add: move_one_def)

text \<open>Attacks write cooldowns and add projectiles under fresh numbers, as long as the 64-bit
  counter does not wrap.\<close>

definition may_fire :: "P \<Rightarrow> bool" where
  "may_fire p \<longleftrightarrow> alive p \<and> hasInput p \<and> attack (input p) \<and> \<not> 0 < cdMs p"

definition attack_frame :: "BattleSim \<Rightarrow> BattleSim \<Rightarrow> bool" where
  "attack_frame s s' \<longleftrightarrow>
     map fst (players s') = map fst (players s) \<and>
     removedProjectileIds s' = removedProjectileIds s \<and>
     nextProjectileId s \<le> nextProjectileId s' \<and>
     (umap_ok (projectiles s) \<longrightarrow> umap_ok (projectiles s')) \<and>
     (\<forall>i p. map_of (players s) i = Some p \<longrightarrow>
        (\<exists>c. map_of (players s') i = Some (p\<lparr> cdMs := c \<rparr>) \<and>
             (c = cdMs p \<or> may_fire p \<and> c = kAttackCd))) \<and>
     (\<forall>n. n < nextProjectileId s \<longrightarrow> map_of (projectiles s') n = map_of (projectiles s) n) \<and>
     (\<forall>n pr. nextProjectileId s \<le> n \<longrightarrow> map_of (projectiles s') n = Some pr \<longrightarrow>
        map_of (projectiles s) n = Some pr \<or>
        n < nextProjectileId s' \<and> prId pr = n \<and>
        (\<exists>p. map_of (players s) (ownerId pr) = Some p \<and> may_fire p))"

lemma cdMs_same [simp]: "p\<lparr> cdMs := cdMs p \<rparr> = p" for p :: P
  by (cases p) simp

lemma attack_frame_player:
  assumes "attack_frame s s'" "map_of (players s) i = Some p"
  obtains c where "map_of (players s') i = Some (p\<lparr> cdMs := c \<rparr>)"
    "c = cdMs p \<or> may_fire p \<and> c = kAttackCd"
  using assms unfolding attack_frame_def by blast

lemma attack_frame_new:
  assumes "attack_frame s s'" "nextProjectileId s \<le> n" "map_of (projectiles s') n = Some pr"
    "map_of (projectiles s) n = None"
  shows "n < nextProjectileId s' \<and> prId pr = n \<and>
    (\<exists>p. map_of (players s) (ownerId pr) = Some p \<and> may_fire p)"
proof -
  have "map_of (projectiles s) n = Some pr \<or> n < nextProjectileId s' \<and> prId pr = n \<and>
    (\<exists>p. map_of (players s) (ownerId pr) = Some p \<and> may_fire p)"
    using assms(1-3) unfolding attack_frame_def by blast
  then show ?thesis
    using assms(4) by simp
qed

lemma attack_frame_refl [simp]: "attack_frame s s"
proof -
  have "\<exists>c. Some p = Some (p\<lparr> cdMs := c \<rparr>) \<and> (c = cdMs p \<or> may_fire p \<and> c = kAttackCd)" for p :: P
    by (intro exI [of _ "cdMs p"]) simp
  then show ?thesis
    by (simp add: attack_frame_def)
qed

lemma keys_update_same:
  "map_of ps i = Some p \<Longrightarrow> map fst (AList.update i q ps) = map fst ps"
  by (auto simp: update_keys dest: map_of_SomeD intro: rev_image_eqI)

lemma attack_one_cases:
  obtains (idle) "attack_one hyp s i = s"
  | (fire) p pr where "map_of (players s) i = Some p" "may_fire p"
      "prId pr = nextProjectileId s" "ownerId pr = i"
      "attack_one hyp s i = s\<lparr> nextProjectileId := u64 (Suc (nextProjectileId s)),
         projectiles := AList.update (nextProjectileId s) pr (projectiles s),
         players := AList.update i (p\<lparr> cdMs := kAttackCd \<rparr>) (players s) \<rparr>"
proof (cases "\<exists>p. map_of (players s) i = Some p \<and> may_fire p")
  case True
  then obtain p where p: "map_of (players s) i = Some p" "may_fire p"
    by blast
  obtain dx dy where d: "aim hyp i p (players s) = (dx, dy)"
    by fastforce
  from p d show thesis
    by (intro fire [of p "\<lparr> prId = nextProjectileId s, ownerId = i, prX = px p + dx * Fin 2,
          prY = py p + dy * Fin 2, vx = dx * kProjectileSpeed, vy = dy * kProjectileSpeed,
          traveled = 0 \<rparr>"]) (simp_all add: attack_one_def may_fire_def Let_def)
next
  case False
  then show thesis
    by (intro idle) (auto simp: attack_one_def may_fire_def split: option.splits)
qed

lemma attack_one_frame:
  assumes "Suc (nextProjectileId s) < 2 ^ 64"
  shows "attack_frame s (attack_one hyp s i) \<and>
    nextProjectileId (attack_one hyp s i) \<le> Suc (nextProjectileId s)"
proof (cases rule: attack_one_cases [of hyp s i])
  case (fire p pr)
  let ?s = "attack_one hyp s i"
  have "\<exists>c. map_of (players ?s) j = Some (q\<lparr> cdMs := c \<rparr>) \<and> (c = cdMs q \<or> may_fire q \<and> c = kAttackCd)"
    if "map_of (players s) j = Some q" for j q
    using fire that
    by (cases "j = i") (auto simp: umap_simps intro: exI [of _ kAttackCd] exI [of _ "cdMs q"])
  then show ?thesis
    using fire assms by (auto simp: attack_frame_def umap_simps wrap_simps keys_update_same)
qed simp

lemma may_fire_before:
  "may_fire (p\<lparr> cdMs := c \<rparr>) \<Longrightarrow> c = cdMs p \<or> may_fire p \<and> c = kAttackCd \<Longrightarrow> may_fire p"
  by auto

lemma attack_frame_player_trans:
  assumes "attack_frame s s'" "attack_frame s' s''" "map_of (players s) i = Some p"
  shows "\<exists>c. map_of (players s'') i = Some (p\<lparr> cdMs := c \<rparr>) \<and> (c = cdMs p \<or> may_fire p \<and> c = kAttackCd)"
proof -
  from attack_frame_player [OF assms(1,3)] obtain c where
    c: "map_of (players s') i = Some (p\<lparr> cdMs := c \<rparr>)" "c = cdMs p \<or> may_fire p \<and> c = kAttackCd" .
  from attack_frame_player [OF assms(2) c(1)] obtain c' where
    "map_of (players s'') i = Some (p\<lparr> cdMs := c' \<rparr>)"
    "c' = c \<or> may_fire (p\<lparr> cdMs := c \<rparr>) \<and> c' = kAttackCd"
    by auto
  then show ?thesis
    using c(2) may_fire_before by blast
qed

lemma attack_frame_owner:
  assumes "attack_frame s s'" and q: "map_of (players s') j = Some q" "may_fire q"
  shows "\<exists>p. map_of (players s) j = Some p \<and> may_fire p"
proof -
  have "j \<in> fst ` set (players s)"
    using q assms(1) by (metis attack_frame_def image_set domI dom_map_of_conv_image_fst)
  then obtain p where p: "map_of (players s) j = Some p"
    by (metis map_of_eq_None_iff not_None_eq)
  from attack_frame_player [OF assms(1) p] show ?thesis
    using p q may_fire_before by (metis option.inject)
qed

lemma attack_frame_trans:
  assumes "attack_frame s s'" "attack_frame s' s''"
  shows "attack_frame s s''"
proof -
  have new: "map_of (projectiles s) n = Some pr \<or> n < nextProjectileId s'' \<and> prId pr = n \<and>
      (\<exists>p. map_of (players s) (ownerId pr) = Some p \<and> may_fire p)"
    if n: "nextProjectileId s \<le> n" "map_of (projectiles s'') n = Some pr" for n pr
  proof (cases "nextProjectileId s' \<le> n")
    case True
    then have "map_of (projectiles s') n = Some pr \<or> n < nextProjectileId s'' \<and> prId pr = n \<and>
        (\<exists>p. map_of (players s') (ownerId pr) = Some p \<and> may_fire p)"
      using assms(2) n unfolding attack_frame_def by blast
    then show ?thesis
      using assms(1) n True attack_frame_owner [OF assms(1)] unfolding attack_frame_def by (meson leD)
  next
    case False
    then have "map_of (projectiles s') n = Some pr" "n < nextProjectileId s''"
      using assms(2) n by (auto simp: attack_frame_def)
    then show ?thesis
      using assms(1) n unfolding attack_frame_def by blast
  qed
  show ?thesis
    unfolding attack_frame_def
  proof (intro conjI allI impI)
    fix i p
    assume "map_of (players s) i = Some p"
    then show "\<exists>c. map_of (players s'') i = Some (p\<lparr> cdMs := c \<rparr>) \<and>
      (c = cdMs p \<or> may_fire p \<and> c = kAttackCd)"
      by (rule attack_frame_player_trans [OF assms])
  next
    fix n pr
    assume "nextProjectileId s \<le> n" "map_of (projectiles s'') n = Some pr"
    then show "map_of (projectiles s) n = Some pr \<or> n < nextProjectileId s'' \<and> prId pr = n \<and>
      (\<exists>p. map_of (players s) (ownerId pr) = Some p \<and> may_fire p)"
      by (rule new)
  qed (use assms in \<open>auto simp: attack_frame_def\<close>)
qed

lemma attack_loop_frame:
  "nextProjectileId s + length is < 2 ^ 64 \<Longrightarrow>
   attack_frame s (attack_loop hyp is s) \<and>
   nextProjectileId (attack_loop hyp is s) \<le> nextProjectileId s + length is"
proof (induction "is" arbitrary: s)
  case (Cons i "is")
  let ?s = "attack_one hyp s i"
  have one: "attack_frame s ?s" "nextProjectileId ?s \<le> Suc (nextProjectileId s)"
    using attack_one_frame [of s hyp i] Cons.prems by auto
  then have "nextProjectileId ?s + length is < 2 ^ 64"
    using Cons.prems by simp
  from Cons.IH [OF this] one show ?case
    using attack_frame_trans by fastforce
qed simp

text \<open>Projectiles write hit points, move or vanish; every vanished number is reported.\<close>

definition hp_ok :: "int \<Rightarrow> bool" where
  "hp_ok h \<longleftrightarrow> h \<in> {0, 25, 50, 75, 100}"

definition advance_frame :: "BattleSim \<times> nat set \<Rightarrow> BattleSim \<times> nat set \<Rightarrow> bool" where
  "advance_frame = (\<lambda>(s, c) (s', c').
     map fst (players s') = map fst (players s) \<and>
     nextProjectileId s' = nextProjectileId s \<and>
     (umap_ok (projectiles s) \<longrightarrow> umap_ok (projectiles s')) \<and>
     (finite c \<longrightarrow> finite c') \<and>
     (\<exists>rs. removedProjectileIds s' = removedProjectileIds s @ rs \<and> distinct rs \<and>
        set rs = dom (map_of (projectiles s)) - dom (map_of (projectiles s')) \<and>
        (\<forall>i p. map_of (players s) i = Some p \<longrightarrow>
           (\<exists>h. map_of (players s') i = Some (p\<lparr> hp := h \<rparr>) \<and> h \<le> hp p \<and> (hp_ok (hp p) \<longrightarrow> hp_ok h) \<and>
                (h = hp p \<or> alive p \<and> px p \<noteq> NaN \<and> py p \<noteq> NaN \<and>
                   (\<exists>n\<in>set rs. \<exists>pr. map_of (projectiles s) n = Some pr \<and> ownerId pr \<noteq> i)) \<and>
                (i \<in> c' \<longleftrightarrow> i \<in> c \<or> h \<noteq> hp p)))) \<and>
     (\<forall>n pr'. map_of (projectiles s') n = Some pr' \<longrightarrow>
        (\<exists>pr. map_of (projectiles s) n = Some pr \<and>
              prId pr' = prId pr \<and> ownerId pr' = ownerId pr \<and> vx pr' = vx pr \<and> vy pr' = vy pr)))"

lemma find_hit_sound:
  "find_hit owner test ts hit hitT = Some (i, t) \<Longrightarrow>
   hit = Some (i, t) \<or> (i, t) \<in> set ts \<and> i \<noteq> owner \<and> alive t \<and> snd (test t)"
proof (induction ts arbitrary: hit hitT)
  case (Cons jt ts)
  obtain j q where jt: "jt = (j, q)"
    by (cases jt)
  obtain u b where ub: "test q = (u, b)"
    by fastforce
  show ?case
    using Cons.prems ub by (auto simp: jt dest!: Cons.IH split: if_splits)
qed simp

lemma hit_test_NaN:
  "px t = NaN \<or> py t = NaN \<Longrightarrow> \<not> snd (hit_test oldX oldY segX segY segLenSq t)"
  by (auto simp: hit_test_def Let_def)

lemma damage_facts:
  "alive p \<Longrightarrow> hp (damage p) < hp p" "hp_ok (hp p) \<Longrightarrow> hp_ok (hp (damage p))"
  "damage p = p\<lparr> hp := hp (damage p) \<rparr>"
  by (auto simp: damage_def alive_def kDamage_def hp_ok_def)

lemma hp_same [simp]: "p\<lparr> hp := hp p \<rparr> = p" for p :: P
  by (cases p) simp

lemma advance_one_cases:
  obtains (absent) "map_of (projectiles s) n = None" "advance_one dt (s, c) n = (s, c)"
  | (hit) pr i t where "map_of (projectiles s) n = Some pr" "(i, t) \<in> set (players s)"
      "i \<noteq> ownerId pr" "alive t" "px t \<noteq> NaN" "py t \<noteq> NaN"
      "advance_one dt (s, c) n =
         (s\<lparr> players := AList.update i (damage t) (players s),
            removedProjectileIds := removedProjectileIds s @ [n],
            projectiles := AList.delete n (projectiles s) \<rparr>, insert (pid t) c)"
  | (gone) pr where "map_of (projectiles s) n = Some pr"
      "advance_one dt (s, c) n =
         (s\<lparr> removedProjectileIds := removedProjectileIds s @ [n],
            projectiles := AList.delete n (projectiles s) \<rparr>, c)"
  | (fly) pr pr' where "map_of (projectiles s) n = Some pr"
      "prId pr' = prId pr" "ownerId pr' = ownerId pr" "vx pr' = vx pr" "vy pr' = vy pr"
      "advance_one dt (s, c) n =
         (s\<lparr> projectiles := AList.update n pr' (projectiles s) \<rparr>, c)"
proof (cases "map_of (projectiles s) n")
  case None
  then show thesis
    by (intro absent) (auto simp: advance_one_def)
next
  case (Some pr)
  define newX where "newX = prX pr + vx pr * dt"
  define newY where "newY = prY pr + vy pr * dt"
  define sl where "sl = (newX - prX pr) * (newX - prX pr) + (newY - prY pr) * (newY - prY pr)"
  define test where "test = hit_test (prX pr) (prY pr) (newX - prX pr) (newY - prY pr) sl"
  define pr' where "pr' = pr\<lparr> prX := newX, prY := newY, traveled := traveled pr + fsqrt sl \<rparr>"
  note one = advance_one_def Some Let_def newX_def [symmetric] newY_def [symmetric]
    sl_def [symmetric] test_def [symmetric]
  show thesis
  proof (cases "find_hit (ownerId pr) test (players s) None (Inf False)")
    case None
    show thesis
    proof (cases "kProjectileRange \<le> traveled pr' \<or> newX < 0 \<or> kArena < newX \<or> newY < 0 \<or> kArena < newY")
      case True
      then show thesis
        by (intro gone [of pr]) (simp_all add: one None pr'_def)
    next
      case False
      then show thesis
        by (intro fly [of pr pr']) (simp_all add: one None pr'_def)
    qed
  next
    case (Some it)
    obtain i t where it: "it = (i, t)"
      by (cases it)
    note h = find_hit_sound [OF Some [unfolded it]]
    with hit_test_NaN [of t] have "px t \<noteq> NaN" "py t \<noteq> NaN"
      by (auto simp: test_def)
    with h show thesis
      by (intro hit [of pr i t]) (auto simp: one Some it)
  qed
qed

definition ids_ok :: "BattleSim \<Rightarrow> bool" where
  "ids_ok s \<longleftrightarrow> umap_ok (players s) \<and> umap_ok (projectiles s) \<and>
     (\<forall>i p. map_of (players s) i = Some p \<longrightarrow> pid p = i)"

lemma advance_frameI:
  assumes "map fst (players s') = map fst (players s)"
    "nextProjectileId s' = nextProjectileId s"
    "umap_ok (projectiles s')" "finite c \<Longrightarrow> finite c'"
    "removedProjectileIds s' = removedProjectileIds s @ rs" "distinct rs"
    "set rs = dom (map_of (projectiles s)) - dom (map_of (projectiles s'))"
    "\<And>i p. map_of (players s) i = Some p \<Longrightarrow>
       \<exists>h. map_of (players s') i = Some (p\<lparr> hp := h \<rparr>) \<and> h \<le> hp p \<and> (hp_ok (hp p) \<longrightarrow> hp_ok h) \<and>
           (h = hp p \<or> alive p \<and> px p \<noteq> NaN \<and> py p \<noteq> NaN \<and>
              (\<exists>n\<in>set rs. \<exists>pr. map_of (projectiles s) n = Some pr \<and> ownerId pr \<noteq> i)) \<and>
           (i \<in> c' \<longleftrightarrow> i \<in> c \<or> h \<noteq> hp p)"
    "\<And>n pr'. map_of (projectiles s') n = Some pr' \<Longrightarrow>
       \<exists>pr. map_of (projectiles s) n = Some pr \<and>
            prId pr' = prId pr \<and> ownerId pr' = ownerId pr \<and> vx pr' = vx pr \<and> vy pr' = vy pr"
  shows "advance_frame (s, c) (s', c')"
  unfolding advance_frame_def prod.case
  by (intro conjI exI [of _ rs] allI impI) (use assms in blast)+

lemma advance_one_frame:
  assumes "ids_ok s"
  shows "advance_frame (s, c) (advance_one dt (s, c) n)"
proof (cases rule: advance_one_cases [of s n dt c])
  case absent
  show ?thesis
    unfolding absent by (rule advance_frameI [of _ _ _ _ "[]"]) (use assms in \<open>auto simp: ids_ok_def intro!: exI [of _ "hp _"]\<close>)
next
  case (hit pr i t)
  then have t: "map_of (players s) i = Some t" "pid t = i"
    using assms by (auto simp: ids_ok_def umap_ok_mem)
  show ?thesis
    unfolding hit(7)
  proof (rule advance_frameI [of _ _ _ _ "[n]"], goal_cases)
    case (8 j p)
    then show ?case
      using t hit(1,3,4,5,6) damage_facts [of t] 
      by (cases "j = i") (auto simp: umap_simps intro!: exI [of _ "hp _"])
  qed (use hit(1) t assms in \<open>auto simp: ids_ok_def umap_simps keys_update_same dom_def split: if_splits\<close>)
next
  case (gone pr)
  show ?thesis
    unfolding gone(2) by (rule advance_frameI [of _ _ _ _ "[n]"])
      (use gone(1) assms in \<open>auto simp: ids_ok_def umap_simps dom_def intro!: exI [of _ "hp _"] split: if_splits\<close>)
next
  case (fly pr pr')
  show ?thesis
    unfolding fly(6) by (rule advance_frameI [of _ _ _ _ "[]"])
      (use fly(1-5) assms in \<open>auto simp: ids_ok_def umap_simps dom_def intro!: exI [of _ "hp _"] split: if_splits\<close>)
qed

lemma advance_frame_player:
  assumes "advance_frame (s, c) (s', c')" "map_of (players s) i = Some p"
  obtains h where "map_of (players s') i = Some (p\<lparr> hp := h \<rparr>)" "h \<le> hp p"
    "hp_ok (hp p) \<longrightarrow> hp_ok h" "i \<in> c' \<longleftrightarrow> i \<in> c \<or> h \<noteq> hp p"
    "h = hp p \<or> alive p \<and> px p \<noteq> NaN \<and> py p \<noteq> NaN \<and>
      (\<exists>n pr. map_of (projectiles s) n = Some pr \<and> map_of (projectiles s') n = None \<and> ownerId pr \<noteq> i)"
proof -
  from assms(1) obtain rs where rs: "set rs = dom (map_of (projectiles s)) - dom (map_of (projectiles s'))"
    and pl: "\<forall>i p. map_of (players s) i = Some p \<longrightarrow>
      (\<exists>h. map_of (players s') i = Some (p\<lparr> hp := h \<rparr>) \<and> h \<le> hp p \<and> (hp_ok (hp p) \<longrightarrow> hp_ok h) \<and>
           (h = hp p \<or> alive p \<and> px p \<noteq> NaN \<and> py p \<noteq> NaN \<and>
              (\<exists>n\<in>set rs. \<exists>pr. map_of (projectiles s) n = Some pr \<and> ownerId pr \<noteq> i)) \<and>
           (i \<in> c' \<longleftrightarrow> i \<in> c \<or> h \<noteq> hp p))"
    unfolding advance_frame_def prod.case by blast
  from pl [THEN spec, THEN spec, THEN mp, OF assms(2)] obtain h where h: "map_of (players s') i = Some (p\<lparr> hp := h \<rparr>)" "h \<le> hp p"
    "hp_ok (hp p) \<longrightarrow> hp_ok h" "i \<in> c' \<longleftrightarrow> i \<in> c \<or> h \<noteq> hp p"
    "h = hp p \<or> alive p \<and> px p \<noteq> NaN \<and> py p \<noteq> NaN \<and>
      (\<exists>n\<in>set rs. \<exists>pr. map_of (projectiles s) n = Some pr \<and> ownerId pr \<noteq> i)"
    by (elim exE conjE)
  from h(5) have "h = hp p \<or> alive p \<and> px p \<noteq> NaN \<and> py p \<noteq> NaN \<and>
      (\<exists>n pr. map_of (projectiles s) n = Some pr \<and> map_of (projectiles s') n = None \<and> ownerId pr \<noteq> i)"
    unfolding rs by (fastforce simp: dom_def)
  with h(1-4) show thesis
    by (rule that)
qed

lemma advance_frame_projectile:
  assumes "advance_frame (s, c) (s', c')" "map_of (projectiles s') n = Some pr'"
  obtains pr where "map_of (projectiles s) n = Some pr" "prId pr' = prId pr"
    "ownerId pr' = ownerId pr" "vx pr' = vx pr" "vy pr' = vy pr"
  using assms unfolding advance_frame_def prod.case by blast

lemma advance_frame_removed:
  assumes "advance_frame (s, c) (s', c')"
  obtains rs where "removedProjectileIds s' = removedProjectileIds s @ rs" "distinct rs"
    "set rs = dom (map_of (projectiles s)) - dom (map_of (projectiles s'))"
  using assms unfolding advance_frame_def prod.case by blast

lemma advance_frame_rest:
  assumes "advance_frame (s, c) (s', c')"
  shows "map fst (players s') = map fst (players s)" "nextProjectileId s' = nextProjectileId s"
    "umap_ok (projectiles s) \<Longrightarrow> umap_ok (projectiles s')" "finite c \<Longrightarrow> finite c'"
  using assms unfolding advance_frame_def prod.case by blast+

lemma same_keys_lookup:
  "map fst m' = map fst m \<Longrightarrow> map_of m' i = Some v' \<Longrightarrow> \<exists>v. map_of m i = Some v"
  by (metis domD domI dom_map_of_conv_image_fst image_set)

lemma advance_frame_ids:
  assumes "advance_frame (s, c) (s', c')" "ids_ok s"
  shows "ids_ok s'"
proof -
  note rest = advance_frame_rest [OF assms(1)]
  have "pid q = i" if q: "map_of (players s') i = Some q" for i q
  proof -
    obtain p where p: "map_of (players s) i = Some p"
      using same_keys_lookup [OF rest(1) q] by blast
    from advance_frame_player [OF assms(1) p] obtain h where "q = p\<lparr> hp := h \<rparr>"
      using q by (metis option.inject)
    then show ?thesis
      using assms(2) p by (simp add: ids_ok_def)
  qed
  then show ?thesis
    using assms(2) rest by (simp add: ids_ok_def umap_ok_def)
qed

lemma advance_frame_trans:
  assumes 1: "advance_frame (s, c) (s', c')" and 2: "advance_frame (s', c') (s'', c'')"
    and ok: "umap_ok (projectiles s)"
  shows "advance_frame (s, c) (s'', c'')"
proof -
  obtain rs where rs: "removedProjectileIds s' = removedProjectileIds s @ rs" "distinct rs"
    "set rs = dom (map_of (projectiles s)) - dom (map_of (projectiles s'))"
    by (rule advance_frame_removed [OF 1])
  obtain rs' where rs': "removedProjectileIds s'' = removedProjectileIds s' @ rs'" "distinct rs'"
    "set rs' = dom (map_of (projectiles s')) - dom (map_of (projectiles s''))"
    by (rule advance_frame_removed [OF 2])
  have dom: "dom (map_of (projectiles s')) \<subseteq> dom (map_of (projectiles s))"
    "dom (map_of (projectiles s'')) \<subseteq> dom (map_of (projectiles s'))"
    by (auto elim: advance_frame_projectile [OF 1] advance_frame_projectile [OF 2])
  have all: "set (rs @ rs') = dom (map_of (projectiles s)) - dom (map_of (projectiles s''))"
    using rs(3) rs'(3) dom by auto
  show ?thesis
  proof (rule advance_frameI [of _ _ _ _ "rs @ rs'"], goal_cases)
    case (8 i p)
    obtain h where h: "map_of (players s') i = Some (p\<lparr> hp := h \<rparr>)" "h \<le> hp p"
      "hp_ok (hp p) \<longrightarrow> hp_ok h" "i \<in> c' \<longleftrightarrow> i \<in> c \<or> h \<noteq> hp p"
      "h = hp p \<or> alive p \<and> px p \<noteq> NaN \<and> py p \<noteq> NaN \<and>
        (\<exists>n pr. map_of (projectiles s) n = Some pr \<and> map_of (projectiles s') n = None \<and> ownerId pr \<noteq> i)"
      by (rule advance_frame_player [OF 1 8])
    obtain h' where h': "map_of (players s'') i = Some (p\<lparr> hp := h' \<rparr>)" "h' \<le> h"
      "hp_ok h \<longrightarrow> hp_ok h'" "i \<in> c'' \<longleftrightarrow> i \<in> c' \<or> h' \<noteq> h"
      "h' = h \<or> alive (p\<lparr> hp := h \<rparr>) \<and> px p \<noteq> NaN \<and> py p \<noteq> NaN \<and>
        (\<exists>n pr. map_of (projectiles s') n = Some pr \<and> map_of (projectiles s'') n = None \<and> ownerId pr \<noteq> i)"
      using advance_frame_player [OF 2 h(1)] by (auto simp del: fun_upd_apply)
    have alive: "alive (p\<lparr> hp := h \<rparr>) \<Longrightarrow> alive p"
      using h(2) by (simp add: alive_def)
    have hit: "h' = hp p \<or> alive p \<and> px p \<noteq> NaN \<and> py p \<noteq> NaN \<and>
        (\<exists>n\<in>set (rs @ rs'). \<exists>pr. map_of (projectiles s) n = Some pr \<and> ownerId pr \<noteq> i)"
    proof (cases "h' = h")
      case True
      with h(5) dom(2) show ?thesis
        unfolding all by blast
    next
      case False
      with h'(5) obtain n pr where n: "map_of (projectiles s') n = Some pr"
        "map_of (projectiles s'') n = None" "ownerId pr \<noteq> i" by blast
      obtain pr0 where "map_of (projectiles s) n = Some pr0" "ownerId pr0 \<noteq> i"
        by (rule advance_frame_projectile [OF 1 n(1)]) (use n(3) in auto)
      then show ?thesis
        unfolding all using n(2) False h'(5) alive by blast
    qed
    show ?case
      using h h' hit by (intro exI [of _ h']) auto
  next
    case (9 n pr'')
    obtain pr' where pr': "map_of (projectiles s') n = Some pr'" "prId pr'' = prId pr'"
      "ownerId pr'' = ownerId pr'" "vx pr'' = vx pr'" "vy pr'' = vy pr'"
      by (rule advance_frame_projectile [OF 2 9])
    show ?case
      by (rule advance_frame_projectile [OF 1 pr'(1)]) (use pr' in auto)
  qed (use rs rs' all advance_frame_rest [OF 1] advance_frame_rest [OF 2] ok in auto)
qed

lemma advance_loop_frame:
  "ids_ok s \<Longrightarrow> advance_frame (s, c) (advance_loop dt ns (s, c))"
proof (induction ns arbitrary: s c)
  case Nil
  then show ?case
    by (auto simp: ids_ok_def intro!: advance_frameI [of _ _ _ _ "[]"] exI [of _ "hp _"])
next
  case (Cons n ns)
  obtain s' c' where one: "advance_one dt (s, c) n = (s', c')"
    by fastforce
  obtain s'' c'' where more: "advance_loop dt ns (s', c') = (s'', c'')"
    by fastforce
  have f: "advance_frame (s, c) (s', c')"
    using advance_one_frame [OF Cons.prems, of c dt n] one by simp
  with Cons show ?case
    using Cons.IH [OF advance_frame_ids [OF f Cons.prems], of c']
    by (auto simp: one more ids_ok_def intro: advance_frame_trans)
qed

lemma advance_loop_untouched:
  "n \<notin> set ns \<Longrightarrow>
   map_of (projectiles (fst (advance_loop dt ns sc))) n = map_of (projectiles (fst sc)) n"
proof (induction ns arbitrary: sc)
  case (Cons m ns)
  obtain s c where sc: "sc = (s, c)"
    by (cases sc)
  have "map_of (projectiles (fst (advance_one dt (s, c) m))) n = map_of (projectiles s) n"
    using Cons.prems by (cases rule: advance_one_cases [of s m dt c]) (auto simp: umap_simps)
  with Cons show ?case
    by (simp add: sc)
qed simp

subsection \<open>The invariant and the frame of a whole step\<close>

definition sim_inv :: "BattleSim \<Rightarrow> bool" where
  "sim_inv s \<longleftrightarrow> ids_ok s \<and>
     (\<forall>i p. map_of (players s) i = Some p \<longrightarrow> hp_ok (hp p)) \<and>
     (\<forall>n pr. map_of (projectiles s) n = Some pr \<longrightarrow>
        prId pr = n \<and> n < nextProjectileId s \<and> ownerId pr \<in> set (playerIds s))"

definition counter_room :: "BattleSim \<Rightarrow> bool" where
  "counter_room s \<longleftrightarrow> nextProjectileId s + length (players s) < 2 ^ 64"

text \<open>The states between the phases.\<close>

definition dt_of :: "nat \<Rightarrow> float32" where
  "dt_of dtMs = float_of_nat dtMs / Fin 1000"

definition after_move :: "BattleSim \<Rightarrow> nat \<Rightarrow> BattleSim" where
  "after_move s dtMs = s\<lparr> removedProjectileIds := [],
     players := decay dtMs (fst (move_loop (dt_of dtMs) (players s))) \<rparr>"

definition after_attack :: "(float32 \<Rightarrow> float32 \<Rightarrow> float32) \<Rightarrow> BattleSim \<Rightarrow> nat \<Rightarrow> BattleSim" where
  "after_attack hyp s dtMs = attack_loop hyp (playerIds s) (after_move s dtMs)"

lemma decay_keys [simp]: "map fst (decay dtMs ps) = map fst ps"
  by (simp add: decay_def)

lemma step_phases:
  "step hyp s dtMs =
     (case advance_loop (dt_of dtMs) (projectileIds s)
             (after_attack hyp s dtMs, snd (move_loop (dt_of dtMs) (players s))) of
        (s', c) \<Rightarrow> (sorted_list_of_set c, s'))"
  by (simp add: step_def dt_of_def after_attack_def after_move_def playerIds_def projectileIds_def
      case_prod_unfold Let_def)

definition moved :: "nat \<Rightarrow> P \<Rightarrow> P" where
  "moved dtMs p = (fst (move_one (dt_of dtMs) p))
     \<lparr> cdMs := std_max 0 (cdMs p - float_of_nat dtMs) \<rparr>"

lemma after_move_lookup:
  "map_of (players (after_move s dtMs)) i = map_option (moved dtMs) (map_of (players s) i)"
  by (cases "map_of (players s) i") (simp_all add: after_move_def decay_def umap_simps moved_def)

lemma after_move_keys [simp]: "map fst (players (after_move s dtMs)) = map fst (players s)"
  by (simp add: after_move_def)

lemma moved_frame [simp]:
  "pid (moved dtMs p) = pid p" "hp (moved dtMs p) = hp p" "seq (moved dtMs p) = seq p"
  "input (moved dtMs p) = input p" "hasInput (moved dtMs p) = hasInput p"
  "alive (moved dtMs p) = alive p"
  by (auto simp: moved_def alive_def)

lemma moved_cd: "cdMs (moved dtMs p) = std_max 0 (cdMs p - float_of_nat dtMs)"
  by (simp add: moved_def)

lemma sim_inv_projectile:
  "sim_inv s \<Longrightarrow> map_of (projectiles s) n = Some pr \<Longrightarrow> n < nextProjectileId s"
  unfolding sim_inv_def by blast

lemma after_attack_frame:
  "counter_room s \<Longrightarrow> attack_frame (after_move s dtMs) (after_attack hyp s dtMs) \<and>
   nextProjectileId (after_attack hyp s dtMs) \<le> nextProjectileId s + length (players s)"
  using attack_loop_frame [of "after_move s dtMs" "playerIds s" hyp]
  by (simp add: after_attack_def counter_room_def playerIds_def after_move_def)

lemma after_attack_ids:
  assumes "sim_inv s" "counter_room s"
  shows "ids_ok (after_attack hyp s dtMs)"
proof -
  note f = after_attack_frame [OF assms(2), THEN conjunct1, of dtMs hyp]
  have keys: "map fst (players (after_attack hyp s dtMs)) = map fst (players s)"
    using f by (simp add: attack_frame_def)
  have "pid q = i" if q: "map_of (players (after_attack hyp s dtMs)) i = Some q" for i q
  proof -
    obtain p where p: "map_of (players s) i = Some p"
      using same_keys_lookup [OF keys q] by blast
    then have "map_of (players (after_move s dtMs)) i = Some (moved dtMs p)"
      by (simp add: after_move_lookup)
    from attack_frame_player [OF f this] q have "pid q = pid p"
      by (metis P.select_convs(1) P.surjective P.update_convs(6) moved_frame(1) option.inject)
    then show ?thesis
      using assms(1) p by (simp add: sim_inv_def ids_ok_def)
  qed
  moreover have "umap_ok (projectiles (after_attack hyp s dtMs))"
    using f assms(1) by (simp add: attack_frame_def sim_inv_def ids_ok_def after_move_def)
  ultimately show ?thesis
    using assms(1) keys by (auto simp: sim_inv_def ids_ok_def umap_ok_def)
qed

text \<open>The projectiles of the start of the step are untouched by the attack phase.\<close>

lemma after_attack_old:
  assumes "counter_room s" "n < nextProjectileId s"
  shows "map_of (projectiles (after_attack hyp s dtMs)) n = map_of (projectiles s) n"
  using after_attack_frame [OF assms(1), of dtMs hyp] assms(2)
  by (simp add: attack_frame_def after_move_def)

lemma step_advance:
  assumes "sim_inv s" "counter_room s" "step hyp s dtMs = (ch, s')"
  obtains c where "ch = sorted_list_of_set c" "finite c"
    "advance_frame (after_attack hyp s dtMs, snd (move_loop (dt_of dtMs) (players s))) (s', c)"
    "\<forall>n. n \<notin> set (projectileIds s) \<longrightarrow>
       map_of (projectiles s') n = map_of (projectiles (after_attack hyp s dtMs)) n"
proof -
  let ?s = "after_attack hyp s dtMs" and ?c = "snd (move_loop (dt_of dtMs) (players s))"
  obtain c where c: "advance_loop (dt_of dtMs) (projectileIds s) (?s, ?c) = (s', c)"
    "ch = sorted_list_of_set c"
    using assms(3) by (auto simp: step_phases split: prod.splits)
  have f: "advance_frame (?s, ?c) (s', c)"
    using advance_loop_frame [OF after_attack_ids [OF assms(1,2)], of hyp dtMs ?c "dt_of dtMs" "projectileIds s"]
    by (simp only: c(1))
  show thesis
  proof (rule that [OF c(2) _ f])
    show "finite c"
      using advance_frame_rest(4) [OF f] by simp
    show "\<forall>n. n \<notin> set (projectileIds s) \<longrightarrow>
        map_of (projectiles s') n = map_of (projectiles ?s) n"
      using advance_loop_untouched [of _ "projectileIds s" "dt_of dtMs" "(?s, ?c)"] by (simp add: c(1))
  qed
qed

lemma step_player:
  assumes inv: "sim_inv s" "counter_room s" and st: "step hyp s dtMs = (ch, s')"
    and p: "map_of (players s) i = Some p"
  obtains cd h where "map_of (players s') i = Some ((moved dtMs p)\<lparr> cdMs := cd, hp := h \<rparr>)"
    "h \<le> hp p" "hp_ok h" "i \<in> set ch \<longleftrightarrow> snd (move_one (dt_of dtMs) p) \<or> h \<noteq> hp p"
    "h = hp p \<or> alive p \<and> px (moved dtMs p) \<noteq> NaN \<and> py (moved dtMs p) \<noteq> NaN \<and>
      (\<exists>n pr. map_of (projectiles s) n = Some pr \<and> map_of (projectiles s') n = None \<and> ownerId pr \<noteq> i)"
    "cd = cdMs (moved dtMs p) \<or> may_fire (moved dtMs p) \<and> cd = kAttackCd"
proof -
  obtain c where c: "ch = sorted_list_of_set c" "finite c"
    "advance_frame (after_attack hyp s dtMs, snd (move_loop (dt_of dtMs) (players s))) (s', c)"
    "\<forall>n. n \<notin> set (projectileIds s) \<longrightarrow>
       map_of (projectiles s') n = map_of (projectiles (after_attack hyp s dtMs)) n"
    by (rule step_advance [OF inv st])
  have "map_of (players (after_move s dtMs)) i = Some (moved dtMs p)"
    using p by (simp add: after_move_lookup)
  from attack_frame_player [OF after_attack_frame [OF inv(2), THEN conjunct1] this, of hyp]
  obtain cd where cd: "map_of (players (after_attack hyp s dtMs)) i = Some ((moved dtMs p)\<lparr> cdMs := cd \<rparr>)"
    "cd = cdMs (moved dtMs p) \<or> may_fire (moved dtMs p) \<and> cd = kAttackCd" .
  obtain h where h: "map_of (players s') i = Some ((moved dtMs p)\<lparr> cdMs := cd, hp := h \<rparr>)" "h \<le> hp p"
    "hp_ok (hp p) \<longrightarrow> hp_ok h"
    "i \<in> c \<longleftrightarrow> i \<in> snd (move_loop (dt_of dtMs) (players s)) \<or> h \<noteq> hp p"
    "h = hp p \<or> alive p \<and> px (moved dtMs p) \<noteq> NaN \<and> py (moved dtMs p) \<noteq> NaN \<and>
      (\<exists>n pr. map_of (projectiles (after_attack hyp s dtMs)) n = Some pr \<and>
         map_of (projectiles s') n = None \<and> ownerId pr \<noteq> i)"
    using advance_frame_player [OF c(3) cd(1)] by (auto simp: alive_def)
  have old: "map_of (projectiles s) n = Some pr"
    if "map_of (projectiles (after_attack hyp s dtMs)) n = Some pr" "map_of (projectiles s') n = None"
    for n pr
  proof -
    have "n \<in> set (projectileIds s)"
      using c(4) that by fastforce
    then have "n < nextProjectileId s"
      using inv(1) by (auto simp: projectileIds_def sim_inv_def ids_ok_def umap_ok_mem)
    then show ?thesis
      using after_attack_old [OF inv(2)] that by simp
  qed
  have hit: "h = hp p \<or> alive p \<and> px (moved dtMs p) \<noteq> NaN \<and> py (moved dtMs p) \<noteq> NaN \<and>
      (\<exists>n pr. map_of (projectiles s) n = Some pr \<and> map_of (projectiles s') n = None \<and> ownerId pr \<noteq> i)"
    using h(5) old by blast
  have ok: "umap_ok (players s)" "hp_ok (hp p)"
    using inv(1) p by (auto simp: sim_inv_def ids_ok_def)
  show thesis
  proof (rule that [OF h(1,2) _ _ hit cd(2)])
    show "i \<in> set ch \<longleftrightarrow> snd (move_one (dt_of dtMs) p) \<or> h \<noteq> hp p"
      using h(4) c(1,2) move_loop_changed [OF ok(1), of i "dt_of dtMs"] p by simp
  qed (use h(3) ok(2) in simp)
qed

lemma step_keys:
  assumes "sim_inv s" "counter_room s" "step hyp s dtMs = (ch, s')"
  shows "playerIds s' = playerIds s"
proof -
  obtain c where "advance_frame (after_attack hyp s dtMs, snd (move_loop (dt_of dtMs) (players s))) (s', c)"
    by (rule step_advance [OF assms])
  then show ?thesis
    using after_attack_frame [OF assms(2), of dtMs hyp]
    by (auto dest!: advance_frame_rest(1) simp: attack_frame_def playerIds_def)
qed

text \<open>Only players of the battle are reported.\<close>

lemma advance_loop_changed_ids:
  "ids_ok s \<Longrightarrow> snd (advance_loop dt ns (s, c)) \<subseteq> c \<union> set (playerIds s)"
proof (induction ns arbitrary: s c)
  case (Cons n ns)
  obtain s' c' where one: "advance_one dt (s, c) n = (s', c')"
    by fastforce
  have f: "advance_frame (s, c) (s', c')"
    using advance_one_frame [OF Cons.prems, of c dt n] one by simp
  have "c' \<subseteq> c \<union> set (playerIds s)"
    using one Cons.prems
    by (cases rule: advance_one_cases [of s n dt c])
       (auto simp: ids_ok_def playerIds_def umap_ok_mem dest: map_of_key)
  moreover have "playerIds s' = playerIds s"
    using advance_frame_rest(1) [OF f] by (simp add: playerIds_def)
  ultimately show ?case
    using Cons.IH [OF advance_frame_ids [OF f Cons.prems], of c'] by (auto simp: one)
qed simp

lemma step_changed_ids:
  assumes "sim_inv s" "counter_room s" "step hyp s dtMs = (ch, s')"
  shows "set ch \<subseteq> set (playerIds s)"
proof -
  let ?c = "snd (move_loop (dt_of dtMs) (players s))"
  obtain c where c: "advance_loop (dt_of dtMs) (projectileIds s) (after_attack hyp s dtMs, ?c) = (s', c)"
    "ch = sorted_list_of_set c"
    using assms(3) by (auto simp: step_phases split: prod.splits)
  have "umap_ok (players s)"
    using assms(1) by (simp add: sim_inv_def ids_ok_def)
  then have "?c \<subseteq> set (playerIds s)"
    by (auto simp: move_loop_changed playerIds_def dest!: map_of_key)
  moreover have "c \<subseteq> ?c \<union> set (playerIds (after_attack hyp s dtMs))"
    using advance_loop_changed_ids [OF after_attack_ids [OF assms(1,2), of hyp dtMs],
        of "dt_of dtMs" "projectileIds s" ?c] c(1)
    by simp
  moreover have "playerIds (after_attack hyp s dtMs) = playerIds s"
    using after_attack_frame [OF assms(2), of dtMs hyp] by (simp add: attack_frame_def playerIds_def)
  ultimately have "c \<subseteq> set (playerIds s)"
    by auto
  then show ?thesis
    using c(2) finite_subset [of c "set (playerIds s)"] by simp
qed

text \<open>The projectiles after a step: survivors of the start keep number, owner and velocity; the
  others are fresh shots of players who could fire; everything that vanished is reported once.\<close>

lemma step_projectile:
  assumes inv: "sim_inv s" "counter_room s" and st: "step hyp s dtMs = (ch, s')"
    and pr': "map_of (projectiles s') n = Some pr'"
  shows "(\<exists>pr. map_of (projectiles s) n = Some pr \<and> prId pr' = prId pr \<and> ownerId pr' = ownerId pr \<and>
            vx pr' = vx pr \<and> vy pr' = vy pr) \<or>
         nextProjectileId s \<le> n \<and> n < nextProjectileId s' \<and> prId pr' = n \<and>
            (\<exists>p. map_of (players s) (ownerId pr') = Some p \<and> may_fire (moved dtMs p))"
proof -
  obtain c where c: "advance_frame (after_attack hyp s dtMs, snd (move_loop (dt_of dtMs) (players s))) (s', c)"
    by (rule step_advance [OF inv st])
  note nx = advance_frame_rest(2) [OF c]
  obtain pr where pr: "map_of (projectiles (after_attack hyp s dtMs)) n = Some pr"
    "prId pr' = prId pr" "ownerId pr' = ownerId pr" "vx pr' = vx pr" "vy pr' = vy pr"
    by (rule advance_frame_projectile [OF c pr'])
  show ?thesis
  proof (cases "n < nextProjectileId s")
    case True
    with pr after_attack_old [OF inv(2) True, of hyp dtMs] show ?thesis
      by auto
  next
    case False
    then have "map_of (projectiles s) n = None"
      using inv(1) unfolding sim_inv_def by (metis not_None_eq)
    then have "n < nextProjectileId (after_attack hyp s dtMs) \<and> prId pr = n \<and>
      (\<exists>p. map_of (players (after_move s dtMs)) (ownerId pr) = Some p \<and> may_fire p)"
      using False pr(1)
      by (intro attack_frame_new [OF after_attack_frame [OF inv(2), THEN conjunct1]])
        (simp_all add: after_move_def)
    with False nx pr show ?thesis
      by (auto simp: after_move_lookup)
  qed
qed

lemma step_removed:
  assumes inv: "sim_inv s" "counter_room s" and st: "step hyp s dtMs = (ch, s')"
  shows "distinct (removedProjectileIds s')"
    "set (removedProjectileIds s') = set (projectileIds s) - set (projectileIds s')"
proof -
  obtain c where c: "advance_frame (after_attack hyp s dtMs, snd (move_loop (dt_of dtMs) (players s))) (s', c)"
    "\<forall>n. n \<notin> set (projectileIds s) \<longrightarrow>
       map_of (projectiles s') n = map_of (projectiles (after_attack hyp s dtMs)) n"
    by (rule step_advance [OF inv st])
  obtain rs where rs: "removedProjectileIds s' = removedProjectileIds (after_attack hyp s dtMs) @ rs"
    "distinct rs"
    "set rs = dom (map_of (projectiles (after_attack hyp s dtMs))) - dom (map_of (projectiles s'))"
    by (rule advance_frame_removed [OF c(1)])
  have r: "removedProjectileIds s' = rs"
    using rs(1) after_attack_frame [OF inv(2), of dtMs hyp]
    by (simp add: attack_frame_def after_move_def)
  have ids: "set (projectileIds u) = dom (map_of (projectiles u))" for u
    by (simp add: projectileIds_def dom_map_of_conv_image_fst)
  have "n \<in> dom (map_of (projectiles (after_attack hyp s dtMs))) \<longleftrightarrow> n \<in> dom (map_of (projectiles s))"
    if "n \<notin> dom (map_of (projectiles s'))" for n
  proof (cases "n \<in> dom (map_of (projectiles s))")
    case True
    then have "n < nextProjectileId s"
      using inv(1) by (auto simp: sim_inv_def)
    then show ?thesis
      using after_attack_old [OF inv(2), of n hyp dtMs] True by (simp add: domIff)
  next
    case False
    then show ?thesis
      using c(2) that by (simp add: ids domIff)
  qed
  then show "set (removedProjectileIds s') = set (projectileIds s) - set (projectileIds s')"
    unfolding r rs(3) ids by blast
  show "distinct (removedProjectileIds s')"
    using r rs(2) by simp
qed

lemma step_inv:
  assumes inv: "sim_inv s" "counter_room s" and st: "step hyp s dtMs = (ch, s')"
  shows "sim_inv s'"
proof -
  obtain c where c: "advance_frame (after_attack hyp s dtMs, snd (move_loop (dt_of dtMs) (players s))) (s', c)"
    by (rule step_advance [OF inv st])
  note keys = step_keys [OF inv st]
  have hp: "hp_ok (hp q)" if q: "map_of (players s') i = Some q" for i q
  proof -
    obtain p where p: "map_of (players s) i = Some p"
      using same_keys_lookup [OF keys [unfolded playerIds_def] q] by blast
    show ?thesis
      by (rule step_player [OF inv st p]) (use q in simp)
  qed
  have le: "nextProjectileId s \<le> nextProjectileId s'"
    using advance_frame_rest(2) [OF c] after_attack_frame [OF inv(2), of dtMs hyp]
    by (simp add: attack_frame_def after_move_def)
  have "prId pr' = n \<and> n < nextProjectileId s' \<and> ownerId pr' \<in> set (playerIds s')"
    if pr': "map_of (projectiles s') n = Some pr'" for n pr'
    using step_projectile [OF inv st pr']
  proof (elim disjE exE conjE)
    fix pr
    assume "map_of (projectiles s) n = Some pr" "prId pr' = prId pr" "ownerId pr' = ownerId pr"
    moreover from this have "prId pr = n \<and> n < nextProjectileId s \<and> ownerId pr \<in> set (playerIds s)"
      using inv(1) by (simp add: sim_inv_def)
    ultimately show ?thesis
      using le by (simp add: keys)
  next
    fix p
    assume "n < nextProjectileId s'" "prId pr' = n" "map_of (players s) (ownerId pr') = Some p"
    moreover from this(3) have "ownerId pr' \<in> set (playerIds s)"
      by (auto simp: playerIds_def dest: map_of_SomeD intro: rev_image_eqI)
    ultimately show ?thesis
      by (simp add: keys)
  qed
  then show ?thesis
    using hp advance_frame_ids [OF c after_attack_ids [OF inv]] by (simp add: sim_inv_def)
qed

subsection \<open>Battles as Room runs them\<close>

definition spawn :: "float32 \<Rightarrow> float32 \<Rightarrow> bool" where
  "spawn x y \<longleftrightarrow> x \<in> {Fin 30, Fin 70} \<and> y = Fin 50"

text \<open>The states of a battle: players enter at the spawn points, inputs satisfy \<open>I\<close>, and the
  clock is the 50 ms tick. The projectile counter is assumed not to reach its 64-bit limit.\<close>

inductive battle ::
  "(float32 \<Rightarrow> float32 \<Rightarrow> float32) \<Rightarrow> (PlayerInput \<Rightarrow> bool) \<Rightarrow> BattleSim \<Rightarrow> bool"
  for hyp I where
  battle_new: "battle hyp I newBattleSim"
| battle_add: "battle hyp I s \<Longrightarrow> spawn x y \<Longrightarrow> battle hyp I (addPlayer s i x y)"
| battle_input: "battle hyp I s \<Longrightarrow> I inp \<Longrightarrow> battle hyp I (applyInput s i inp)"
| battle_step: "battle hyp I s \<Longrightarrow> counter_room s \<Longrightarrow> step hyp s 50 = (ch, s') \<Longrightarrow> battle hyp I s'"
| battle_take: "battle hyp I s \<Longrightarrow> battle hyp I (snd (takeRemovedProjectileIds s))"

lemma applyInput_lookup:
  "map_of (players (applyInput s i inp)) j =
     (if j = i then map_option (\<lambda>p. p\<lparr> input := inp, hasInput := True, seq := in_seq inp \<rparr>)
                      (map_of (players s) i)
      else map_of (players s) j)"
  by (auto simp: applyInput_def umap_simps split: option.splits)

lemma applyInput_keys [simp]: "playerIds (applyInput s i inp) = playerIds s"
  by (auto simp: applyInput_def playerIds_def keys_update_same split: option.splits)

lemma applyInput_rest [simp]:
  "projectiles (applyInput s i inp) = projectiles s"
  "nextProjectileId (applyInput s i inp) = nextProjectileId s"
  by (auto simp: applyInput_def split: option.splits)

lemma applyInput_inv: "sim_inv s \<Longrightarrow> sim_inv (applyInput s i inp)"
proof -
  assume s: "sim_inv s"
  have "umap_ok (players (applyInput s i inp))"
    using s applyInput_keys [of s i inp]
    by (simp add: sim_inv_def ids_ok_def umap_ok_def playerIds_def)
  then show ?thesis
    using s by (auto simp: sim_inv_def ids_ok_def applyInput_lookup split: if_splits)
qed

lemma addPlayer_lookup:
  "map_of (players (addPlayer s i x y)) j =
     (if j = i then Some \<lparr> pid = i, px = x, py = y, hp = kMaxHp, seq = 0, cdMs = 0,
        facingX = (if x \<le> kArena * Fin (1 / 2) then Fin 1 else - Fin 1), facingY = 0,
        input = noInput, hasInput = False \<rparr>
      else map_of (players s) j)"
  by (simp add: addPlayer_def umap_simps)

lemma addPlayer_inv: "sim_inv s \<Longrightarrow> sim_inv (addPlayer s i x y)"
  by (auto simp: sim_inv_def ids_ok_def addPlayer_lookup hp_ok_def kMaxHp_def)
     (auto simp: addPlayer_def playerIds_def keys_update)

lemma newBattleSim_inv: "sim_inv newBattleSim"
  by (simp add: newBattleSim_def sim_inv_def ids_ok_def)

lemma battle_sim_inv: "battle hyp I s \<Longrightarrow> sim_inv s"
proof (induction rule: battle.induct)
  case (battle_step s ch s')
  then show ?case
    by (auto intro: step_inv)
next
  case (battle_take s)
  then show ?case
    by (simp add: takeRemovedProjectileIds_def sim_inv_def ids_ok_def playerIds_def)
qed (simp_all add: addPlayer_inv applyInput_inv newBattleSim_inv)

text \<open>Two armed players at their spawn points, for concrete runs.\<close>

definition fire_input :: PlayerInput where
  "fire_input = \<lparr> in_seq = 1, move_x = 0, move_y = 0, attack = True \<rparr>"

definition duel :: BattleSim where
  "duel = applyInput (applyInput (addPlayer (addPlayer newBattleSim 1 (Fin 30) (Fin 50))
     2 (Fin 70) (Fin 50)) 1 fire_input) 2 fire_input"

lemma duel_battle: "I fire_input \<Longrightarrow> battle hyp I duel"
  unfolding duel_def by (intro battle.intros) (auto simp: spawn_def)

lemma duel_state:
  "players duel =
     [(1, \<lparr> pid = 1, px = Fin 30, py = Fin 50, hp = 100, seq = 1, cdMs = 0,
         facingX = Fin 1, facingY = 0, input = fire_input, hasInput = True \<rparr>),
      (2, \<lparr> pid = 2, px = Fin 70, py = Fin 50, hp = 100, seq = 1, cdMs = 0,
         facingX = - Fin 1, facingY = 0, input = fire_input, hasInput = True \<rparr>)]"
  "projectiles duel = []" "nextProjectileId duel = 1"
  by code_simp+

lemma duel_room [simp]: "counter_room duel"
  by (simp add: counter_room_def duel_state)

lemma duel_players_cases:
  "map_of (players duel) i = Some p \<Longrightarrow> px p \<noteq> NaN \<and> py p \<noteq> NaN \<and> alive p \<and> cdMs p = 0"
  by (auto simp: duel_state alive_def split: if_splits)

lemma step_keeps_player:
  assumes "sim_inv s" "counter_room s" "step hyp s dtMs = (ch, s')" "map_of (players s) i = Some p"
  shows "\<exists>p'. map_of (players s') i = Some p'"
  by (rule step_player [OF assms]) blast

lemma duel_after:
  "step hypot_exact duel 50 = (ch, s') \<Longrightarrow> \<exists>p'. map_of (players s') 1 = Some p'"
  by (rule step_keeps_player [OF battle_sim_inv [OF duel_battle [of "\<lambda>_. True"]] duel_room])
     (simp_all add: duel_state)

text \<open>
  C26. Every state of a battle is well formed: one entry per player and per projectile, stored
  under its own number; hit points are one of 0, 25, 50, 75 and 100; every projectile number is
  below the counter, so numbers are never reused, and every projectile belongs to a player of
  the battle.
\<close>

theorem battle_invariant:
  assumes "battle hyp I s"
  shows "distinct (playerIds s) \<and> distinct (projectileIds s) \<and>
    (\<forall>i p. map_of (players s) i = Some p \<longrightarrow> pid p = i \<and> hp p \<in> {0, 25, 50, 75, 100}) \<and>
    (\<forall>n pr. map_of (projectiles s) n = Some pr \<longrightarrow>
       prId pr = n \<and> n < nextProjectileId s \<and> ownerId pr \<in> set (playerIds s))"
  using battle_sim_inv [OF assms]
  by (auto simp: sim_inv_def ids_ok_def umap_ok_def playerIds_def projectileIds_def hp_ok_def)

theorem battle_invariant_witness:
  "distinct (playerIds duel) \<and> distinct (projectileIds duel) \<and>
   hp (snd (hd (players duel))) \<in> {0, 25, 50, 75, 100}"
proof -
  have "map_of (players duel) 1 = Some (snd (hd (players duel)))"
    by (simp add: duel_state)
  with battle_invariant [OF duel_battle [of "\<lambda>_. True" hypot_exact, OF TrueI]] show ?thesis
    by blast
qed

text \<open>
  The list that \<open>step\<close> returns is exact: as long as no position is NaN it holds, in
  ascending order and once each, exactly the players whose position or hit points the step
  changed, so a client that applies the deltas has the server's state.
\<close>

theorem step_changed_exact:
  assumes "battle hyp I s" "counter_room s" "step hyp s dtMs = (changed, s')"
    and "\<forall>i p. map_of (players s) i = Some p \<longrightarrow> px p \<noteq> NaN \<and> py p \<noteq> NaN"
  shows "sorted changed \<and> distinct changed \<and> playerIds s' = playerIds s \<and>
    (\<forall>i p p'. map_of (players s) i = Some p \<longrightarrow> map_of (players s') i = Some p' \<longrightarrow>
       (i \<in> set changed \<longleftrightarrow> px p' \<noteq> px p \<or> py p' \<noteq> py p \<or> hp p' \<noteq> hp p))"
proof -
  note inv = battle_sim_inv [OF assms(1)]
  obtain c where "changed = sorted_list_of_set c"
    by (rule step_advance [OF inv assms(2,3)])
  moreover have "i \<in> set changed \<longleftrightarrow> px p' \<noteq> px p \<or> py p' \<noteq> py p \<or> hp p' \<noteq> hp p"
    if p: "map_of (players s) i = Some p" and p': "map_of (players s') i = Some p'" for i p p'
  proof -
    have fin: "px p \<noteq> NaN" "py p \<noteq> NaN"
      using assms(4) p by auto
    show ?thesis
      by (rule step_player [OF inv assms(2,3) p])
        (use p' fin move_one_moved [of "dt_of dtMs" p] move_one_still [of "dt_of dtMs" p] in
          \<open>auto simp: moved_def\<close>)
  qed
  ultimately show ?thesis
    using step_keys [OF inv assms(2,3)] by auto
qed

theorem step_changed_exact_witness:
  "(let (changed, s') = step hypot_exact duel 50 in
     sorted changed \<and> distinct changed \<and> playerIds s' = [1, 2])"
proof -
  obtain ch s' where st: "step hypot_exact duel 50 = (ch, s')"
    by fastforce
  have "playerIds duel = [1, 2]"
    by (simp add: playerIds_def duel_state)
  then show ?thesis
    using step_changed_exact [OF duel_battle [of "\<lambda>_. True" hypot_exact, OF TrueI] duel_room st]
      duel_players_cases by (simp add: st)
qed

text \<open>
  C28. Projectile book-keeping of a step: the list of removed numbers holds, once each, exactly
  the projectiles that existed before the step and are gone after it; a projectile that is
  there before and after keeps its owner and velocity; every other one carries a fresh number
  and was fired in this step by a living player who holds the attack key and whose cooldown
  has run out.
\<close>

theorem step_projectiles_accounted:
  assumes "battle hyp I s" "counter_room s" "step hyp s dtMs = (changed, s')"
  shows "distinct (removedProjectileIds s') \<and>
    set (removedProjectileIds s') = set (projectileIds s) - set (projectileIds s') \<and>
    (\<forall>n pr'. map_of (projectiles s') n = Some pr' \<longrightarrow>
       (\<exists>pr. map_of (projectiles s) n = Some pr \<and> ownerId pr' = ownerId pr \<and>
             vx pr' = vx pr \<and> vy pr' = vy pr) \<or>
       nextProjectileId s \<le> n \<and> n < nextProjectileId s' \<and>
       (\<exists>p. map_of (players s) (ownerId pr') = Some p \<and> alive p \<and> hasInput p \<and> attack (input p) \<and>
            \<not> 0 < std_max 0 (cdMs p - float_of_nat dtMs)))"
proof -
  note inv = battle_sim_inv [OF assms(1)]
  have "(\<exists>pr. map_of (projectiles s) n = Some pr \<and> ownerId pr' = ownerId pr \<and>
             vx pr' = vx pr \<and> vy pr' = vy pr) \<or>
       nextProjectileId s \<le> n \<and> n < nextProjectileId s' \<and>
       (\<exists>p. map_of (players s) (ownerId pr') = Some p \<and> alive p \<and> hasInput p \<and> attack (input p) \<and>
            \<not> 0 < std_max 0 (cdMs p - float_of_nat dtMs))"
    if "map_of (projectiles s') n = Some pr'" for n pr'
    using step_projectile [OF inv assms(2,3) that]
    by (auto simp: may_fire_def moved_cd)
  then show ?thesis
    using step_removed [OF inv assms(2,3)] by blast
qed

theorem step_projectiles_accounted_witness:
  "(let (changed, s') = step hypot_exact duel 50 in
     distinct (removedProjectileIds s') \<and>
     set (removedProjectileIds s') = set (projectileIds duel) - set (projectileIds s'))"
proof -
  obtain ch s' where st: "step hypot_exact duel 50 = (ch, s')"
    by fastforce
  show ?thesis
    using step_projectiles_accounted [OF duel_battle [of "\<lambda>_. True" hypot_exact, OF TrueI] duel_room st]
    by (simp add: st)
qed



subsection \<open>Positions\<close>

definition in_arena :: "P \<Rightarrow> bool" where
  "in_arena p \<longleftrightarrow> (\<exists>x y. px p = Fin x \<and> py p = Fin y \<and> 0 \<le> x \<and> x \<le> 100 \<and> 0 \<le> y \<and> y \<le> 100)"

fun is_finite :: "float32 \<Rightarrow> bool" where
  "is_finite (Fin x) = True"
| "is_finite _ = False"

definition finite_input :: "PlayerInput \<Rightarrow> bool" where
  "finite_input inp \<longleftrightarrow> is_finite (move_x inp) \<and> is_finite (move_y inp)"

lemma dt_50: "dt_of 50 = Fin (13421773 / 268435456)"
  unfolding dt_of_def by code_simp

text \<open>A finite direction, scaled by anything but NaN below, gives a displacement that is not NaN.\<close>

lemma displacement_not_NaN:
  assumes "is_finite m" "is_finite x" "Fin 1 < len"
  shows "x + m * kSpeed * dt_of 50 \<noteq> NaN" "x + (m / len) * kSpeed * dt_of 50 \<noteq> NaN"
proof -
  obtain u v where uv: "m = Fin u" "x = Fin v"
    using assms(1,2) by (cases m; cases x) auto
  have scale: "a * kSpeed * dt_of 50 \<noteq> NaN" if "a \<noteq> NaN" for a
  proof (cases a)
    case (Fin r)
    then show ?thesis
      by (cases "round32 (r * 20)") (auto simp: kSpeed_def dt_50)
  qed (use that in \<open>auto simp: kSpeed_def dt_50\<close>)
  have add: "Fin v + b \<noteq> NaN" if "b \<noteq> NaN" for b
    using that by (cases b) auto
  have "Fin u / len \<noteq> NaN"
    using assms(3) by (cases len) auto
  then show "x + m * kSpeed * dt_of 50 \<noteq> NaN" "x + (m / len) * kSpeed * dt_of 50 \<noteq> NaN"
    using scale add by (simp_all add: uv)
qed

lemma displacement_not_NaN':
  "is_finite m \<Longrightarrow> is_finite x \<Longrightarrow> x + m * kSpeed * dt_of 50 \<noteq> NaN"
  by (rule displacement_not_NaN(1) [of _ _ "Fin 2"]) auto

lemma clamp_arena:
  "v \<noteq> NaN \<Longrightarrow> \<exists>z. std_clamp v 0 kArena = Fin z \<and> 0 \<le> z \<and> z \<le> 100"
  using clamp_range(2) [of 0 100 v] by (simp add: zero_float32_def kArena_def)

lemma move_one_arena:
  assumes "in_arena p" "finite_input (input p)"
  shows "in_arena (fst (move_one (dt_of 50) p))"
proof -
  have fin: "is_finite (px p)" "is_finite (py p)" "is_finite (move_x (input p))" "is_finite (move_y (input p))"
    using assms by (auto simp: in_arena_def finite_input_def)
  note clamps = clamp_arena [OF displacement_not_NaN' [OF fin(3,1)]] clamp_arena [OF displacement_not_NaN' [OF fin(4,2)]]
    clamp_arena [OF displacement_not_NaN(2) [OF fin(3,1)]] clamp_arena [OF displacement_not_NaN(2) [OF fin(4,2)]]
  show ?thesis
  proof (cases "snd (move_one (dt_of 50) p)")
    case True
    define len where "len = fsqrt (move_x (input p) * move_x (input p) + move_y (input p) * move_y (input p))"
    define mx where "mx = (if Fin 1 < len then move_x (input p) / len else move_x (input p))"
    define my where "my = (if Fin 1 < len then move_y (input p) / len else move_y (input p))"
    have "px (fst (move_one (dt_of 50) p)) = std_clamp (px p + mx * kSpeed * dt_of 50) 0 kArena"
      "py (fst (move_one (dt_of 50) p)) = std_clamp (py p + my * kSpeed * dt_of 50) 0 kArena"
      using True by (auto simp: move_one_def Let_def mx_def my_def len_def split: if_splits)
    moreover have "\<exists>z. std_clamp (px p + mx * kSpeed * dt_of 50) 0 kArena = Fin z \<and> 0 \<le> z \<and> z \<le> 100"
      "\<exists>z. std_clamp (py p + my * kSpeed * dt_of 50) 0 kArena = Fin z \<and> 0 \<le> z \<and> z \<le> 100"
      using clamps by (auto simp: mx_def my_def)
    ultimately show ?thesis
      by (auto simp: in_arena_def)
  next
    case False
    then show ?thesis
      using assms(1) move_one_still [OF False] by (simp add: in_arena_def)
  qed
qed

lemma in_arena_frame [simp]:
  "in_arena (p\<lparr> cdMs := c \<rparr>) = in_arena p" "in_arena (p\<lparr> hp := h \<rparr>) = in_arena p"
  by (simp_all add: in_arena_def)

lemma step_lookup_back:
  assumes "sim_inv s" "counter_room s" "step hyp s dtMs = (ch, s')" "map_of (players s') i = Some p'"
  obtains p cd h where "map_of (players s) i = Some p"
    "p' = (moved dtMs p)\<lparr> cdMs := cd, hp := h \<rparr>" "h \<le> hp p"
    "cd = cdMs (moved dtMs p) \<or> may_fire (moved dtMs p) \<and> cd = kAttackCd"
    "h = hp p \<or> px (moved dtMs p) \<noteq> NaN \<and> py (moved dtMs p) \<noteq> NaN"
proof -
  obtain p where p: "map_of (players s) i = Some p"
    using same_keys_lookup step_keys [OF assms(1-3)] assms(4) by (metis playerIds_def)
  show thesis
    by (rule step_player [OF assms(1-3) p]) (use assms(4) p that in auto)
qed

text \<open>
  C27. With finite inputs no player ever leaves the arena: in every state of a battle whose
  inputs have finite move vectors, of whatever length, every player has a finite position in
  [0, 100] x [0, 100], in spite of rounding, overflow to infinity and division.
\<close>

theorem battle_stays_in_arena:
  assumes "battle hyp finite_input s" "map_of (players s) i = Some p"
  shows "in_arena p"
proof -
  have "\<forall>i p. map_of (players s) i = Some p \<longrightarrow> in_arena p \<and> finite_input (input p)"
    using assms(1)
  proof induction
    case (battle_step s ch s')
    have "in_arena p' \<and> finite_input (input p')" if p': "map_of (players s') i = Some p'" for i p'
      by (rule step_lookup_back [OF battle_sim_inv [OF battle_step(1)] battle_step(2,3) p'])
        (use battle_step(4) move_one_arena in \<open>auto simp: moved_def\<close>)
    then show ?case
      by blast
  qed (auto simp: newBattleSim_def addPlayer_lookup applyInput_lookup takeRemovedProjectileIds_def
      spawn_def in_arena_def finite_input_def noInput_def zero_float32_def split: if_splits)
  then show ?thesis
    using assms(2) by blast
qed

theorem battle_stays_in_arena_witness:
  "in_arena \<lparr> pid = 1, px = Fin 30, py = Fin 50, hp = 100, seq = 1, cdMs = 0,
     facingX = Fin 1, facingY = 0, input = fire_input, hasInput = True \<rparr>"
proof (rule battle_stays_in_arena)
  show "battle hypot_exact finite_input duel"
    by (rule duel_battle) (simp add: finite_input_def fire_input_def zero_float32_def)
  show "map_of (players duel) 1 = Some \<lparr> pid = 1, px = Fin 30, py = Fin 50, hp = 100, seq = 1, cdMs = 0,
     facingX = Fin 1, facingY = 0, input = fire_input, hasInput = True \<rparr>"
    by (simp add: duel_state)
qed

text \<open>
  C39. The move vector of a client is not checked for NaN: the comparisons with the tiny and the
  unit length are false, the clamp passes NaN through, and one tick puts the player at NaN.
  From then on every step keeps a NaN coordinate, and no step takes a hit point from that
  player: the hit test compares with NaN.
\<close>

theorem nan_input_makes_invulnerable:
  assumes "battle hyp I s" "counter_room s" "step hyp s 50 = (changed, s')"
    and "map_of (players s) i = Some p" "map_of (players s') i = Some p'"
  shows "(alive p \<and> hasInput p \<and> move_x (input p) = NaN \<longrightarrow> px p' = NaN) \<and>
    (px p = NaN \<longrightarrow> px p' = NaN \<and> hp p' = hp p)"
proof -
  obtain cd h where h: "p' = (moved 50 p)\<lparr> cdMs := cd, hp := h \<rparr>"
    "h = hp p \<or> px (moved 50 p) \<noteq> NaN"
    by (rule step_lookup_back [OF battle_sim_inv [OF assms(1)] assms(2,3,5)]) (use assms(4) in auto)
  have moved: "px (moved 50 p) = px (fst (move_one (dt_of 50) p))"
    by (simp add: moved_def)
  have keep: "px p = NaN \<Longrightarrow> px (fst (move_one (dt_of 50) p)) = NaN"
    by (auto simp: move_one_def Let_def)
  have poison: "alive p \<Longrightarrow> hasInput p \<Longrightarrow> move_x (input p) = NaN \<Longrightarrow>
      px (fst (move_one (dt_of 50) p)) = NaN"
    by (auto simp: move_one_def Let_def)
  show ?thesis
    using h keep poison by (auto simp: moved)
qed

definition nan_input :: PlayerInput where
  "nan_input = \<lparr> in_seq = 2, move_x = NaN, move_y = 0, attack = False \<rparr>"

theorem nan_input_makes_invulnerable_witness:
  "(let s = applyInput duel 1 nan_input; (changed, s') = step hypot_exact s 50 in
      px (the (map_of (players s') 1)) = NaN)"
proof -
  let ?s = "applyInput duel 1 nan_input"
  let ?p = "(the (map_of (players duel) 1))\<lparr> input := nan_input, hasInput := True, seq := 2 \<rparr>"
  obtain ch s' where st: "step hypot_exact ?s 50 = (ch, s')"
    by fastforce
  have b: "battle hypot_exact (\<lambda>_. True) ?s"
    by (intro battle_input duel_battle) simp_all
  have p: "map_of (players ?s) 1 = Some ?p"
    by (simp add: applyInput_lookup duel_state nan_input_def)
  have room: "counter_room ?s"
    using duel_room applyInput_keys [of duel 1 nan_input, THEN arg_cong, of length]
    by (simp add: counter_room_def playerIds_def)
  obtain p' where p': "map_of (players s') 1 = Some p'"
    using step_keeps_player [OF battle_sim_inv [OF b] room st p] by blast
  from nan_input_makes_invulnerable [OF b room st p p'] have "px p' = NaN"
    by (simp add: alive_def duel_state nan_input_def)
  then show ?thesis
    by (simp only: Let_def st prod.case p' option.sel)
qed

subsection \<open>The outcome\<close>

lemma winner_fold:
  "foldl (\<lambda>(n, l) (i, p). if alive p then (n + 1, i) else (n, l)) (n, l) ps =
     (n + length (filter (\<lambda>(i, p). alive p) ps),
      last (l # map fst (filter (\<lambda>(i, p). alive p) ps)))"
  by (induction ps arbitrary: n l) auto

lemma winnerOrZero_survivors:
  "winnerOrZero s = (case filter (\<lambda>(i, p). alive p) (players s) of [(i, p)] \<Rightarrow> i | _ \<Rightarrow> 0)"
  by (auto simp: winnerOrZero_def winner_fold split: list.splits)

lemma single_key:
  assumes "distinct (map fst xs)" "x \<in> set xs" "\<forall>y\<in>set xs. fst y = fst x"
  shows "xs = [x]"
proof -
  have "inj_on fst (set xs)" "distinct xs"
    using assms(1) by (auto simp: distinct_map)
  have "y = x" if "y \<in> set xs" for y
    using inj_onD [OF \<open>inj_on fst (set xs)\<close>, of y x] assms(2,3) that by blast
  with assms(2) have "set xs = {x}"
    by blast
  with \<open>distinct xs\<close> have "length xs = 1"
    using distinct_card [of xs] by simp
  then obtain z where "xs = [z]"
    by (metis One_nat_def length_0_conv length_Suc_conv)
  with \<open>set xs = {x}\<close> show ?thesis
    by simp
qed

text \<open>
  \<open>winnerOrZero\<close> names a winner exactly when one player is left alive, and then it is that
  player (player numbers start at 1).
\<close>

theorem winner_is_sole_survivor:
  assumes "battle hyp I s" "0 \<notin> set (playerIds s)"
  shows "w \<noteq> 0 \<and> winnerOrZero s = w \<longleftrightarrow>
    (\<exists>p. map_of (players s) w = Some p \<and> alive p) \<and>
    (\<forall>i p. map_of (players s) i = Some p \<longrightarrow> alive p \<longrightarrow> i = w)"
proof -
  let ?L = "filter (\<lambda>(i, p). alive p) (players s)"
  have ok: "umap_ok (players s)"
    using battle_sim_inv [OF assms(1)] by (simp add: sim_inv_def ids_ok_def)
  have L: "(i, p) \<in> set ?L \<longleftrightarrow> map_of (players s) i = Some p \<and> alive p" for i p
    using umap_ok_mem [OF ok] by auto
  have single: "?L = [(w, p)]" if "(w, p) \<in> set ?L" "\<forall>x\<in>set ?L. fst x = w" for p
    using that ok by (intro single_key) (auto simp: umap_ok_def distinct_map_filter)
  have pos: "(i, p) \<in> set ?L \<Longrightarrow> i \<noteq> 0" for i p
    using assms(2) by (force simp: playerIds_def)
  show ?thesis
  proof
    assume w: "w \<noteq> 0 \<and> winnerOrZero s = w"
    then obtain p where "?L = [(w, p)]"
      by (auto simp: winnerOrZero_survivors split: list.splits)
    then have "set ?L = {(w, p)}"
      by (simp only: list.set)
    then show "(\<exists>p. map_of (players s) w = Some p \<and> alive p) \<and>
        (\<forall>i p. map_of (players s) i = Some p \<longrightarrow> alive p \<longrightarrow> i = w)"
      using L by (metis Pair_inject singleton_iff)
  next
    assume r: "(\<exists>p. map_of (players s) w = Some p \<and> alive p) \<and>
        (\<forall>i p. map_of (players s) i = Some p \<longrightarrow> alive p \<longrightarrow> i = w)"
    then obtain p where p: "(w, p) \<in> set ?L"
      using L by blast
    have "\<forall>x\<in>set ?L. fst x = w"
      using r L by (metis prod.collapse)
    from single [OF p this] pos [OF p] show "w \<noteq> 0 \<and> winnerOrZero s = w"
      by (simp add: winnerOrZero_survivors)
  qed
qed

theorem winner_is_sole_survivor_witness:
  "winnerOrZero duel \<noteq> 1"
proof -
  have "\<not> (\<forall>i p. map_of (players duel) i = Some p \<longrightarrow> alive p \<longrightarrow> i = 1)"
    by (intro notI, drule spec [of _ 2], simp add: duel_state alive_def)
  moreover have "0 \<notin> set (playerIds duel)"
    by (simp add: playerIds_def duel_state)
  ultimately show ?thesis
    using winner_is_sole_survivor [OF duel_battle [of "\<lambda>_. True" hypot_exact, OF TrueI], of 1] by simp
qed

text \<open>The rest of a battle: further inputs and ticks.\<close>

inductive continues ::
  "(float32 \<Rightarrow> float32 \<Rightarrow> float32) \<Rightarrow> BattleSim \<Rightarrow> BattleSim \<Rightarrow> bool" for hyp where
  continues_refl: "continues hyp s s"
| continues_input: "continues hyp s s' \<Longrightarrow> continues hyp s (applyInput s' i inp)"
| continues_step: "continues hyp s s' \<Longrightarrow> counter_room s' \<Longrightarrow> step hyp s' 50 = (ch, s'') \<Longrightarrow>
    continues hyp s (snd (takeRemovedProjectileIds s''))"

lemma takeRemoved_rest [simp]:
  "players (snd (takeRemovedProjectileIds s)) = players s"
  "projectiles (snd (takeRemovedProjectileIds s)) = projectiles s"
  "nextProjectileId (snd (takeRemovedProjectileIds s)) = nextProjectileId s"
  "sim_inv (snd (takeRemovedProjectileIds s)) = sim_inv s"
  by (simp_all add: takeRemovedProjectileIds_def sim_inv_def ids_ok_def playerIds_def)

lemma continues_inv: "continues hyp s s' \<Longrightarrow> sim_inv s \<Longrightarrow> sim_inv s'"
  by (induction rule: continues.induct) (auto intro: applyInput_inv step_inv)

text \<open>
  C40. A double knockout is final. When nobody is alive, then after any further inputs and ticks
  nobody is alive and \<open>winnerOrZero\<close> is still 0: a room that waits for a winner never ends by
  itself.
\<close>

theorem double_knockout_is_final:
  assumes "sim_inv s" "\<forall>i p. map_of (players s) i = Some p \<longrightarrow> \<not> alive p" "continues hyp s s'"
  shows "(\<forall>i p. map_of (players s') i = Some p \<longrightarrow> \<not> alive p) \<and> winnerOrZero s' = 0"
proof -
  have dead: "\<forall>i p. map_of (players s') i = Some p \<longrightarrow> \<not> alive p"
    using assms(3,1,2)
  proof induction
    case (continues_step s s' ch s'')
    have "\<not> alive p'" if p': "map_of (players s'') i = Some p'" for i p'
      by (rule step_lookup_back [OF continues_inv [OF continues_step(1,5)] continues_step(2,3) p'])
        (use continues_step(4-6) in \<open>force simp: alive_def\<close>)
    then show ?case
      by simp
  qed (auto simp: applyInput_lookup alive_def split: if_splits)
  have "sim_inv s'"
    by (rule continues_inv [OF assms(3,1)])
  then have "filter (\<lambda>(i, p). alive p) (players s') = []"
    using dead by (auto simp: filter_empty_conv sim_inv_def ids_ok_def umap_ok_mem)
  with dead show ?thesis
    by (simp add: winnerOrZero_survivors)
qed

text \<open>Both players at 25 hit points, each with a shot three units short of the other.\<close>

definition brink :: BattleSim where
  "brink = \<lparr>
     players =
       [(1, \<lparr> pid = 1, px = Fin 30, py = Fin 50, hp = 25, seq = 1, cdMs = 0,
            facingX = Fin 1, facingY = 0, input = noInput, hasInput = False \<rparr>),
        (2, \<lparr> pid = 2, px = Fin 70, py = Fin 50, hp = 25, seq = 1, cdMs = 0,
            facingX = - Fin 1, facingY = 0, input = noInput, hasInput = False \<rparr>)],
     projectiles =
       [(7, \<lparr> prId = 7, ownerId = 1, prX = Fin 65, prY = Fin 50, vx = Fin 60, vy = 0, traveled = Fin 33 \<rparr>),
        (8, \<lparr> prId = 8, ownerId = 2, prX = Fin 35, prY = Fin 50, vx = - Fin 60, vy = 0, traveled = Fin 33 \<rparr>)],
     removedProjectileIds = [], nextProjectileId = 9 \<rparr>"

lemma brink_step:
  "(\<lambda>s. (map (hp \<circ> snd) (players s), nextProjectileId s)) (snd (step hypot_exact brink 50)) = ([0, 0], 9)"
  by code_simp

lemma brink_inv: "sim_inv brink" "counter_room brink"
  by (auto simp: brink_def sim_inv_def ids_ok_def umap_ok_def hp_ok_def playerIds_def counter_room_def
      split: if_splits)

theorem double_knockout_is_final_witness:
  "winnerOrZero (snd (takeRemovedProjectileIds (snd (step hypot_exact (snd (step hypot_exact brink 50)) 50)))) = 0"
proof -
  obtain ch s where st: "step hypot_exact brink 50 = (ch, s)"
    by fastforce
  obtain ch' s' where st': "step hypot_exact s 50 = (ch', s')"
    by fastforce
  have hps: "map (hp \<circ> snd) (players s) = [0, 0]"
    using brink_step by (simp add: st)
  have dead: "\<forall>i p. map_of (players s) i = Some p \<longrightarrow> \<not> alive p"
  proof (intro allI impI)
    fix i p
    assume "map_of (players s) i = Some p"
    then have "hp p \<in> set (map (hp \<circ> snd) (players s))"
      by (force dest: map_of_SomeD)
    then show "\<not> alive p"
      by (simp add: hps alive_def)
  qed
  have "length (players s) = 2"
    using arg_cong [OF hps, of length] by simp
  then have room: "counter_room s"
    using brink_step by (simp add: st counter_room_def)
  have "continues hypot_exact s (snd (takeRemovedProjectileIds s'))"
    by (rule continues_step [OF continues_refl room st'])
  from double_knockout_is_final [OF step_inv [OF brink_inv st] dead this]
  show ?thesis
    by (simp add: st st')
qed

subsection \<open>Cooldown\<close>

definition cd_level :: "nat \<Rightarrow> float32" where
  "cd_level k = Fin (50 * of_nat k)"

lemma cd_level_table:
  "list_all (\<lambda>k. std_max 0 (cd_level k - float_of_nat 50) = cd_level (k - 1)) [0..<11]"
  by code_simp

lemma cd_level_decay: "k \<le> 10 \<Longrightarrow> std_max 0 (cd_level k - float_of_nat 50) = cd_level (k - 1)"
  using cd_level_table unfolding list_all_iff by fastforce

lemma cd_level_pos: "0 < cd_level k \<longleftrightarrow> 0 < k"
  by (simp add: cd_level_def zero_float32_def)

lemma cd_level_10: "kAttackCd = cd_level 10"
  by (simp add: cd_level_def kAttackCd_def)

lemma battle_cd_level:
  "battle hyp I s \<Longrightarrow> \<forall>i p. map_of (players s) i = Some p \<longrightarrow> (\<exists>k\<le>10. cdMs p = cd_level k)"
proof (induction rule: battle.induct)
  case (battle_step s ch s')
  have "\<exists>k\<le>10. cdMs p' = cd_level k" if p': "map_of (players s') i = Some p'" for i p'
  proof (rule step_lookup_back [OF battle_sim_inv [OF battle_step(1)] battle_step(2,3) p'])
    fix p cd h
    assume p: "map_of (players s) i = Some p" "p' = (moved 50 p)\<lparr> cdMs := cd, hp := h \<rparr>"
      "cd = cdMs (moved 50 p) \<or> may_fire (moved 50 p) \<and> cd = kAttackCd"
    then obtain k where k: "k \<le> 10" "cdMs p = cd_level k"
      using battle_step(4) by blast
    then have "cdMs (moved 50 p) = cd_level (k - 1)"
      by (simp add: moved_cd cd_level_decay)
    with p k(1) show ?thesis
      by (metis P.select_convs(6) P.surjective P.update_convs(4,6) cd_level_10 diff_le_self le_refl le_trans)
  qed
  then show ?case
    by blast
next
  case (battle_add s x y i)
  then show ?case
    by (auto simp: addPlayer_lookup cd_level_def zero_float32_def intro: exI [of _ 0])
next
  case (battle_input s inp i)
  then show ?case
    by (auto simp: applyInput_lookup split: if_splits)
qed (simp_all add: newBattleSim_def)

text \<open>
  The cooldown, kept in a float, is exact: in a battle it is always \<open>50 k\<close> ms for some
  \<open>k \<le> 10\<close>; a tick takes it to \<open>50 (k - 1)\<close>, or, only if it was at most 50 ms and the player
  holds the attack key, fires and sets it to 500 ms. Two shots of a player are therefore at
  least ten ticks, half a second, apart.
\<close>

theorem cooldown_is_exact:
  assumes "battle hyp I s" "counter_room s" "step hyp s 50 = (changed, s')"
    and "map_of (players s) i = Some p" "map_of (players s') i = Some p'"
  shows "\<exists>k\<le>10. cdMs p = Fin (50 * of_nat k) \<and>
    (cdMs p' = Fin (50 * of_nat (k - 1)) \<or>
     k \<le> 1 \<and> alive p \<and> hasInput p \<and> attack (input p) \<and> cdMs p' = Fin 500) \<and>
    (\<forall>n pr. nextProjectileId s \<le> n \<longrightarrow> map_of (projectiles s') n = Some pr \<longrightarrow> ownerId pr = i \<longrightarrow> k \<le> 1)"
proof -
  note inv = battle_sim_inv [OF assms(1)]
  obtain k where k: "k \<le> 10" "cdMs p = cd_level k"
    using battle_cd_level [OF assms(1)] assms(4) by blast
  have m: "cdMs (moved 50 p) = cd_level (k - 1)"
    using k by (simp add: moved_cd cd_level_decay)
  have may: "may_fire (moved 50 p) \<longleftrightarrow> k \<le> 1 \<and> alive p \<and> hasInput p \<and> attack (input p)"
    by (auto simp: may_fire_def m cd_level_pos)
  obtain cd where cd: "cdMs p' = cd" "cd = cd_level (k - 1) \<or> may_fire (moved 50 p) \<and> cd = kAttackCd"
    by (rule step_lookup_back [OF inv assms(2,3,5)]) (use assms(4) m in auto)
  have shot: "k \<le> 1" if n: "nextProjectileId s \<le> n" "map_of (projectiles s') n = Some pr" "ownerId pr = i" for n pr
    using step_projectile [OF inv assms(2,3) n(2)]
  proof (elim disjE exE conjE)
    fix pr0
    assume "map_of (projectiles s) n = Some pr0"
    from sim_inv_projectile [OF inv this] n(1) show ?thesis
      by simp
  qed (use assms(4) n(3) may in simp)
  show ?thesis
    using k cd may shot by (intro exI [of _ k]) (auto simp: cd_level_def kAttackCd_def)
qed

theorem cooldown_is_exact_witness:
  "(let (changed, s') = step hypot_exact duel 50 in
     cdMs (the (map_of (players s') 1)) = Fin 0 \<or> cdMs (the (map_of (players s') 1)) = Fin 500)"
proof -
  obtain ch s' where st: "step hypot_exact duel 50 = (ch, s')"
    by fastforce
  have p: "map_of (players duel) 1 = Some (snd (hd (players duel)))"
    by (simp add: duel_state)
  obtain p' where p': "map_of (players s') 1 = Some p'"
    using duel_after [OF st] by blast
  have "cdMs p' = Fin 0 \<or> cdMs p' = Fin 500"
    using cooldown_is_exact [OF duel_battle [of "\<lambda>_. True" hypot_exact, OF TrueI] duel_room st p p']
    by (fastforce simp: duel_state zero_float32_def)
  then show ?thesis
    by (simp only: Let_def st prod.case p' option.sel)
qed

end
