(* ===== verification/Room.thy ===== *)
theory Room
  imports BattleSim ProtobufCodec
begin

text \<open>
  A battle room, \<^verbatim>\<open>src/src/game/Room.h\<close> and \<^verbatim>\<open>Room.cc\<close>, and the messages of
  \<^verbatim>\<open>src/src/proto/game.proto\<close> that the server sends. A connection is its number. Every method runs
  on the room's event loop, so each is one function from the room's state to the new state and
  the list of effects in the order of the code: frames handed to connections, the end callback,
  and the ticker reset that \<open>endBattle\<close> queues on the loop. \<open>ticker\<close> tells whether the periodic
  timer exists. \<open>tick\<close> is the tick counter of the code, modulo \<open>2^32\<close>.
\<close>

subsection \<open>Messages\<close>

record LoginResp =
  lr_code :: int
  lr_player_id :: nat
  lr_session_token :: string

record EnterRoom =
  er_room_id :: nat
  er_player_ids :: "nat list"

record StateSnapshot =
  ss_tick :: nat
  ss_full :: bool
  ss_players :: "PlayerState list"
  ss_projectiles :: "ProjectileState list"
  ss_removed :: "nat list"

datatype server_msg =
    MLoginResp LoginResp
  | MEnterRoom EnterRoom
  | MStateSnapshot StateSnapshot
  | MBattleEnd nat
  | MHeartbeat int
  | MLeaderboardResp "(string \<times> nat) list"

subsection \<open>State and operations\<close>

record Room =
  roomId :: nat
  sim :: BattleSim
  conns :: "(nat, nat option) umap"
  onEnd_set :: bool
  ticker :: bool
  tick :: nat
  ended :: bool

datatype room_effect =
    SendFrame nat MsgId server_msg
  | OnEnd nat nat
  | QueueTickerReset

definition kRoomTickMs :: nat where
  "kRoomTickMs = 50"

fun seat_players :: "(nat \<times> nat option) list \<Rightarrow> nat \<Rightarrow> BattleSim \<times> (nat, nat option) umap \<Rightarrow>
    BattleSim \<times> (nat, nat option) umap" where
  "seat_players [] n sc = sc"
| "seat_players ((i, conn) # ps) n (s, cs) =
     seat_players ps (n + 1)
       (addPlayer s i (if n mod 2 = 0 then Fin 30 else Fin 70) (Fin 50), AList.update i conn cs)"

definition newRoom :: "nat \<Rightarrow> (nat \<times> nat option) list \<Rightarrow> bool \<Rightarrow> Room" where
  "newRoom rid ps onEnd =
     (let (s, cs) = seat_players ps 0 (newBattleSim, []) in
      \<lparr> roomId = rid, sim = s, conns = cs, onEnd_set = onEnd, ticker = False, tick = 0, ended = False \<rparr>)"

definition send :: "nat option \<Rightarrow> MsgId \<Rightarrow> server_msg \<Rightarrow> room_effect list" where
  "send conn mid msg = (case conn of None \<Rightarrow> [] | Some c \<Rightarrow> [SendFrame c mid msg])"

definition broadcast :: "Room \<Rightarrow> MsgId \<Rightarrow> server_msg \<Rightarrow> room_effect list" where
  "broadcast r mid msg = concat (map (\<lambda>(i, conn). send conn mid msg) (conns r))"

definition enterRoom :: "Room \<Rightarrow> server_msg" where
  "enterRoom r = MEnterRoom \<lparr> er_room_id = roomId r, er_player_ids = playerIds (sim r) \<rparr>"

definition fullSnapshot :: "Room \<Rightarrow> StateSnapshot" where
  "fullSnapshot r = \<lparr> ss_tick = tick r, ss_full = True,
     ss_players = map (\<lambda>i. fillState (sim r) i emptyPlayerState) (playerIds (sim r)),
     ss_projectiles = map (\<lambda>n. fillProjectileState (sim r) n emptyProjectileState)
                        (projectileIds (sim r)),
     ss_removed = [] \<rparr>"

definition sendFullSnapshot :: "Room \<Rightarrow> nat option \<Rightarrow> room_effect list" where
  "sendFullSnapshot r conn = send conn kStateSnapshot (MStateSnapshot (fullSnapshot r))"

definition start :: "Room \<Rightarrow> Room \<times> room_effect list" where
  "start r =
     (r\<lparr> ticker := True \<rparr>,
      broadcast r kEnterRoom (enterRoom r) @
      concat (map (\<lambda>(i, conn). sendFullSnapshot r conn) (conns r)))"

definition onInput :: "Room \<Rightarrow> nat \<Rightarrow> PlayerInput \<Rightarrow> Room" where
  "onInput r i inp = (if ended r then r else r\<lparr> sim := applyInput (sim r) i inp \<rparr>)"

definition rebind :: "Room \<Rightarrow> nat \<Rightarrow> nat option \<Rightarrow> Room \<times> room_effect list" where
  "rebind r i conn =
     (if map_of (conns r) i = None then (r, [])
      else let r' = r\<lparr> conns := AList.update i conn (conns r) \<rparr> in
        (r', send conn kEnterRoom (enterRoom r') @ sendFullSnapshot r' conn))"

definition dropConn :: "Room \<Rightarrow> nat \<Rightarrow> Room" where
  "dropConn r i =
     (if map_of (conns r) i = None then r else r\<lparr> conns := AList.update i None (conns r) \<rparr>)"

definition endBattle :: "Room \<Rightarrow> nat \<Rightarrow> Room \<times> room_effect list" where
  "endBattle r w =
     (let r' = r\<lparr> ended := True \<rparr> in
      (r', broadcast r' kBattleEnd (MBattleEnd w) @ [QueueTickerReset] @
           (if onEnd_set r' then [OnEnd (roomId r') w] else [])))"

definition forceEnd :: "Room \<Rightarrow> nat \<Rightarrow> Room \<times> room_effect list" where
  "forceEnd r w = (if \<not> ended r then endBattle r w else (r, []))"

definition stop :: "Room \<Rightarrow> Room" where
  "stop r = r\<lparr> ended := True, ticker := False \<rparr>"

definition tickerReset :: "Room \<Rightarrow> Room" where
  "tickerReset r = r\<lparr> ticker := False \<rparr>"

definition deltaSnapshot :: "Room \<Rightarrow> nat list \<Rightarrow> nat list \<Rightarrow> nat list \<Rightarrow> StateSnapshot" where
  "deltaSnapshot r changed projs removed = \<lparr> ss_tick = tick r, ss_full = False,
     ss_players = map (\<lambda>i. fillState (sim r) i emptyPlayerState) changed,
     ss_projectiles = map (\<lambda>n. fillProjectileState (sim r) n emptyProjectileState) projs,
     ss_removed = removed \<rparr>"

definition onTick :: "(float32 \<Rightarrow> float32 \<Rightarrow> float32) \<Rightarrow> Room \<Rightarrow> Room \<times> room_effect list" where
  "onTick hyp r =
     (if ended r then (r, [])
      else
        let (changed, s1) = step hyp (sim r) kRoomTickMs;
            projs = projectileIds s1;
            (removed, s2) = takeRemovedProjectileIds s1;
            r' = r\<lparr> tick := u32 (tick r + 1), sim := s2 \<rparr>;
            snap = (if changed \<noteq> [] \<or> projs \<noteq> [] \<or> removed \<noteq> []
                    then broadcast r' kStateSnapshot
                           (MStateSnapshot (deltaSnapshot r' changed projs removed))
                    else []);
            w = winnerOrZero s2
        in if w \<noteq> 0 then (let (r'', effs) = endBattle r' w in (r'', snap @ effs))
           else (r', snap))"

subsection \<open>Runs\<close>

text \<open>The tasks a room's event loop can execute, in any order. The ticker fires only while it
  exists.\<close>

datatype room_task =
    TStart | TTick | TInput nat PlayerInput | TRebind nat "nat option" | TDrop nat
  | TForceEnd nat | TStop | TTickerReset

fun room_exec :: "(float32 \<Rightarrow> float32 \<Rightarrow> float32) \<Rightarrow> room_task \<Rightarrow> Room \<Rightarrow> Room \<times> room_effect list" where
  "room_exec hyp TStart r = start r"
| "room_exec hyp TTick r = (if ticker r then onTick hyp r else (r, []))"
| "room_exec hyp (TInput i inp) r = (onInput r i inp, [])"
| "room_exec hyp (TRebind i conn) r = rebind r i conn"
| "room_exec hyp (TDrop i) r = (dropConn r i, [])"
| "room_exec hyp (TForceEnd w) r = forceEnd r w"
| "room_exec hyp TStop r = (stop r, [])"
| "room_exec hyp TTickerReset r = (tickerReset r, [])"

fun room_run :: "(float32 \<Rightarrow> float32 \<Rightarrow> float32) \<Rightarrow> room_task list \<Rightarrow> Room \<Rightarrow> Room \<times> room_effect list" where
  "room_run hyp [] r = (r, [])"
| "room_run hyp (t # ts) r =
     (let (r', es) = room_exec hyp t r; (r'', es') = room_run hyp ts r' in (r'', es @ es'))"

definition is_end :: "room_effect \<Rightarrow> bool" where
  "is_end e = (case e of OnEnd _ _ \<Rightarrow> True | _ \<Rightarrow> False)"

definition is_delta :: "room_effect \<Rightarrow> bool" where
  "is_delta e = (case e of SendFrame _ _ (MStateSnapshot s) \<Rightarrow> \<not> ss_full s | _ \<Rightarrow> False)"

definition is_battle_end :: "room_effect \<Rightarrow> bool" where
  "is_battle_end e = (case e of SendFrame _ _ (MBattleEnd _) \<Rightarrow> True | _ \<Rightarrow> False)"

subsection \<open>The end of a battle\<close>

lemma send_kinds [simp]:
  "e \<in> set (send c mid m) \<Longrightarrow> \<not> is_end e"
  "e \<in> set (broadcast r mid m) \<Longrightarrow> \<not> is_end e"
  by (auto simp: send_def broadcast_def is_end_def split: option.splits)

lemma broadcast_mem: "e \<in> set (broadcast r mid m) \<Longrightarrow> \<exists>c. e = SendFrame c mid m"
  by (auto simp: send_def broadcast_def split: option.splits)

lemma send_mem: "e \<in> set (send conn mid m) \<Longrightarrow> \<exists>c. e = SendFrame c mid m"
  by (auto simp: send_def split: option.splits)

lemmas effect_kinds = is_end_def is_delta_def is_battle_end_def

text \<open>What the effects of a task on a finished room can be: only a late rebind or start speaks.\<close>

lemma exec_ended:
  assumes "ended r" "room_exec hyp t r = (r', es)"
  shows "ended r' \<and> (\<forall>e\<in>set es. \<not> is_end e \<and> \<not> is_delta e \<and> \<not> is_battle_end e)"
proof (cases t)
  case TStart
  then show ?thesis
    using assms
    by (auto simp: start_def sendFullSnapshot_def enterRoom_def fullSnapshot_def effect_kinds
        dest!: broadcast_mem send_mem)
next
  case (TRebind i conn)
  then show ?thesis
    using assms
    by (auto simp: rebind_def sendFullSnapshot_def enterRoom_def fullSnapshot_def effect_kinds Let_def
        dest!: send_mem split: if_splits)
qed (use assms in \<open>auto simp: onTick_def onInput_def dropConn_def forceEnd_def stop_def tickerReset_def
      split: if_splits\<close>)

lemma run_ended:
  assumes "ended r" "room_run hyp ts r = (r', es)"
  shows "ended r' \<and> (\<forall>e\<in>set es. \<not> is_end e \<and> \<not> is_delta e \<and> \<not> is_battle_end e)"
  using assms
proof (induction ts arbitrary: r es)
  case (Cons t ts)
  obtain r1 es1 where 1: "room_exec hyp t r = (r1, es1)"
    by fastforce
  obtain es2 where 2: "room_run hyp ts r1 = (r', es2)" "es = es1 @ es2"
    using Cons.prems(2) 1 by (auto split: prod.splits)
  show ?case
    using exec_ended [OF Cons.prems(1) 1] Cons.IH [OF _ 2(1)] 2(2) by auto
qed simp

text \<open>A task either leaves the battle open and reports no end, or it ends it, and the end
  callback is then its last effect.\<close>

lemma exec_open:
  assumes "\<not> ended r" "room_exec hyp t r = (r', es)"
  shows "(\<not> ended r' \<or> t = TStop) \<and> (\<forall>e\<in>set es. \<not> is_end e \<and> \<not> is_battle_end e) \<or>
    ended r' \<and> (\<exists>es' w. es = es' @ QueueTickerReset # (if onEnd_set r then [OnEnd (roomId r) w] else []) \<and>
        (\<forall>e\<in>set es'. \<not> is_end e))"
proof (cases t)
  case TStart
  then show ?thesis
    using assms
    by (auto simp: start_def sendFullSnapshot_def enterRoom_def fullSnapshot_def effect_kinds
        dest!: broadcast_mem send_mem)
next
  case TTick
  then show ?thesis
    using assms
    by (auto simp: onTick_def endBattle_def Let_def effect_kinds dest!: broadcast_mem
        split: if_splits prod.splits)
next
  case (TRebind i conn)
  then show ?thesis
    using assms
    by (auto simp: rebind_def sendFullSnapshot_def enterRoom_def fullSnapshot_def effect_kinds Let_def
        dest!: send_mem split: if_splits)
next
  case (TForceEnd w)
  then show ?thesis
    using assms
    by (auto simp: forceEnd_def endBattle_def Let_def split: if_splits)
qed (use assms in \<open>auto simp: onInput_def dropConn_def stop_def tickerReset_def split: if_splits\<close>)

text \<open>
  C25. A battle ends at most once. Over every sequence of tasks of the room's loop, the end
  callback is called at most once; after it no state delta, no second \<^verbatim>\<open>BattleEnd\<close> and no second
  callback follow.
\<close>

theorem room_ends_once:
  assumes "room_run hyp ts r = (r', es)" "\<not> ended r"
  shows "(\<forall>e\<in>set es. \<not> is_end e) \<or>
    (\<exists>es1 e es2. es = es1 @ e # es2 \<and> (\<forall>e'\<in>set es1. \<not> is_end e') \<and> is_end e \<and>
      (\<forall>e'\<in>set es2. \<not> is_end e' \<and> \<not> is_delta e' \<and> \<not> is_battle_end e'))"
  using assms
proof (induction ts arbitrary: r es)
  case (Cons t ts)
  obtain r1 es1 where 1: "room_exec hyp t r = (r1, es1)"
    by fastforce
  obtain es2 where 2: "room_run hyp ts r1 = (r', es2)" "es = es1 @ es2"
    using Cons.prems(1) 1 by (auto split: prod.splits)
  show ?case
  proof (cases "ended r1")
    case True
    note run_ended [OF True 2(1)]
    moreover have "(\<forall>e\<in>set es1. \<not> is_end e) \<or>
        (\<exists>es1' e. es1 = es1' @ [e] \<and> is_end e \<and> (\<forall>e'\<in>set es1'. \<not> is_end e'))"
      using exec_open [OF Cons.prems(2) 1] by (auto simp: is_end_def split: if_splits)
    ultimately show ?thesis
      by (elim disjE exE conjE) (auto simp: 2(2))
  next
    case False
    then have "\<forall>e\<in>set es1. \<not> is_end e"
      using exec_open [OF Cons.prems(2) 1] by blast
    with Cons.IH [OF 2(1) False] show ?thesis
      unfolding 2(2) by (elim disjE exE conjE) (auto, metis UnE append_assoc set_append)
  qed
qed simp

definition demo_room :: Room where
  "demo_room = newRoom 1 [(1, Some 10), (2, Some 20)] True"

theorem room_ends_once_witness:
  "(let es = snd (room_run hypot_exact [TStart, TForceEnd 1, TForceEnd 2, TTick] demo_room) in
    \<exists>es1 e es2. es = es1 @ e # es2 \<and> is_end e \<and>
      filter (\<lambda>e'. is_end e' \<or> is_delta e' \<or> is_battle_end e') es2 = [])"
proof -
  let ?run = "room_run hypot_exact [TStart, TForceEnd 1, TForceEnd 2, TTick] demo_room"
  have run: "?run = (fst ?run, snd ?run)" and open_room: "\<not> ended demo_room"
    by (simp_all add: demo_room_def newRoom_def case_prod_unfold)
  have "filter is_end (snd ?run) = [OnEnd 1 1]"
    by code_simp
  then have "\<exists>e\<in>set (snd ?run). is_end e"
    by (metis filter_False list.distinct(1))
  with room_ends_once [OF run open_room] obtain es1 e es2 where
    "snd ?run = es1 @ e # es2" "is_end e"
    "\<forall>e'\<in>set es2. \<not> is_end e' \<and> \<not> is_delta e' \<and> \<not> is_battle_end e'"
    by blast
  then show ?thesis
    unfolding Let_def by (intro exI [of _ es1] exI [of _ e] exI [of _ es2]) (simp add: filter_empty_conv)
qed

text \<open>
  A reconnection that reaches the room after the end is answered as if the battle were
  still on: \<open>rebind\<close> does not look at \<open>ended\<close>. The client gets \<^verbatim>\<open>EnterRoom\<close> and a full snapshot,
  and whatever the loop executes afterwards, the room never sends it \<^verbatim>\<open>BattleEnd\<close> nor any
  further delta.
\<close>

theorem rebind_after_end_never_told:
  assumes "ended r" "map_of (conns r) i \<noteq> None" "rebind r i (Some c) = (r1, es1)"
    and "room_run hyp ts r1 = (r2, es2)"
  shows "es1 = [SendFrame c kEnterRoom (enterRoom r), SendFrame c kStateSnapshot (MStateSnapshot (fullSnapshot r))] \<and>
    (\<forall>e\<in>set (es1 @ es2). \<not> is_battle_end e \<and> \<not> is_delta e)"
proof -
  have "ended r1"
    using assms(1-3) by (auto simp: rebind_def Let_def)
  moreover have "es1 = [SendFrame c kEnterRoom (enterRoom r), SendFrame c kStateSnapshot (MStateSnapshot (fullSnapshot r))]"
    using assms(2,3) by (auto simp: rebind_def Let_def send_def sendFullSnapshot_def enterRoom_def fullSnapshot_def)
  ultimately show ?thesis
    using run_ended [OF _ assms(4)]
    by (auto simp: effect_kinds enterRoom_def fullSnapshot_def)
qed

theorem rebind_after_end_never_told_witness:
  "(let r = fst (forceEnd (dropConn demo_room 2) 1); (r1, es1) = rebind r 2 (Some 30);
        (r2, es2) = room_run hypot_exact [TTickerReset, TTick] r1 in
      filter is_battle_end (es1 @ es2) = [])"
proof -
  let ?r = "fst (forceEnd (dropConn demo_room 2) 1)"
  have r: "ended ?r" "map_of (conns ?r) 2 \<noteq> None"
    by (simp_all add: demo_room_def newRoom_def dropConn_def forceEnd_def endBattle_def Let_def)
  obtain r1 es1 where 1: "rebind ?r 2 (Some 30) = (r1, es1)"
    by fastforce
  obtain r2 es2 where 2: "room_run hypot_exact [TTickerReset, TTick] r1 = (r2, es2)"
    by fastforce
  have "filter is_battle_end (es1 @ es2) = []"
    using rebind_after_end_never_told [OF r 1 2] by (simp add: filter_empty_conv)
  then show ?thesis
    unfolding Let_def 1 prod.case 2 .
qed

subsection \<open>Replication\<close>

text \<open>What a client knows after processing the snapshots it was sent: a full one replaces its
  state, a delta overwrites the listed entities and deletes the removed projectiles. The input
  acknowledgement \<^verbatim>\<open>last_input_seq\<close> is not part of it.\<close>

record Replica =
  rp_players :: "nat \<rightharpoonup> float32 \<times> float32 \<times> int"
  rp_projectiles :: "nat \<rightharpoonup> nat \<times> float32 \<times> float32 \<times> float32 \<times> float32"

definition player_entries :: "PlayerState list \<Rightarrow> nat \<rightharpoonup> float32 \<times> float32 \<times> int" where
  "player_entries xs = map_of (rev (map (\<lambda>x. (ps_player_id x, (ps_x x, ps_y x, ps_hp x))) xs))"

definition projectile_entries ::
  "ProjectileState list \<Rightarrow> nat \<rightharpoonup> nat \<times> float32 \<times> float32 \<times> float32 \<times> float32" where
  "projectile_entries xs = map_of (rev (map (\<lambda>x. (prs_projectile_id x,
     (prs_owner_id x, prs_x x, prs_y x, prs_velocity_x x, prs_velocity_y x))) xs))"

fun receive :: "Replica \<Rightarrow> server_msg \<Rightarrow> Replica" where
  "receive rp (MStateSnapshot ss) =
     (if ss_full ss
      then \<lparr> rp_players = player_entries (ss_players ss),
             rp_projectiles = projectile_entries (ss_projectiles ss) \<rparr>
      else \<lparr> rp_players = rp_players rp ++ player_entries (ss_players ss),
             rp_projectiles = (\<lambda>n. if n \<in> set (ss_removed ss) then None
               else (rp_projectiles rp ++ projectile_entries (ss_projectiles ss)) n) \<rparr>)"
| "receive rp _ = rp"

fun msgs_to :: "nat \<Rightarrow> room_effect list \<Rightarrow> server_msg list" where
  "msgs_to c [] = []"
| "msgs_to c (SendFrame c' mid m # es) = (if c' = c then m # msgs_to c es else msgs_to c es)"
| "msgs_to c (_ # es) = msgs_to c es"

definition view :: "BattleSim \<Rightarrow> Replica" where
  "view s = \<lparr> rp_players = (\<lambda>i. map_option (\<lambda>p. (px p, py p, hp p)) (map_of (players s) i)),
     rp_projectiles = (\<lambda>n. map_option (\<lambda>q. (ownerId q, prX q, prY q, vx q, vy q))
                              (map_of (projectiles s) n)) \<rparr>"

lemma msgs_to_append [simp]: "msgs_to c (es @ es') = msgs_to c es @ msgs_to c es'"
  by (induction c es rule: msgs_to.induct) auto

text \<open>Connection \<open>c\<close> belongs to player \<open>i\<close> and to nobody else.\<close>

definition bound :: "Room \<Rightarrow> nat \<Rightarrow> nat \<Rightarrow> bool" where
  "bound r i c \<longleftrightarrow> umap_ok (conns r) \<and> (\<forall>j. map_of (conns r) j = Some (Some c) \<longleftrightarrow> j = i)"

lemma bound_frame [simp]:
  "bound (r\<lparr> ended := e \<rparr>) i c = bound r i c" "bound (r\<lparr> sim := u \<rparr>) i c = bound r i c"
  "bound (r\<lparr> tick := n \<rparr>) i c = bound r i c" "bound (r\<lparr> ticker := e \<rparr>) i c = bound r i c"
  by (simp_all add: bound_def)

lemma msgs_to_concat: "msgs_to c (concat ess) = concat (map (msgs_to c) ess)"
  by (induction ess) auto

lemma msgs_to_send: "msgs_to c (send conn mid m) = (if conn = Some c then [m] else [])"
  by (auto simp: send_def split: option.splits)

lemma concat_unique:
  fixes cs :: "(nat, nat option) umap"
  assumes "umap_ok cs" "\<forall>j. map_of cs j = Some (Some c) \<longleftrightarrow> j = i"
  shows "concat (map (\<lambda>(j, conn). if conn = Some c then [m] else []) cs) = [m]"
proof -
  have mem: "(j, Some c) \<in> set cs \<longleftrightarrow> j = i" for j
    using assms by (simp add: umap_ok_mem)
  then obtain as bs where cs: "cs = as @ (i, Some c) # bs"
    by (metis split_list)
  have none: "concat (map (\<lambda>(j, conn). if conn = Some c then [m] else []) xs) = []"
    if "\<forall>j. (j, Some c) \<notin> set xs" for xs :: "(nat \<times> nat option) list"
    using that by auto
  have "i \<notin> fst ` set as" "i \<notin> fst ` set bs"
    using assms(1) by (auto simp: cs umap_ok_def)
  then have as: "\<forall>j. (j, Some c) \<notin> set as" and bs: "\<forall>j. (j, Some c) \<notin> set bs"
    using mem by (force simp: cs)+
  show ?thesis
    unfolding cs map_append concat_append list.map concat.simps none [OF as] none [OF bs] by simp
qed

lemma msgs_to_broadcast: "bound r i c \<Longrightarrow> msgs_to c (broadcast r mid m) = [m]"
  using concat_unique [of "conns r" c i m]
  by (simp add: bound_def broadcast_def msgs_to_concat msgs_to_send comp_def case_prod_unfold)

lemma rev_entries:
  "map_of (rev (map (\<lambda>i. (i, f i)) xs)) i = (if i \<in> set xs then Some (f i) else None)"
  by (simp add: rev_map map_of_map_restrict)

lemma player_entries_fill:
  assumes "\<forall>i p. map_of (players s) i = Some p \<longrightarrow> pid p = i" "set xs \<subseteq> set (playerIds s)"
  shows "player_entries (map (\<lambda>i. fillState s i emptyPlayerState) xs) i =
    (if i \<in> set xs then rp_players (view s) i else None)"
proof -
  have "(ps_player_id (fillState s j e), ps_x (fillState s j e), ps_y (fillState s j e), ps_hp (fillState s j e)) =
      (j, the (rp_players (view s) j))" if "j \<in> set xs" for j e
    using that assms
    by (auto simp: fillState_def view_def playerIds_def map_of_eq_None_iff split: option.splits)
  then have "player_entries (map (\<lambda>i. fillState s i emptyPlayerState) xs) =
      map_of (rev (map (\<lambda>j. (j, the (rp_players (view s) j))) xs))"
    by (simp add: player_entries_def comp_def cong: map_cong)
  moreover have "i \<in> set xs \<Longrightarrow> rp_players (view s) i \<noteq> None"
    using assms(2) by (auto simp: view_def playerIds_def map_of_eq_None_iff)
  ultimately show ?thesis
    by (simp add: rev_entries)
qed

lemma projectile_entries_fill:
  assumes "\<forall>n pr. map_of (projectiles s) n = Some pr \<longrightarrow> prId pr = n" "set xs \<subseteq> set (projectileIds s)"
  shows "projectile_entries (map (\<lambda>n. fillProjectileState s n emptyProjectileState) xs) n =
    (if n \<in> set xs then rp_projectiles (view s) n else None)"
proof -
  have "(prs_projectile_id (fillProjectileState s j e), prs_owner_id (fillProjectileState s j e),
       prs_x (fillProjectileState s j e), prs_y (fillProjectileState s j e),
       prs_velocity_x (fillProjectileState s j e), prs_velocity_y (fillProjectileState s j e)) =
      (j, the (rp_projectiles (view s) j))" if "j \<in> set xs" for j e
    using that assms
    by (auto simp: fillProjectileState_def view_def projectileIds_def map_of_eq_None_iff split: option.splits)
  then have "projectile_entries (map (\<lambda>n. fillProjectileState s n emptyProjectileState) xs) =
      map_of (rev (map (\<lambda>j. (j, the (rp_projectiles (view s) j))) xs))"
    by (simp add: projectile_entries_def comp_def cong: map_cong)
  moreover have "n \<in> set xs \<Longrightarrow> rp_projectiles (view s) n \<noteq> None"
    using assms(2) by (auto simp: view_def projectileIds_def map_of_eq_None_iff)
  ultimately show ?thesis
    by (simp add: rev_entries)
qed

lemma sim_inv_ids:
  assumes "sim_inv s"
  shows "\<forall>i p. map_of (players s) i = Some p \<longrightarrow> pid p = i"
    "\<forall>n pr. map_of (projectiles s) n = Some pr \<longrightarrow> prId pr = n"
  using assms by (auto simp: sim_inv_def ids_ok_def)

lemma full_snapshot_sync:
  assumes "sim_inv (sim r)"
  shows "receive rp (MStateSnapshot (fullSnapshot r)) = view (sim r)"
proof -
  note ids = sim_inv_ids [OF assms]
  have "rp_players (view (sim r)) i = None" if "i \<notin> set (playerIds (sim r))" for i
    using that by (simp add: view_def playerIds_def map_of_eq_None_iff)
  moreover have "rp_projectiles (view (sim r)) n = None" if "n \<notin> set (projectileIds (sim r))" for n
    using that by (simp add: view_def projectileIds_def map_of_eq_None_iff)
  ultimately have "player_entries (ss_players (fullSnapshot r)) = rp_players (view (sim r))"
    "projectile_entries (ss_projectiles (fullSnapshot r)) = rp_projectiles (view (sim r))"
    by (auto simp: fullSnapshot_def fun_eq_iff player_entries_fill [OF ids(1)] projectile_entries_fill [OF ids(2)])
  then show ?thesis
    by (simp add: fullSnapshot_def view_def)
qed

text \<open>The players that a step does not report, and their entries.\<close>

lemma unreported_player:
  assumes "sim_inv s" "counter_room s" "step hyp s dtMs = (ch, s')" "i \<notin> set ch"
  shows "rp_players (view s') i = rp_players (view s) i"
proof (cases "map_of (players s) i")
  case None
  then have "map_of (players s') i = None"
    using step_keys [OF assms(1-3)] by (metis playerIds_def map_of_eq_None_iff set_map)
  then show ?thesis
    using None by (simp add: view_def)
next
  case (Some p)
  show ?thesis
    by (rule step_player [OF assms(1-3) Some])
      (use Some assms(4) move_one_still [of "dt_of dtMs" p] in \<open>auto simp: view_def moved_def\<close>)
qed

text \<open>The two halves of a delta: the changed players, and the projectiles with the list of the vanished ones.\<close>

lemma delta_players:
  assumes inv: "sim_inv s" "counter_room s" and st: "step hyp s kRoomTickMs = (ch, s1)"
    and r': "sim r' = snd (takeRemovedProjectileIds s1)"
  shows "rp_players (view s) ++ player_entries (map (\<lambda>i. fillState (sim r') i emptyPlayerState) ch) = rp_players (view (sim r'))"
proof (rule ext)
  fix i
  have keys: "sim_inv (sim r')" "playerIds (sim r') = playerIds s" "view (sim r') = view s1"
    using step_inv [OF inv st] step_keys [OF inv st] by (simp_all add: r' playerIds_def view_def)
  then have ch: "set ch \<subseteq> set (playerIds (sim r'))"
    using step_changed_ids [OF inv st] by simp
  note fill = player_entries_fill [OF sim_inv_ids(1) [OF keys(1)] ch]
  show "(rp_players (view s) ++ player_entries (map (\<lambda>i. fillState (sim r') i emptyPlayerState) ch)) i = rp_players (view (sim r')) i"
  proof (cases "i \<in> set ch")
    case True
    then have "rp_players (view (sim r')) i \<noteq> None"
      using ch by (auto simp: view_def playerIds_def map_of_eq_None_iff)
    then show ?thesis
      using True by (auto simp: map_add_def fill)
  next
    case False
    then show ?thesis
      using unreported_player [OF inv st False] by (simp add: map_add_def fill keys(3))
  qed
qed

lemma delta_projectiles:
  assumes inv: "sim_inv s" "counter_room s" and st: "step hyp s kRoomTickMs = (ch, s1)"
    and r': "sim r' = snd (takeRemovedProjectileIds s1)"
  shows "(\<lambda>n. if n \<in> set (removedProjectileIds s1) then None
      else (rp_projectiles (view s) ++ projectile_entries
             (map (\<lambda>n. fillProjectileState (sim r') n emptyProjectileState) (projectileIds s1))) n) =
    rp_projectiles (view (sim r'))"
proof (rule ext)
  fix n
  have same: "projectiles (sim r') = projectiles s1" "projectileIds (sim r') = projectileIds s1"
    by (simp_all add: r' projectileIds_def)
  have inv1: "sim_inv (sim r')"
    using step_inv [OF inv st] by (simp add: r')
  have fill: "projectile_entries (map (\<lambda>n. fillProjectileState (sim r') n emptyProjectileState) (projectileIds s1)) n =
      (if n \<in> set (projectileIds s1) then rp_projectiles (view (sim r')) n else None)"
    by (rule projectile_entries_fill [OF sim_inv_ids(2) [OF inv1]]) (simp add: same)
  show "(if n \<in> set (removedProjectileIds s1) then None
      else (rp_projectiles (view s) ++ projectile_entries
             (map (\<lambda>n. fillProjectileState (sim r') n emptyProjectileState) (projectileIds s1))) n) =
      rp_projectiles (view (sim r')) n"
  proof (cases "n \<in> set (projectileIds s1)")
    case True
    then have "rp_projectiles (view (sim r')) n \<noteq> None"
      by (auto simp: view_def projectileIds_def map_of_eq_None_iff same)
    then obtain v where "rp_projectiles (view (sim r')) n = Some v"
      by blast
    then show ?thesis
      using True by (simp add: map_add_def fill step_removed(2) [OF inv st])
  next
    case False
    then have "rp_projectiles (view (sim r')) n = None"
      by (simp add: view_def projectileIds_def map_of_eq_None_iff same)
    moreover have "n \<notin> set (removedProjectileIds s1) \<Longrightarrow> rp_projectiles (view s) n = None"
      using False step_removed(2) [OF inv st]
      by (auto simp: view_def projectileIds_def map_of_eq_None_iff)
    ultimately show ?thesis
      using False by (simp add: map_add_def fill)
  qed
qed

lemma delta_sync:
  assumes inv: "sim_inv s" "counter_room s" and st: "step hyp s kRoomTickMs = (ch, s1)"
    and r': "sim r' = snd (takeRemovedProjectileIds s1)"
  shows "receive (view s)
      (MStateSnapshot (deltaSnapshot r' ch (projectileIds s1) (removedProjectileIds s1))) = view (sim r')"
proof -
  have "receive (view s)
      (MStateSnapshot (deltaSnapshot r' ch (projectileIds s1) (removedProjectileIds s1))) =
      \<lparr> rp_players = rp_players (view (sim r')), rp_projectiles = rp_projectiles (view (sim r')) \<rparr>"
    by (simp only: receive.simps deltaSnapshot_def StateSnapshot.select_convs simp_thms if_False
        delta_players [OF assms] delta_projectiles [OF assms])
  then show ?thesis
    by simp
qed

text \<open>When nothing is broadcast, nothing has changed.\<close>

lemma silent_sync:
  assumes inv: "sim_inv s" "counter_room s" and st: "step hyp s kRoomTickMs = ([], s1)"
    and "projectileIds s1 = []" "removedProjectileIds s1 = []"
  shows "view s1 = view s"
proof -
  have "projectileIds s = []"
    using step_removed(2) [OF inv st] assms(4,5) by auto
  then have "projectiles s = []" "projectiles s1 = []"
    using assms(4) by (simp_all add: projectileIds_def)
  moreover have "rp_players (view s1) = rp_players (view s)"
    using unreported_player [OF inv st] by (simp add: fun_eq_iff)
  ultimately show ?thesis
    by (simp add: view_def)
qed

lemma step_counter:
  assumes "sim_inv s" "counter_room s" "step hyp s dtMs = (ch, s')"
  shows "nextProjectileId s' \<le> nextProjectileId s + length (players s)"
    "length (players s') = length (players s)"
proof -
  obtain c where "advance_frame (after_attack hyp s dtMs, snd (move_loop (dt_of dtMs) (players s))) (s', c)"
    by (rule step_advance [OF assms])
  then show "nextProjectileId s' \<le> nextProjectileId s + length (players s)"
    using after_attack_frame [OF assms(2), of dtMs hyp] advance_frame_rest(2) by fastforce
  show "length (players s') = length (players s)"
    using arg_cong [OF step_keys [OF assms], of length] by (simp add: playerIds_def)
qed

lemma applyInput_view [simp]:
  "view (applyInput s i inp) = view s" "length (players (applyInput s i inp)) = length (players s)"
proof -
  show "view (applyInput s i inp) = view s"
    by (auto simp: view_def applyInput_lookup option.map_comp comp_def)
  show "length (players (applyInput s i inp)) = length (players s)"
    using arg_cong [OF applyInput_keys, of length s i inp] by (simp add: playerIds_def)
qed

text \<open>The tasks that leave connection \<open>c\<close> with player \<open>i\<close>.\<close>

fun keeps_conn :: "nat \<Rightarrow> nat \<Rightarrow> room_task \<Rightarrow> bool" where
  "keeps_conn i c (TDrop j) = (j \<noteq> i)"
| "keeps_conn i c (TRebind j conn) = (j \<noteq> i \<and> conn \<noteq> Some c)"
| "keeps_conn i c _ = True"

definition shots_left :: "Room \<Rightarrow> nat \<Rightarrow> bool" where
  "shots_left r k \<longleftrightarrow> nextProjectileId (sim r) + k * length (players (sim r)) < 2 ^ 64"

lemma shots_left_room: "shots_left r (Suc k) \<Longrightarrow> counter_room (sim r)"
  by (simp add: shots_left_def counter_room_def)

definition in_sync :: "Room \<Rightarrow> nat \<Rightarrow> nat \<Rightarrow> nat \<Rightarrow> bool" where
  "in_sync r i c k \<longleftrightarrow> sim_inv (sim r) \<and> bound r i c \<and> shots_left r k"

lemma bound_update:
  assumes "bound r i c" "j \<noteq> i" "conn \<noteq> Some c"
  shows "bound (r\<lparr> conns := AList.update j conn (conns r) \<rparr>) i c"
proof -
  have "map_of (AList.update j conn (conns r)) k = Some (Some c) \<longleftrightarrow> k = i" for k
    using assms by (cases "k = j") (simp_all add: bound_def map_of_update)
  then show ?thesis
    using assms(1) by (simp add: bound_def)
qed

lemma onTick_open:
  assumes "\<not> ended r" "step hyp (sim r) kRoomTickMs = (ch, s1)"
  defines "r1 \<equiv> r\<lparr> tick := u32 (tick r + 1), sim := snd (takeRemovedProjectileIds s1) \<rparr>"
  defines "snap \<equiv> (if ch \<noteq> [] \<or> projectileIds s1 \<noteq> [] \<or> removedProjectileIds s1 \<noteq> []
      then broadcast r1 kStateSnapshot (MStateSnapshot
        (deltaSnapshot r1 ch (projectileIds s1) (removedProjectileIds s1))) else [])"
  shows "onTick hyp r = (r1, snap) \<or> (\<exists>w. onTick hyp r = (r1\<lparr> ended := True \<rparr>, snap @ snd (endBattle r1 w)))"
  using assms(1) unfolding onTick_def assms(2) Let_def prod.case r1_def snap_def
  by (auto simp: endBattle_def Let_def takeRemovedProjectileIds_def)

lemma endBattle_sync:
  assumes "bound r i c"
  shows "foldl receive v (msgs_to c (snd (endBattle r w))) = v"
proof -
  have "bound (r\<lparr> ended := True \<rparr>) i c"
    using assms by simp
  then show ?thesis
    by (simp add: endBattle_def Let_def msgs_to_broadcast)
qed

lemma tick_sync:
  assumes "in_sync r i c (Suc k)" "onTick hyp r = (r', es)"
  shows "in_sync r' i c k \<and> foldl receive (view (sim r)) (msgs_to c es) = view (sim r')"
proof (cases "ended r")
  case True
  then show ?thesis
    using assms by (auto simp: onTick_def in_sync_def shots_left_def)
next
  case False
  have inv: "sim_inv (sim r)" "counter_room (sim r)" and b: "bound r i c"
    using assms(1) shots_left_room by (auto simp: in_sync_def)
  obtain ch s1 where st: "step hyp (sim r) kRoomTickMs = (ch, s1)"
    by fastforce
  define r1 where "r1 = r\<lparr> tick := u32 (tick r + 1), sim := snd (takeRemovedProjectileIds s1) \<rparr>"
  define snap where "snap = (if ch \<noteq> [] \<or> projectileIds s1 \<noteq> [] \<or> removedProjectileIds s1 \<noteq> []
      then broadcast r1 kStateSnapshot (MStateSnapshot
        (deltaSnapshot r1 ch (projectileIds s1) (removedProjectileIds s1))) else [])"
  have r1: "bound r1 i c" "sim r1 = snd (takeRemovedProjectileIds s1)"
    using b by (simp_all add: r1_def)
  have sync: "foldl receive (view (sim r)) (msgs_to c snap) = view (sim r1)"
  proof (cases "ch \<noteq> [] \<or> projectileIds s1 \<noteq> [] \<or> removedProjectileIds s1 \<noteq> []")
    case True
    then show ?thesis
      using delta_sync [OF inv st, of r1] r1 by (simp add: snap_def msgs_to_broadcast)
  next
    case False
    then show ?thesis
      using silent_sync [OF inv, of hyp s1] st by (simp add: snap_def r1(2) view_def)
  qed
  have "in_sync r1 i c k"
    using assms(1) r1 step_inv [OF inv st] step_counter [OF inv st] by (auto simp: in_sync_def shots_left_def)
  then show ?thesis
    using onTick_open [OF False st, folded r1_def, folded snap_def] assms(2) sync r1 endBattle_sync [OF r1(1)]
    by (auto simp: in_sync_def shots_left_def)
qed

lemma exec_sync:
  assumes s: "in_sync r i c (Suc k)" and t: "keeps_conn i c t" and x: "room_exec hyp t r = (r', es)"
  shows "in_sync r' i c k \<and> foldl receive (view (sim r)) (msgs_to c es) = view (sim r')"
proof -
  have inv: "sim_inv (sim r)" and b: "bound r i c"
    using s by (auto simp: in_sync_def)
  have less: "in_sync r i c k"
    using s by (auto simp: in_sync_def shots_left_def)
  show ?thesis
  proof (cases t)
    case TStart
    have "msgs_to c (concat (map (\<lambda>(j, conn). sendFullSnapshot r conn) (conns r))) =
        [MStateSnapshot (fullSnapshot r)]"
      using concat_unique [of "conns r" c i] b
      by (simp add: bound_def sendFullSnapshot_def msgs_to_concat msgs_to_send comp_def case_prod_unfold)
    then show ?thesis
      using x TStart less full_snapshot_sync [OF inv] msgs_to_broadcast [OF b]
      by (auto simp: start_def enterRoom_def in_sync_def shots_left_def)
  next
    case TTick
    then show ?thesis
      using x tick_sync [OF s, of hyp r' es] less by (auto split: if_splits)
  next
    case (TRebind j conn)
    then have j: "j \<noteq> i" "conn \<noteq> Some c"
      using t by auto
    show ?thesis
    proof (cases "map_of (conns r) j = None")
      case True
      then show ?thesis
        using x TRebind less by (auto simp: rebind_def)
    next
      case False
      then show ?thesis
        using x TRebind less j bound_update [OF b j]
        by (auto simp: rebind_def Let_def msgs_to_send sendFullSnapshot_def in_sync_def shots_left_def)
    qed
  next
    case (TDrop j)
    then show ?thesis
      using x t less bound_update [OF b, of j None]
      by (auto simp: dropConn_def in_sync_def shots_left_def)
  next
    case (TForceEnd w)
    have "bound (r\<lparr> ended := True \<rparr>) i c"
      using b by simp
    then show ?thesis
      using x TForceEnd less
      by (auto simp: forceEnd_def endBattle_def Let_def msgs_to_broadcast in_sync_def
          shots_left_def split: if_splits)
  qed (use x t less in \<open>auto simp: onInput_def stop_def tickerReset_def in_sync_def
      shots_left_def applyInput_inv split: if_splits\<close>)
qed

lemma run_sync:
  assumes "in_sync r i c (length ts)" "\<forall>t\<in>set ts. keeps_conn i c t" "room_run hyp ts r = (r', es)"
  shows "foldl receive (view (sim r)) (msgs_to c es) = view (sim r')"
  using assms
proof (induction ts arbitrary: r es)
  case (Cons t ts)
  obtain r1 es1 where 1: "room_exec hyp t r = (r1, es1)"
    by fastforce
  obtain es2 where 2: "room_run hyp ts r1 = (r', es2)" "es = es1 @ es2"
    using Cons.prems(3) 1 by (auto split: prod.splits)
  have "in_sync r1 i c (length ts) \<and> foldl receive (view (sim r)) (msgs_to c es1) = view (sim r1)"
    using exec_sync [OF _ _ 1] Cons.prems(1,2) by simp
  with Cons.IH [OF _ _ 2(1)] Cons.prems(2) show ?case
    by (simp add: 2(2))
qed simp

lemma seat_players_inv: "sim_inv (fst sc) \<Longrightarrow> sim_inv (fst (seat_players ps n sc))"
  by (induction ps n sc rule: seat_players.induct) (simp_all add: addPlayer_inv)

lemma newRoom_inv: "sim_inv (sim (newRoom rid ps b))"
  using seat_players_inv [of "(newBattleSim, [])" ps 0]
  by (simp add: newRoom_def case_prod_unfold Let_def newBattleSim_inv)

lemma replica_follows:
  assumes "sim_inv (sim r)" "t0 = TStart \<or> t0 = TRebind i (Some c)"
    and "bound (fst (room_exec hyp t0 r)) i c"
    and "\<forall>t\<in>set ts. keeps_conn i c t" "shots_left r (length ts)"
    and "room_run hyp (t0 # ts) r = (r', es)"
  shows "foldl receive rp0 (msgs_to c es) = view (sim r')"
proof -
  obtain r1 es1 where 1: "room_exec hyp t0 r = (r1, es1)"
    by fastforce
  obtain es2 where 2: "room_run hyp ts r1 = (r', es2)" "es = es1 @ es2"
    using assms(6) 1 by (auto split: prod.splits)
  have b: "bound r1 i c"
    using assms(3) 1 by simp
  have sim: "sim r1 = sim r"
    using assms(2) 1 by (auto simp: start_def rebind_def Let_def split: if_splits)
  have full: "foldl receive rp0 (msgs_to c es1) = view (sim r1)"
    using assms(2)
  proof
    assume t0: "t0 = TStart"
    then have "bound r i c"
      using b 1 by (auto simp: start_def)
    moreover from this have "msgs_to c (concat (map (\<lambda>(j, conn). sendFullSnapshot r conn) (conns r))) =
        [MStateSnapshot (fullSnapshot r)]"
      using concat_unique [of "conns r" c i]
      by (simp add: bound_def sendFullSnapshot_def msgs_to_concat msgs_to_send comp_def case_prod_unfold)
    ultimately show ?thesis
      using 1 t0 full_snapshot_sync [OF assms(1)] sim
      by (auto simp: start_def msgs_to_broadcast enterRoom_def)
  next
    assume t0: "t0 = TRebind i (Some c)"
    have "map_of (conns r) i \<noteq> None"
    proof
      assume "map_of (conns r) i = None"
      moreover from this have "r1 = r"
        using 1 t0 by (simp add: rebind_def)
      moreover have "map_of (conns r1) i = Some (Some c)"
        using b by (simp add: bound_def)
      ultimately show False
        by simp
    qed
    then have "es1 = [SendFrame c kEnterRoom (enterRoom r1), SendFrame c kStateSnapshot (MStateSnapshot (fullSnapshot r1))]"
      using 1 t0 by (auto simp: rebind_def Let_def send_def sendFullSnapshot_def)
    then show ?thesis
      using full_snapshot_sync [of r1] assms(1) by (simp add: sim enterRoom_def)
  qed
  have "in_sync r1 i c (length ts)"
    using assms(1,5) b by (simp add: in_sync_def shots_left_def sim)
  from run_sync [OF this assms(4) 2(1)] show ?thesis
    by (simp add: 2(2) full)
qed

text \<open>
  C5. Delta replication is complete. A client that starts with the full snapshot of \<open>start\<close> or
  of a reconnection, whatever it knew before, and applies every later delta, knows at every
  moment the position and hit points of every player and exactly the live projectiles with
  their positions and velocities: the server's state, across ticks, inputs, other players'
  disconnections and reconnections and the end of the battle, as long as its own connection
  stays bound. The projectile counter is assumed not to reach \<open>2^64\<close>.
\<close>

theorem client_replica_in_sync:
  assumes "sim_inv (sim r)" "t0 = TStart \<or> t0 = TRebind i (Some c)"
    and "bound (fst (room_exec hyp t0 r)) i c"
    and "\<forall>t\<in>set ts. keeps_conn i c t" "shots_left r (length ts)"
    and "room_run hyp (t0 # ts) r = (r', es)"
  shows "foldl receive rp0 (msgs_to c es) = view (sim r')"
  using assms by (rule replica_follows)

theorem client_replica_in_sync_witness:
  "(let (r', es) = room_run hypot_exact [TStart, TInput 1 fire_input, TTick, TDrop 2, TTick] demo_room in
      foldl receive \<lparr> rp_players = Map.empty, rp_projectiles = Map.empty \<rparr> (msgs_to 10 es) = view (sim r'))"
proof -
  let ?ts = "[TInput 1 fire_input, TTick, TDrop 2, TTick]"
  obtain r' es where run: "room_run hypot_exact (TStart # ?ts) demo_room = (r', es)"
    by fastforce
  have c: "conns demo_room = [(1, Some 10), (2, Some 20)]"
    by (simp add: demo_room_def newRoom_def)
  have b: "bound (fst (room_exec hypot_exact TStart demo_room)) 1 10"
    by (simp add: bound_def start_def c umap_ok_def)
  have n: "shots_left demo_room (length ?ts)"
    by (simp add: shots_left_def demo_room_def newRoom_def newBattleSim_def addPlayer_def)
  have k: "\<forall>t\<in>set ?ts. keeps_conn 1 10 t"
    by simp
  have i: "sim_inv (sim demo_room)"
    unfolding demo_room_def by (rule newRoom_inv)
  show ?thesis
    unfolding run prod.case Let_def by (rule client_replica_in_sync [OF i disjI1 [OF refl] b k n run])
qed

end
