(* ===== verification/TaskQueue.thy ===== *)
theory TaskQueue
  imports Prelude
begin

text \<open>
  The contract of the two mutex-guarded task vectors of the program, the pending functors of an
  event loop and the front buffer of the asynchronous writer: any thread appends under the
  lock, one consumer swaps the whole vector out and runs the batch outside the lock. The
  client lemmas say what that gives: tasks run in the order they were queued, each once, and
  none is lost. A second locale states invariants of step relations once.
\<close>

subsection \<open>Batch queues\<close>

text \<open>\<open>hist\<close> holds every task ever queued, \<open>executed\<close> those that ran, \<open>batch\<close> what the consumer still has
  to run of the batch it took.\<close>

locale batch_queue =
  fixes queued batch hist executed :: "'q \<Rightarrow> 'f list"
    and push_back :: "'f \<Rightarrow> 'q \<Rightarrow> 'q"
    and swap_out run_one :: "'q \<Rightarrow> 'q"
  assumes push_queued: "queued (push_back f q) = queued q @ [f]" "hist (push_back f q) = hist q @ [f]"
    and push_rest: "batch (push_back f q) = batch q" "executed (push_back f q) = executed q"
    and swap_taken: "queued q \<noteq> [] \<Longrightarrow> batch (swap_out q) = queued q" "queued q \<noteq> [] \<Longrightarrow> queued (swap_out q) = []"
    and swap_empty: "queued q = [] \<Longrightarrow> batch q = [] \<Longrightarrow> batch (swap_out q) = []" "queued q = [] \<Longrightarrow> queued (swap_out q) = []"
    and swap_rest: "hist (swap_out q) = hist q" "executed (swap_out q) = executed q"
    and run_head: "batch q = f # fs \<Longrightarrow> batch (run_one q) = fs" "batch q = f # fs \<Longrightarrow> executed (run_one q) = executed q @ [f]"
    and run_none: "batch q = [] \<Longrightarrow> batch (run_one q) = []" "batch q = [] \<Longrightarrow> executed (run_one q) = executed q"
    and run_rest: "hist (run_one q) = hist q" "queued (run_one q) = queued q"
begin

definition in_order :: "'q \<Rightarrow> bool" where
  "in_order q \<longleftrightarrow> hist q = executed q @ batch q @ queued q"

lemma in_order_push: "in_order q \<Longrightarrow> in_order (push_back f q)"
  by (simp add: in_order_def push_queued push_rest)

lemma in_order_swap: "in_order q \<Longrightarrow> batch q = [] \<Longrightarrow> in_order (swap_out q)"
  by (cases "queued q = []") (simp_all add: in_order_def swap_taken swap_empty swap_rest)

lemma in_order_run: "in_order q \<Longrightarrow> in_order (run_one q)"
  by (cases "batch q") (simp_all add: in_order_def run_head run_none run_rest)

lemma in_order_prefix: "in_order q \<Longrightarrow> \<exists>rest. hist q = executed q @ rest"
  by (auto simp: in_order_def)

lemma in_order_drained: "in_order q \<Longrightarrow> batch q = [] \<Longrightarrow> queued q = [] \<Longrightarrow> executed q = hist q"
  by (simp add: in_order_def)

end

subsection \<open>Transition systems\<close>

locale transition_system =
  fixes init :: "'s \<Rightarrow> bool" and trans :: "'s \<Rightarrow> 's \<Rightarrow> bool"
begin

inductive reach :: "'s \<Rightarrow> bool" where
  reach_init: "init s \<Longrightarrow> reach s"
| reach_step: "reach s \<Longrightarrow> trans s s' \<Longrightarrow> reach s'"

lemma reach_invariant:
  assumes "\<And>s. init s \<Longrightarrow> I s" "\<And>s s'. I s \<Longrightarrow> trans s s' \<Longrightarrow> I s'" "reach s"
  shows "I s"
  using assms(3) by induction (blast intro: assms(1,2))+

lemma reach_rtranclp:
  assumes "reach s" "trans\<^sup>*\<^sup>* s s'"
  shows "reach s'"
  using assms(2,1) by induction (blast intro: reach_step)+

lemma stable_along:
  assumes "\<And>s s'. I s \<Longrightarrow> trans s s' \<Longrightarrow> I s'" "I s" "trans\<^sup>*\<^sup>* s s'"
  shows "I s'"
  using assms(3,2) by induction (blast intro: assms(1))+

end

end
