(* ===== verification/AsyncWriter.thy ===== *)
theory AsyncWriter
  imports TaskQueue
begin

text \<open>
  The asynchronous storage writer of \<^verbatim>\<open>src/src/storage/AsyncWriter.h\<close> and \<^verbatim>\<open>AsyncWriter.cc\<close>. The
  storage thread is a program counter over the critical sections and task executions of
  \<open>threadFunc\<close>; \<open>enqueue\<close> and the destructor's stop request are steps of other threads, so the
  step relation has every interleaving that the mutex allows. \<open>hist\<close> and \<open>executed\<close> are history
  variables: the tasks enqueued and the tasks executed, in order.
\<close>

datatype writer_pc = Waiting | Running | Exited

record 't AsyncWriter =
  front :: "'t list"
  batch :: "'t list"
  stopFlag :: bool
  pc :: writer_pc
  hist :: "'t list"
  executed :: "'t list"

definition newWriter :: "'t AsyncWriter" where
  "newWriter = \<lparr> front = [], batch = [], stopFlag = False, pc = Waiting, hist = [], executed = [] \<rparr>"

text \<open>\<open>enqueue\<close>: one \<open>push_back\<close> under the lock.\<close>

definition enqueue :: "'t \<Rightarrow> 't AsyncWriter \<Rightarrow> 't AsyncWriter" where
  "enqueue t w = w\<lparr> front := front w @ [t], hist := hist w @ [t] \<rparr>"

text \<open>The first half of the destructor; the second is the join.\<close>

definition request_stop :: "'t AsyncWriter \<Rightarrow> 't AsyncWriter" where
  "request_stop w = w\<lparr> stopFlag := True \<rparr>"

text \<open>The critical section of \<open>threadFunc\<close>: the wait condition, the exit test, the swap. None while
  the thread has to wait.\<close>

definition wake :: "'t AsyncWriter \<Rightarrow> 't AsyncWriter option" where
  "wake w =
     (if \<not> (stopFlag w \<or> front w \<noteq> []) then None
      else if front w = [] \<and> stopFlag w then Some (w\<lparr> pc := Exited \<rparr>)
      else Some (w\<lparr> batch := front w, front := [], pc := Running \<rparr>))"

text \<open>The loop over the batch, one task at a time, and \<^verbatim>\<open>batch.clear()\<close>.\<close>

definition run_next :: "'t AsyncWriter \<Rightarrow> 't AsyncWriter" where
  "run_next w =
     (case batch w of
        [] \<Rightarrow> w\<lparr> pc := Waiting \<rparr>
      | t # ts \<Rightarrow> w\<lparr> batch := ts, executed := executed w @ [t] \<rparr>)"

inductive writer_step :: "'t AsyncWriter \<Rightarrow> 't AsyncWriter \<Rightarrow> bool" where
  enqueue_step: "writer_step w (enqueue t w)"
| stop_step: "writer_step w (request_stop w)"
| wake_step: "pc w = Waiting \<Longrightarrow> wake w = Some w' \<Longrightarrow> writer_step w w'"
| run_step: "pc w = Running \<Longrightarrow> writer_step w (run_next w)"

inductive thread_step :: "'t AsyncWriter \<Rightarrow> 't AsyncWriter \<Rightarrow> bool" where
  thread_wake: "pc w = Waiting \<Longrightarrow> wake w = Some w' \<Longrightarrow> thread_step w w'"
| thread_run: "pc w = Running \<Longrightarrow> thread_step w (run_next w)"

inductive_cases writer_stepE: "writer_step w w'"
inductive_cases thread_stepE: "thread_step w w'"

text \<open>The batch the thread takes, when it does not have to wait.\<close>

definition woken :: "'t AsyncWriter \<Rightarrow> 't AsyncWriter" where
  "woken w = (case wake w of None \<Rightarrow> w | Some w' \<Rightarrow> w')"

interpretation front_queue: batch_queue front batch hist executed enqueue woken run_next
  by unfold_locales (auto simp: enqueue_def woken_def wake_def run_next_def split: list.split)

interpretation writer_ts: transition_system "\<lambda>w. w = newWriter" writer_step .

definition writer_inv :: "'t AsyncWriter \<Rightarrow> bool" where
  "writer_inv w \<longleftrightarrow>
     front_queue.in_order w \<and>
     (pc w \<noteq> Running \<longrightarrow> batch w = []) \<and>
     (pc w = Exited \<longrightarrow> stopFlag w)"

lemma writer_inv_step: "writer_inv w \<Longrightarrow> writer_step w w' \<Longrightarrow> writer_inv w'"
proof (erule writer_stepE)
  fix t
  assume "writer_inv w" "w' = enqueue t w"
  then show ?thesis
    using front_queue.in_order_push by (auto simp: writer_inv_def) (simp_all add: enqueue_def)
next
  assume "writer_inv w" "w' = request_stop w"
  then show ?thesis
    by (auto simp: writer_inv_def request_stop_def front_queue.in_order_def)
next
  assume "writer_inv w" "pc w = Waiting" "wake w = Some w'"
  then show ?thesis
    using front_queue.in_order_swap [of w] by (auto simp: writer_inv_def woken_def) (auto simp: wake_def split: if_splits)
next
  assume "writer_inv w" "w' = run_next w" "pc w = Running"
  then show ?thesis
    using front_queue.in_order_run by (auto simp: writer_inv_def) (simp_all add: run_next_def split: list.splits)
qed

lemma writer_inv_new: "writer_inv newWriter"
  by (simp add: newWriter_def writer_inv_def front_queue.in_order_def)

lemma writer_reach_inv: "writer_ts.reach w \<Longrightarrow> writer_inv w"
  by (rule writer_ts.reach_invariant [where I = writer_inv]) (simp_all add: writer_inv_new writer_inv_step)

subsection \<open>Progress of the storage thread\<close>

text \<open>Every step of the thread makes this smaller while nobody enqueues.\<close>

definition work_left :: "'t AsyncWriter \<Rightarrow> nat" where
  "work_left w = 4 * length (front w) + 2 * length (batch w) +
     (case pc w of Waiting \<Rightarrow> 1 | Running \<Rightarrow> 2 | Exited \<Rightarrow> 0)"

lemma thread_step_decreases: "thread_step w w' \<Longrightarrow> writer_inv w \<Longrightarrow> work_left w' < work_left w"
  by (erule thread_stepE)
     (auto simp: work_left_def wake_def run_next_def writer_inv_def neq_Nil_conv split: list.splits if_splits)

lemma thread_step_writer: "thread_step w w' \<Longrightarrow> writer_step w w'"
  by (auto elim!: thread_stepE intro: writer_step.intros)

lemma thread_step_stop: "thread_step w w' \<Longrightarrow> stopFlag w' = stopFlag w \<and> hist w' = hist w"
  by (erule thread_stepE) (auto simp: wake_def run_next_def split: list.splits if_splits)

lemma thread_not_stuck: "stopFlag w \<Longrightarrow> pc w \<noteq> Exited \<Longrightarrow> \<exists>w'. thread_step w w'"
proof (cases "pc w")
  case Waiting
  assume "stopFlag w"
  then obtain w' where "wake w = Some w'"
    by (cases "front w = []") (auto simp: wake_def)
  with Waiting show ?thesis
    by (blast intro: thread_wake)
qed (blast intro: thread_run)+

lemma thread_terminates:
  "writer_inv w \<Longrightarrow> stopFlag w \<Longrightarrow> \<exists>w'. thread_step\<^sup>*\<^sup>* w w' \<and> pc w' = Exited"
proof (induction "work_left w" arbitrary: w rule: less_induct)
  case less
  show ?case
  proof (cases "pc w = Exited")
    case False
    then obtain w1 where w1: "thread_step w w1"
      using thread_not_stuck less.prems(2) by blast
    have "writer_inv w1" "stopFlag w1"
      using writer_inv_step [OF less.prems(1) thread_step_writer [OF w1]] thread_step_stop [OF w1]
        less.prems(2) by auto
    from less.hyps [OF thread_step_decreases [OF w1 less.prems(1)] this] obtain w' where
      "thread_step\<^sup>*\<^sup>* w1 w'" "pc w' = Exited"
      by blast
    with w1 show ?thesis
      by (meson converse_rtranclp_into_rtranclp)
  qed blast
qed

lemma thread_along:
  "thread_step\<^sup>*\<^sup>* w w' \<Longrightarrow> writer_inv w \<Longrightarrow> stopFlag w \<Longrightarrow>
   writer_inv w' \<and> stopFlag w' \<and> hist w' = hist w \<and> (pc w' = Exited \<longrightarrow> pc w \<noteq> Exited \<longrightarrow> front w' = [])"
proof (induction rule: rtranclp_induct)
  case (step y z)
  have "pc z = Exited \<Longrightarrow> front z = []"
    using step.hyps(2) by (auto elim!: thread_stepE simp: wake_def run_next_def split: if_splits list.splits)
  then show ?case
    using step writer_inv_step [OF _ thread_step_writer] thread_step_stop by metis
qed auto

lemma thread_flushes:
  "thread_step\<^sup>*\<^sup>* w w' \<Longrightarrow> writer_inv w \<Longrightarrow> stopFlag w \<Longrightarrow> pc w' = Exited \<Longrightarrow> pc w \<noteq> Exited \<Longrightarrow> executed w' = hist w"
  using thread_along [of w w'] front_queue.in_order_drained [of w'] by (auto simp: writer_inv_def)

text \<open>
  The writer runs every task exactly once, in the order it was enqueued, under every
  interleaving: the tasks executed so far are always a prefix of the tasks enqueued, and when
  the storage thread has left its loop nothing that was in the buffer is left unexecuted.
\<close>

theorem writer_fifo_and_flush:
  assumes "writer_ts.reach w"
  shows "(\<exists>rest. hist w = executed w @ rest) \<and>
    hist w = executed w @ batch w @ front w \<and>
    (pc w = Exited \<longrightarrow> hist w = executed w @ front w \<and> stopFlag w)"
  using writer_reach_inv [OF assms] by (auto simp: writer_inv_def front_queue.in_order_def)

theorem writer_fifo_and_flush_witness:
  "hist (run_next (the (wake (enqueue (8::nat) (enqueue 7 newWriter))))) = [7, 8] \<and>
   (\<exists>rest. [7, 8] = executed (run_next (the (wake (enqueue (8::nat) (enqueue 7 newWriter))))) @ rest)"
proof -
  let ?w1 = "enqueue (8::nat) (enqueue 7 newWriter)"
  let ?w2 = "the (wake ?w1)"
  have 1: "writer_ts.reach ?w1"
    by (intro writer_ts.reach_step [OF _ enqueue_step] writer_ts.reach_init refl)
  have "writer_step ?w1 ?w2"
    by (rule wake_step) (simp_all add: enqueue_def newWriter_def wake_def)
  then have 2: "writer_ts.reach ?w2"
    by (rule writer_ts.reach_step [OF 1])
  have "writer_step ?w2 (run_next ?w2)"
    by (rule run_step) (simp add: enqueue_def newWriter_def wake_def)
  then have "writer_ts.reach (run_next ?w2)"
    by (rule writer_ts.reach_step [OF 2])
  moreover have "hist (run_next ?w2) = [7, 8]"
    by (simp add: enqueue_def newWriter_def wake_def run_next_def)
  ultimately show ?thesis
    using writer_fifo_and_flush [of "run_next ?w2"] by metis
qed



end
