(* ===== verification/EventLoop.thy ===== *)
theory EventLoop
  imports TaskQueue
begin

text \<open>
  The reactor thread of \<^verbatim>\<open>src/src/net/EventLoop.cc\<close>, the thread object that owns one
  (\<^verbatim>\<open>EventLoopThread.cc\<close>) and the round-robin pool (\<^verbatim>\<open>EventLoopThreadPool.cc\<close>). The loop thread is
  a program counter over \<open>loop\<close> and \<open>doPendingFunctors\<close>; \<open>queueInLoop\<close> by any thread is two steps,
  the push under the lock and the write to the eventfd, so a task can be visible before its
  wake-up is. The eventfd is its counter together with the pending edge-triggered notification.
  \<open>hist\<close> and \<open>executed\<close> are history variables. I/O callbacks of the channels are not steps of
  their own here: what they do to the loop is to queue tasks or to quit.
\<close>

subsection \<open>The loop\<close>

datatype loop_pc = NotStarted | Test | Polling | Dispatching | Swapping | RunningBatch | Stopped

record 'f EventLoop =
  pendingFunctors :: "'f list"
  functors :: "'f list"
  quitFlag :: bool
  wakeupCount :: nat
  edge :: bool
  wakeActive :: bool
  owing :: nat
  loopPc :: loop_pc
  hist :: "'f list"
  executed :: "'f list"

definition newEventLoop :: "'f EventLoop" where
  "newEventLoop = \<lparr> pendingFunctors = [], functors = [], quitFlag = False, wakeupCount = 0,
     edge = False, wakeActive = False, owing = 0, loopPc = NotStarted, hist = [], executed = [] \<rparr>"

text \<open>\<open>queueInLoop\<close>: the critical section, and then the write of the eventfd.\<close>

definition queue_push :: "'f \<Rightarrow> 'f EventLoop \<Rightarrow> 'f EventLoop" where
  "queue_push f l = l\<lparr> pendingFunctors := pendingFunctors l @ [f], owing := owing l + 1,
     hist := hist l @ [f] \<rparr>"

definition wakeup :: "'f EventLoop \<Rightarrow> 'f EventLoop" where
  "wakeup l = l\<lparr> wakeupCount := wakeupCount l + 1, edge := True, owing := owing l - 1 \<rparr>"

text \<open>\<open>quit\<close>, from another thread (the flag, then a write still to come) and from the loop thread.\<close>

definition quit :: "bool \<Rightarrow> 'f EventLoop \<Rightarrow> 'f EventLoop" where
  "quit inLoopThread l =
     (if inLoopThread then l\<lparr> quitFlag := True \<rparr> else l\<lparr> quitFlag := True, owing := owing l + 1 \<rparr>)"

text \<open>The steps of \<open>loop\<close>.\<close>

definition loop_enter :: "'f EventLoop \<Rightarrow> 'f EventLoop" where
  "loop_enter l = l\<lparr> quitFlag := False, loopPc := Test \<rparr>"

definition loop_test :: "'f EventLoop \<Rightarrow> 'f EventLoop" where
  "loop_test l = l\<lparr> loopPc := (if quitFlag l then Stopped else Polling) \<rparr>"

text \<open>\<open>poll\<close> returns with the wakeup channel among the active ones when its edge is pending, and
  otherwise for other descriptors or on the timeout.\<close>

definition poll_return :: "'f EventLoop \<Rightarrow> 'f EventLoop" where
  "poll_return l = l\<lparr> wakeActive := edge l, edge := False, loopPc := Dispatching \<rparr>"

definition handleWakeup :: "'f EventLoop \<Rightarrow> 'f EventLoop" where
  "handleWakeup l = l\<lparr> wakeupCount := 0 \<rparr>"

definition dispatch :: "'f EventLoop \<Rightarrow> 'f EventLoop" where
  "dispatch l = (let l = (if wakeActive l then handleWakeup l else l) in
     l\<lparr> wakeActive := False, loopPc := Swapping \<rparr>)"

definition swap_functors :: "'f EventLoop \<Rightarrow> 'f EventLoop" where
  "swap_functors l = l\<lparr> functors := pendingFunctors l, pendingFunctors := [], loopPc := RunningBatch \<rparr>"

definition run_functor :: "'f EventLoop \<Rightarrow> 'f EventLoop" where
  "run_functor l =
     (case functors l of
        [] \<Rightarrow> l\<lparr> loopPc := Test \<rparr>
      | f # fs \<Rightarrow> l\<lparr> functors := fs, executed := executed l @ [f] \<rparr>)"

inductive loop_thread :: "'f EventLoop \<Rightarrow> 'f EventLoop \<Rightarrow> bool" where
  lt_enter: "loopPc l = NotStarted \<Longrightarrow> loop_thread l (loop_enter l)"
| lt_test: "loopPc l = Test \<Longrightarrow> loop_thread l (loop_test l)"
| lt_poll: "loopPc l = Polling \<Longrightarrow> loop_thread l (poll_return l)"
| lt_dispatch: "loopPc l = Dispatching \<Longrightarrow> loop_thread l (dispatch l)"
| lt_swap: "loopPc l = Swapping \<Longrightarrow> loop_thread l (swap_functors l)"
| lt_run: "loopPc l = RunningBatch \<Longrightarrow> loop_thread l (run_functor l)"

text \<open>Everything but a call of \<open>quit\<close>, and everything.\<close>

inductive quiet_step :: "'f EventLoop \<Rightarrow> 'f EventLoop \<Rightarrow> bool" where
  q_thread: "loop_thread l l' \<Longrightarrow> quiet_step l l'"
| q_push: "quiet_step l (queue_push f l)"
| q_wakeup: "0 < owing l \<Longrightarrow> quiet_step l (wakeup l)"

inductive loop_step :: "'f EventLoop \<Rightarrow> 'f EventLoop \<Rightarrow> bool" where
  l_quiet: "quiet_step l l' \<Longrightarrow> loop_step l l'"
| l_quit: "loop_step l (quit False l)"
| l_quit_inside: "loopPc l \<in> {Dispatching, RunningBatch} \<Longrightarrow> loop_step l (quit True l)"

inductive_cases loop_threadE: "loop_thread l l'"
inductive_cases quiet_stepE: "quiet_step l l'"
inductive_cases loop_stepE: "loop_step l l'"

interpretation pending_queue: batch_queue pendingFunctors functors hist executed queue_push swap_functors run_functor
  by unfold_locales (auto simp: queue_push_def swap_functors_def run_functor_def split: list.split)

interpretation loop_ts: transition_system "\<lambda>l. l = newEventLoop" loop_step .

lemmas loop_ops = queue_push_def wakeup_def quit_def loop_enter_def loop_test_def poll_return_def
  handleWakeup_def dispatch_def swap_functors_def run_functor_def Let_def

text \<open>No lost wake-up: unless the thread is between \<open>poll\<close> and the swap, a pending task comes with
  a pending edge or with a thread that is about to write; and so does a quit request that meets
  the thread in \<open>poll\<close>: it comes with a pending edge or with a thread that is about to write.\<close>

definition awake_ok :: "'f EventLoop \<Rightarrow> bool" where
  "awake_ok l \<longleftrightarrow>
     (loopPc l \<in> {NotStarted, Test, Polling, RunningBatch} \<and> pendingFunctors l \<noteq> [] \<longrightarrow> edge l \<or> 0 < owing l) \<and>
     (loopPc l = Polling \<and> quitFlag l \<longrightarrow> edge l \<or> 0 < owing l)"

definition loop_inv :: "'f EventLoop \<Rightarrow> bool" where
  "loop_inv l \<longleftrightarrow>
     pending_queue.in_order l \<and>
     (loopPc l \<noteq> RunningBatch \<longrightarrow> functors l = [])"

lemma loop_inv_frame:
  "hist l' = hist l \<Longrightarrow> executed l' = executed l \<Longrightarrow> functors l' = functors l \<Longrightarrow> pendingFunctors l' = pendingFunctors l \<Longrightarrow>
   (loopPc l' = RunningBatch \<longleftrightarrow> loopPc l = RunningBatch) \<Longrightarrow> loop_inv l \<Longrightarrow> loop_inv l'"
  by (simp add: loop_inv_def pending_queue.in_order_def)

lemma loop_inv_step: "loop_inv l \<Longrightarrow> loop_step l l' \<Longrightarrow> loop_inv l'"
proof (elim loop_stepE quiet_stepE loop_threadE)
  fix f
  assume "loop_inv l" "l' = queue_push f l"
  then show ?thesis
    using pending_queue.in_order_push by (auto simp: loop_inv_def) (simp_all add: queue_push_def)
next
  assume "loop_inv l" "l' = swap_functors l" "loopPc l = Swapping"
  then show ?thesis
    using pending_queue.in_order_swap by (auto simp: loop_inv_def) (simp_all add: swap_functors_def)
next
  assume "loop_inv l" "l' = run_functor l" "loopPc l = RunningBatch"
  then show ?thesis
    using pending_queue.in_order_run by (auto simp: loop_inv_def) (simp_all add: run_functor_def split: list.splits)
qed (rule loop_inv_frame, auto simp: loop_ops)+

lemma awake_ok_step: "awake_ok l \<Longrightarrow> loop_step l l' \<Longrightarrow> awake_ok l'"
  by (elim loop_stepE quiet_stepE loop_threadE) (auto simp: awake_ok_def loop_ops split: list.splits)

lemma loop_inv_new: "loop_inv newEventLoop" "awake_ok newEventLoop"
  by (simp_all add: newEventLoop_def loop_inv_def awake_ok_def pending_queue.in_order_def)

lemma loop_reach_inv: "loop_ts.reach l \<Longrightarrow> loop_inv l \<and> awake_ok l"
  by (rule loop_ts.reach_invariant [where I = "\<lambda>l. loop_inv l \<and> awake_ok l"])
     (auto simp: loop_inv_new intro: loop_inv_step awake_ok_step)



subsection \<open>The owning thread object\<close>

datatype owner_pc = OStart | OWait | ORunning | OJoin | ODone
datatype thread_pc = TNone | TPublish | TLoop | TEnd

record 'f EventLoopThread =
  loopPtr :: bool
  ownerPc :: owner_pc
  threadPc :: thread_pc
  theLoop :: "'f EventLoop"

definition newEventLoopThread :: "'f EventLoopThread" where
  "newEventLoopThread = \<lparr> loopPtr = False, ownerPc = OStart, threadPc = TNone, theLoop = newEventLoop \<rparr>"

text \<open>\<open>startLoop\<close>: spawn the thread, then wait until the pointer is published. \<open>threadFunc\<close>: publish
  the pointer, run the loop, take the pointer back. The destructor: \<open>quit\<close> under the lock, join.\<close>

inductive elt_step :: "'f EventLoopThread \<Rightarrow> 'f EventLoopThread \<Rightarrow> bool" where
  elt_spawn: "ownerPc t = OStart \<Longrightarrow> elt_step t (t\<lparr> ownerPc := OWait, threadPc := TPublish \<rparr>)"
| elt_publish: "threadPc t = TPublish \<Longrightarrow> elt_step t (t\<lparr> loopPtr := True, threadPc := TLoop \<rparr>)"
| elt_started: "ownerPc t = OWait \<Longrightarrow> loopPtr t \<Longrightarrow> elt_step t (t\<lparr> ownerPc := ORunning \<rparr>)"
| elt_destroy: "ownerPc t = ORunning \<Longrightarrow>
    elt_step t (t\<lparr> ownerPc := OJoin,
      theLoop := (if loopPtr t then quit False (theLoop t) else theLoop t) \<rparr>)"
| elt_loop: "threadPc t = TLoop \<Longrightarrow> loop_thread (theLoop t) l \<Longrightarrow> elt_step t (t\<lparr> theLoop := l \<rparr>)"
| elt_queue: "elt_step t (t\<lparr> theLoop := queue_push f (theLoop t) \<rparr>)"
| elt_wakeup: "0 < owing (theLoop t) \<Longrightarrow> elt_step t (t\<lparr> theLoop := wakeup (theLoop t) \<rparr>)"
| elt_return: "threadPc t = TLoop \<Longrightarrow> loopPc (theLoop t) = Stopped \<Longrightarrow>
    elt_step t (t\<lparr> loopPtr := False, threadPc := TEnd \<rparr>)"
| elt_join: "ownerPc t = OJoin \<Longrightarrow> threadPc t = TEnd \<Longrightarrow> elt_step t (t\<lparr> ownerPc := ODone \<rparr>)"

inductive_cases elt_stepE: "elt_step t t'"

interpretation elt_ts: transition_system "\<lambda>t. t = newEventLoopThread" elt_step .

text \<open>The destructor is waiting, the loop runs, and its quit flag is down.\<close>

definition hanging :: "'f EventLoopThread \<Rightarrow> bool" where
  "hanging t \<longleftrightarrow> ownerPc t = OJoin \<and> threadPc t = TLoop \<and> \<not> quitFlag (theLoop t) \<and>
     loopPc (theLoop t) \<notin> {NotStarted, Stopped}"

lemma hanging_step: "hanging t \<Longrightarrow> elt_step t t' \<Longrightarrow> hanging t'"
  by (elim elt_stepE loop_threadE) (auto simp: hanging_def loop_ops split: list.splits)

text \<open>A quit request that finds the loop running is never taken back.\<close>

definition quitting :: "'f EventLoopThread \<Rightarrow> bool" where
  "quitting t \<longleftrightarrow> ownerPc t \<in> {OJoin, ODone} \<and> quitFlag (theLoop t) \<and> loopPc (theLoop t) \<noteq> NotStarted \<and>
     awake_ok (theLoop t)"

lemma elt_step_loop: "elt_step t t' \<Longrightarrow> theLoop t' = theLoop t \<or> loop_step (theLoop t) (theLoop t')"
  by (erule elt_stepE) (simp_all add: l_quit l_quiet q_thread q_push q_wakeup)

lemma loop_thread_quitFlag:
  "loop_thread l l' \<Longrightarrow> loopPc l \<noteq> NotStarted \<Longrightarrow> quitFlag l' = quitFlag l \<and> loopPc l' \<noteq> NotStarted"
  by (elim loop_threadE) (auto simp: loop_ops split: list.splits)

lemma quitting_step:
  assumes "quitting t" "elt_step t t'"
  shows "quitting t'"
proof -
  have "awake_ok (theLoop t')"
    using elt_step_loop [OF assms(2)] assms(1) awake_ok_step by (auto simp: quitting_def)
  moreover have "ownerPc t' \<in> {OJoin, ODone} \<and> quitFlag (theLoop t') \<and> loopPc (theLoop t') \<noteq> NotStarted"
    using assms(2,1)
    by cases (auto simp: quitting_def queue_push_def wakeup_def dest: loop_thread_quitFlag)
  ultimately show ?thesis
    by (simp add: quitting_def)
qed

text \<open>
  Destroying an \<^verbatim>\<open>EventLoopThread\<close> right after \<open>startLoop\<close> can block for ever. \<open>startLoop\<close> returns
  as soon as the loop pointer is published, before the thread has entered \<open>loop\<close>; \<open>loop\<close> begins
  with \<^verbatim>\<open>quit_ = false\<close> and so takes back a \<open>quit\<close> that came first. There is a reachable state in
  which the destructor is joining and from which no execution at all lets the join return.
\<close>

theorem thread_destructor_can_hang:
  "\<exists>t :: unit EventLoopThread. elt_ts.reach t \<and> ownerPc t = OJoin \<and>
     \<not> (\<exists>t'. elt_step\<^sup>*\<^sup>* t t' \<and> ownerPc t' = ODone)"
proof -
  define t0 where "t0 = (newEventLoopThread :: unit EventLoopThread)"
  define t1 where "t1 = t0\<lparr> ownerPc := OWait, threadPc := TPublish \<rparr>"
  define t2 where "t2 = t1\<lparr> loopPtr := True, threadPc := TLoop \<rparr>"
  define t3 where "t3 = t2\<lparr> ownerPc := ORunning \<rparr>"
  define t4 where "t4 = t3\<lparr> ownerPc := OJoin,
    theLoop := (if loopPtr t3 then quit False (theLoop t3) else theLoop t3) \<rparr>"
  define t5 where "t5 = t4\<lparr> theLoop := loop_enter (theLoop t4) \<rparr>"
  note defs = t0_def t1_def t2_def t3_def t4_def t5_def newEventLoopThread_def newEventLoop_def quit_def
  have "elt_step t0 t1"
    unfolding t1_def by (rule elt_spawn) (simp add: defs)
  moreover have "elt_step t1 t2"
    unfolding t2_def by (rule elt_publish) (simp add: defs)
  moreover have "elt_step t2 t3"
    unfolding t3_def by (rule elt_started) (simp_all add: defs)
  moreover have "elt_step t3 t4"
    unfolding t4_def by (rule elt_destroy) (simp add: defs)
  moreover have "elt_step t4 t5"
    unfolding t5_def by (rule elt_loop [OF _ lt_enter]) (simp_all add: defs)
  ultimately have "elt_ts.reach t5"
    using elt_ts.reach_init [OF t0_def] elt_ts.reach_step by metis
  moreover have h: "hanging t5"
    by (simp add: hanging_def loop_enter_def defs)
  moreover have "ownerPc t' \<noteq> ODone" if "elt_step\<^sup>*\<^sup>* t5 t'" for t'
    using elt_ts.stable_along [of hanging, OF hanging_step h that] by (simp add: hanging_def)
  ultimately show ?thesis
    by (auto simp: hanging_def)
qed

text \<open>
  In the other order the destructor works: when \<open>quit\<close> finds the loop already entered, the
  request is never taken back, the loop is never left blocking without a wake-up on its way,
  and the next test of the flag stops it.
\<close>

theorem thread_destructor_quits_running_loop:
  assumes "elt_ts.reach t" "ownerPc t = ORunning" "loopPtr t" "loopPc (theLoop t) \<noteq> NotStarted"
    and "elt_step\<^sup>*\<^sup>* (t\<lparr> ownerPc := OJoin, theLoop := quit False (theLoop t) \<rparr>) t'"
  shows "quitFlag (theLoop t') \<and>
    (loopPc (theLoop t') = Polling \<longrightarrow> edge (theLoop t') \<or> 0 < owing (theLoop t')) \<and>
    (loopPc (theLoop t') = Test \<longrightarrow> loopPc (loop_test (theLoop t')) = Stopped)"
proof -
  have "awake_ok (theLoop t)"
    using assms(1)
  proof induction
    case (reach_init s)
    then show ?case
      by (simp add: newEventLoopThread_def loop_inv_new)
  next
    case (reach_step s s')
    then show ?case
      using elt_step_loop awake_ok_step by metis
  qed
  then have "awake_ok (quit False (theLoop t))"
    using awake_ok_step l_quit by blast
  then have "quitting (t\<lparr> ownerPc := OJoin, theLoop := quit False (theLoop t) \<rparr>)"
    using assms(4) by (simp add: quitting_def quit_def)
  from elt_ts.stable_along [of quitting, OF quitting_step this assms(5)] show ?thesis
    by (auto simp: quitting_def awake_ok_def loop_test_def)
qed

theorem thread_destructor_quits_running_loop_witness:
  "quitFlag (quit False (loop_enter newEventLoop))"
proof -
  define t0 where "t0 = (newEventLoopThread :: unit EventLoopThread)"
  define t1 where "t1 = t0\<lparr> ownerPc := OWait, threadPc := TPublish \<rparr>"
  define t2 where "t2 = t1\<lparr> loopPtr := True, threadPc := TLoop \<rparr>"
  define t3 where "t3 = t2\<lparr> ownerPc := ORunning \<rparr>"
  define t4 where "t4 = t3\<lparr> theLoop := loop_enter (theLoop t3) \<rparr>"
  note defs = t0_def t1_def t2_def t3_def t4_def newEventLoopThread_def newEventLoop_def
  have "elt_step t0 t1"
    unfolding t1_def by (rule elt_spawn) (simp add: defs)
  moreover have "elt_step t1 t2"
    unfolding t2_def by (rule elt_publish) (simp add: defs)
  moreover have "elt_step t2 t3"
    unfolding t3_def by (rule elt_started) (simp_all add: defs)
  moreover have "elt_step t3 t4"
    unfolding t4_def by (rule elt_loop [OF _ lt_enter]) (simp_all add: defs)
  ultimately have "elt_ts.reach t4"
    using elt_ts.reach_init [OF t0_def] elt_ts.reach_step by metis
  from thread_destructor_quits_running_loop [OF this _ _ _ rtranclp.rtrancl_refl] show ?thesis
    by (simp add: defs loop_enter_def quit_def)
qed

subsection \<open>The pool\<close>

text \<open>Loops are numbers; \<open>baseLoop\<close> serves when there are no threads.\<close>

record EventLoopThreadPool =
  baseLoop :: nat
  loops :: "nat list"
  nextLoop :: nat

definition newPool :: "nat \<Rightarrow> EventLoopThreadPool" where
  "newPool base = \<lparr> baseLoop = base, loops = [], nextLoop = 0 \<rparr>"

text \<open>\<open>start\<close> appends one started loop per thread; \<open>new\<close> names the loops.\<close>

fun pool_start :: "(nat \<Rightarrow> nat) \<Rightarrow> nat \<Rightarrow> EventLoopThreadPool \<Rightarrow> EventLoopThreadPool" where
  "pool_start new 0 p = p"
| "pool_start new (Suc n) p = (let p = pool_start new n p in p\<lparr> loops := loops p @ [new n] \<rparr>)"

definition getNextLoop :: "EventLoopThreadPool \<Rightarrow> nat \<times> EventLoopThreadPool" where
  "getNextLoop p =
     (if loops p = [] then (baseLoop p, p)
      else (loops p ! nextLoop p, p\<lparr> nextLoop := (nextLoop p + 1) mod length (loops p) \<rparr>))"

fun nth_loop :: "nat \<Rightarrow> EventLoopThreadPool \<Rightarrow> nat" where
  "nth_loop 0 p = fst (getNextLoop p)"
| "nth_loop (Suc k) p = nth_loop k (snd (getNextLoop p))"

lemma pool_start_loops [simp]:
  "loops (pool_start new n p) = loops p @ map new [0..<n]"
  "nextLoop (pool_start new n p) = nextLoop p" "baseLoop (pool_start new n p) = baseLoop p"
  by (induction n) (simp_all add: Let_def)

lemma nth_loop_offset:
  "loops p \<noteq> [] \<Longrightarrow> nextLoop p < length (loops p) \<Longrightarrow>
   nth_loop k p = loops p ! ((nextLoop p + k) mod length (loops p))"
proof (induction k arbitrary: p)
  case (Suc k)
  let ?p = "snd (getNextLoop p)"
  have p: "loops ?p = loops p" "nextLoop ?p = (nextLoop p + 1) mod length (loops p)"
    using Suc.prems by (simp_all add: getNextLoop_def)
  have "nth_loop k ?p = loops p ! (((nextLoop p + 1) mod length (loops p) + k) mod length (loops p))"
    using Suc.IH [of ?p] Suc.prems p by simp
  then show ?case
    by (simp add: mod_add_left_eq)
qed (simp add: getNextLoop_def)

text \<open>
  Round robin: with \<open>n\<close> threads, the \<open>k\<close>-th connection or room goes to loop \<open>k mod n\<close> of the
  pool, and the index into the vector is always in range; with no threads everything goes to
  the base loop.
\<close>

theorem pool_round_robin:
  "nth_loop k (pool_start new n (newPool base)) = (if n = 0 then base else new (k mod n))"
proof (cases "n = 0")
  case True
  have "nth_loop k p = base" if "loops p = []" "baseLoop p = base" for p
    using that by (induction k) (simp_all add: getNextLoop_def)
  then show ?thesis
    using True by (simp add: newPool_def)
next
  case False
  then show ?thesis
    using nth_loop_offset [of "pool_start new n (newPool base)" k] by (simp add: newPool_def)
qed

end
