(* ===== verification/Channel.thy ===== *)
theory Channel
  imports Prelude
begin

text \<open>
  Event channels and the epoll wrapper: \<^verbatim>\<open>src/src/net/Channel.h\<close>, \<^verbatim>\<open>Channel.cc\<close>, \<^verbatim>\<open>EPollPoller.h\<close> and
  \<^verbatim>\<open>EPollPoller.cc\<close>. Event masks are 32-bit words with the constants of \<^verbatim>\<open>sys/epoll.h\<close>. The poller's
  state holds the channels by descriptor and, as the model of the kernel, the interest list of
  the epoll instance with the documented outcome of \<^verbatim>\<open>epoll_ctl\<close>: ADD fails on a descriptor that
  is listed, MOD and DEL on one that is not. A failure is recorded where the code prints it.
\<close>

unbundle bit_operations_syntax

type_synonym mask = "32 word"

definition EPOLLIN :: mask where "EPOLLIN = 0x001"
definition EPOLLPRI :: mask where "EPOLLPRI = 0x002"
definition EPOLLOUT :: mask where "EPOLLOUT = 0x004"
definition EPOLLERR :: mask where "EPOLLERR = 0x008"
definition EPOLLHUP :: mask where "EPOLLHUP = 0x010"
definition EPOLLRDHUP :: mask where "EPOLLRDHUP = 0x2000"
definition EPOLLET :: mask where "EPOLLET = 0x80000000"

lemmas epoll_bits = EPOLLIN_def EPOLLPRI_def EPOLLOUT_def EPOLLERR_def EPOLLHUP_def EPOLLRDHUP_def
  EPOLLET_def

subsection \<open>Channels\<close>

datatype ch_index = kNew | kAdded | kDeleted

record Channel =
  fd :: nat
  events :: mask
  revents :: mask
  index :: ch_index
  readCb :: bool
  writeCb :: bool
  closeCb :: bool
  errorCb :: bool

definition newChannel :: "nat \<Rightarrow> Channel" where
  "newChannel f = \<lparr> fd = f, events = 0, revents = 0, index = kNew, readCb = False, writeCb = False,
     closeCb = False, errorCb = False \<rparr>"

definition isWriting :: "Channel \<Rightarrow> bool" where
  "isWriting ch \<longleftrightarrow> events ch AND EPOLLOUT \<noteq> 0"

definition isNoneEvent :: "Channel \<Rightarrow> bool" where
  "isNoneEvent ch \<longleftrightarrow> events ch = 0"

text \<open>\<open>handleEvent\<close> calls the callbacks that are set, in this order.\<close>

datatype callback = ReadCb | WriteCb | CloseCb | ErrorCb

definition handleEvent :: "Channel \<Rightarrow> callback list" where
  "handleEvent ch =
     (if revents ch AND EPOLLHUP \<noteq> 0 \<and> revents ch AND EPOLLIN = 0
      then (if closeCb ch then [CloseCb] else [])
      else (if revents ch AND EPOLLERR \<noteq> 0 \<and> errorCb ch then [ErrorCb] else []) @
           (if revents ch AND (EPOLLIN OR EPOLLPRI OR EPOLLRDHUP) \<noteq> 0 \<and> readCb ch then [ReadCb] else []) @
           (if revents ch AND EPOLLOUT \<noteq> 0 \<and> writeCb ch then [WriteCb] else []))"

subsection \<open>The poller\<close>

datatype ctl_op = CtlAdd | CtlMod | CtlDel

record Poller =
  channels :: "(nat, Channel) umap"
  interest :: "nat \<rightharpoonup> mask"
  eventListSize :: nat
  ctl_errors :: "(ctl_op \<times> nat) list"

definition newPoller :: Poller where
  "newPoller = \<lparr> channels = [], interest = Map.empty, eventListSize = 16, ctl_errors = [] \<rparr>"

text \<open>\<open>EPollPoller::update\<close>: \<^verbatim>\<open>epoll_ctl\<close> and the report of a failure.\<close>

definition ctl :: "ctl_op \<Rightarrow> Channel \<Rightarrow> Poller \<Rightarrow> Poller" where
  "ctl op ch p =
     (let listed = interest p (fd ch) \<noteq> None;
          failed = (case op of CtlAdd \<Rightarrow> listed | _ \<Rightarrow> \<not> listed)
      in if failed then p\<lparr> ctl_errors := ctl_errors p @ [(op, fd ch)] \<rparr>
         else p\<lparr> interest := (interest p)(fd ch := (if op = CtlDel then None else Some (events ch))) \<rparr>)"

definition updateChannel :: "Channel \<Rightarrow> Poller \<Rightarrow> Channel \<times> Poller" where
  "updateChannel ch p =
     (if index ch = kNew \<or> index ch = kDeleted
      then let ch' = ch\<lparr> index := kAdded \<rparr> in
        (ch', ctl CtlAdd ch' (p\<lparr> channels := AList.update (fd ch) ch' (channels p) \<rparr>))
      else if isNoneEvent ch then (ch\<lparr> index := kDeleted \<rparr>, ctl CtlDel ch p)
      else (ch, ctl CtlMod ch p))"

definition removeChannel :: "Channel \<Rightarrow> Poller \<Rightarrow> Channel \<times> Poller" where
  "removeChannel ch p =
     (let p = p\<lparr> channels := AList.delete (fd ch) (channels p) \<rparr>;
          p = (if index ch = kAdded then ctl CtlDel ch p else p)
      in (ch\<lparr> index := kNew \<rparr>, p))"

definition enableReading :: "Channel \<Rightarrow> Poller \<Rightarrow> Channel \<times> Poller" where
  "enableReading ch p = updateChannel (ch\<lparr> events := events ch OR (EPOLLIN OR EPOLLPRI OR EPOLLET) \<rparr>) p"

definition enableWriting :: "Channel \<Rightarrow> Poller \<Rightarrow> Channel \<times> Poller" where
  "enableWriting ch p = updateChannel (ch\<lparr> events := events ch OR EPOLLOUT \<rparr>) p"

definition disableWriting :: "Channel \<Rightarrow> Poller \<Rightarrow> Channel \<times> Poller" where
  "disableWriting ch p = updateChannel (ch\<lparr> events := events ch AND NOT EPOLLOUT \<rparr>) p"

definition disableAll :: "Channel \<Rightarrow> Poller \<Rightarrow> Channel \<times> Poller" where
  "disableAll ch p = updateChannel (ch\<lparr> events := 0 \<rparr>) p"

text \<open>\<open>poll\<close>: what \<^verbatim>\<open>epoll_wait\<close> reported, as the list of active channels with their \<open>revents\<close>; a full
  list doubles the buffer.\<close>

definition poll :: "(Channel \<times> mask) list option \<Rightarrow> Poller \<Rightarrow> Channel list \<times> Poller" where
  "poll res p =
     (case res of
        None \<Rightarrow> ([], p)
      | Some evs \<Rightarrow>
          (map (\<lambda>(ch, rev). ch\<lparr> revents := rev \<rparr>) evs,
           if length evs = eventListSize p then p\<lparr> eventListSize := eventListSize p * 2 \<rparr> else p))"

subsection \<open>Runs over several channels\<close>

text \<open>The channel objects of a loop, by descriptor, with the poller they are registered at.\<close>

datatype ch_op = OEnableReading | OEnableWriting | ODisableWriting | ODisableAll | ORemove

fun ch_exec :: "ch_op \<Rightarrow> Channel \<Rightarrow> Poller \<Rightarrow> Channel \<times> Poller" where
  "ch_exec OEnableReading = enableReading"
| "ch_exec OEnableWriting = enableWriting"
| "ch_exec ODisableWriting = disableWriting"
| "ch_exec ODisableAll = disableAll"
| "ch_exec ORemove = removeChannel"

fun ch_run :: "(nat \<times> ch_op) list \<Rightarrow> (nat \<Rightarrow> Channel) \<Rightarrow> Poller \<Rightarrow> (nat \<Rightarrow> Channel) \<times> Poller" where
  "ch_run [] cs p = (cs, p)"
| "ch_run ((f, op) # ops) cs p =
     (let (ch, p') = ch_exec op (cs f) p in ch_run ops (cs(f := ch)) p')"

definition poller_inv :: "(nat \<Rightarrow> Channel) \<Rightarrow> Poller \<Rightarrow> bool" where
  "poller_inv cs p \<longleftrightarrow> ctl_errors p = [] \<and>
     (\<forall>f. fd (cs f) = f \<and>
          interest p f = (if index (cs f) = kAdded then Some (events (cs f)) else None) \<and>
          (map_of (channels p) f \<noteq> None \<longleftrightarrow> index (cs f) \<noteq> kNew))"

text \<open>What one update does when the kernel's list agrees with the channel's index.\<close>

lemma updateChannel_spec:
  assumes "interest p (fd ch) \<noteq> None \<longleftrightarrow> index ch = kAdded" "updateChannel ch p = (ch', p')"
  shows "fd ch' = fd ch \<and> events ch' = events ch \<and> ctl_errors p' = ctl_errors p \<and> index ch' \<noteq> kNew \<and>
    interest p' = (interest p)(fd ch := (if index ch' = kAdded then Some (events ch) else None)) \<and>
    (index ch' = kDeleted \<longrightarrow> events ch = 0) \<and>
    (\<forall>g. map_of (channels p') g \<noteq> None \<longleftrightarrow>
       (g = fd ch \<and> index ch \<noteq> kAdded) \<or> map_of (channels p) g \<noteq> None)"
  using assms
  by (cases "index ch") (auto simp: updateChannel_def ctl_def Let_def isNoneEvent_def umap_simps split: if_splits)

lemma removeChannel_spec:
  assumes "interest p (fd ch) \<noteq> None \<longleftrightarrow> index ch = kAdded" "removeChannel ch p = (ch', p')"
  shows "fd ch' = fd ch \<and> events ch' = events ch \<and> ctl_errors p' = ctl_errors p \<and> index ch' = kNew \<and>
    interest p' = (interest p)(fd ch := None) \<and>
    (\<forall>g. map_of (channels p') g \<noteq> None \<longleftrightarrow> g \<noteq> fd ch \<and> map_of (channels p) g \<noteq> None)"
  using assms
  by (cases "index ch") (auto simp: removeChannel_def ctl_def Let_def umap_simps fun_eq_iff split: if_splits)

lemma ch_exec_update:
  "op \<noteq> ORemove \<Longrightarrow> \<exists>e. ch_exec op ch p = updateChannel (ch\<lparr> events := e \<rparr>) p"
  by (cases op) (auto simp: enableReading_def enableWriting_def disableWriting_def disableAll_def)

lemma ch_exec_inv:
  assumes "poller_inv cs p" "ch_exec op (cs f) p = (ch, p')"
  shows "poller_inv (cs(f := ch)) p'"
proof -
  have f: "fd (cs f) = f" "interest p f \<noteq> None \<longleftrightarrow> index (cs f) = kAdded"
    "map_of (channels p) f \<noteq> None \<longleftrightarrow> index (cs f) \<noteq> kNew" "ctl_errors p = []"
    using assms(1) by (auto simp: poller_inv_def)
  show ?thesis
  proof (cases "op = ORemove")
    case True
    then have "removeChannel (cs f) p = (ch, p')"
      using assms(2) by simp
    note r = removeChannel_spec [OF _ this, unfolded f(1), OF f(2)]
    have "fd ((cs(f := ch)) g) = g \<and>
        interest p' g = (if index ((cs(f := ch)) g) = kAdded then Some (events ((cs(f := ch)) g)) else None) \<and>
        (map_of (channels p') g \<noteq> None \<longleftrightarrow> index ((cs(f := ch)) g) \<noteq> kNew)" for g
      using r assms(1) by (cases "g = f") (simp_all add: poller_inv_def)
    then show ?thesis
      using r f(4) by (simp add: poller_inv_def)
  next
    case False
    then obtain e where e: "updateChannel (cs f\<lparr> events := e \<rparr>) p = (ch, p')"
      using ch_exec_update assms(2) by metis
    have "interest p (fd (cs f\<lparr> events := e \<rparr>)) \<noteq> None \<longleftrightarrow> index (cs f\<lparr> events := e \<rparr>) = kAdded"
      using f by simp
    note u = updateChannel_spec [OF this e]
    have "fd ((cs(f := ch)) g) = g \<and>
        interest p' g = (if index ((cs(f := ch)) g) = kAdded then Some (events ((cs(f := ch)) g)) else None) \<and>
        (map_of (channels p') g \<noteq> None \<longleftrightarrow> index ((cs(f := ch)) g) \<noteq> kNew)" for g
    proof (cases "g = f")
      case True
      have "map_of (channels p') f \<noteq> None"
        using u f by auto
      then show ?thesis
        using u True by (simp add: f(1))
    next
      case False
      then show ?thesis
        using u assms(1) by (simp add: poller_inv_def f(1))
    qed
    then show ?thesis
      using u f(4) by (simp add: poller_inv_def)
  qed
qed

lemma ch_run_inv: "poller_inv cs p \<Longrightarrow> ch_run ops cs p = (cs', p') \<Longrightarrow> poller_inv cs' p'"
proof (induction ops arbitrary: cs p)
  case (Cons fop ops)
  obtain f op where fop: "fop = (f, op)"
    by (cases fop)
  obtain ch p1 where 1: "ch_exec op (cs f) p = (ch, p1)"
    by fastforce
  show ?case
    using Cons.IH [OF ch_exec_inv [OF Cons.prems(1) 1]] Cons.prems(2) by (simp add: fop 1 del: fun_upd_apply)
qed simp

lemma poller_inv_new: "poller_inv newChannel newPoller"
  by (simp add: poller_inv_def newPoller_def newChannel_def)

text \<open>
  C33. The poller and the kernel agree. Over every sequence of enable, disable and remove calls on
  any set of channels, no \<^verbatim>\<open>epoll_ctl\<close> call ever fails, a descriptor is in the kernel's interest
  list exactly when its channel's index says so, with exactly the channel's event mask, and
  the table \<^verbatim>\<open>channels_\<close> holds exactly the channels that were added and not removed.
\<close>

theorem poller_agrees_with_kernel:
  assumes "ch_run ops newChannel newPoller = (cs, p)"
  shows "ctl_errors p = [] \<and>
    interest p f = (if index (cs f) = kAdded then Some (events (cs f)) else None) \<and>
    (map_of (channels p) f \<noteq> None \<longleftrightarrow> index (cs f) \<noteq> kNew)"
  using ch_run_inv [OF poller_inv_new assms] by (simp add: poller_inv_def)

theorem poller_agrees_with_kernel_witness:
  "(let (cs, p) = ch_run [(5, OEnableReading), (6, OEnableReading), (5, OEnableWriting), (6, ODisableAll)]
       newChannel newPoller in ctl_errors p = [] \<and> interest p 6 = None)"
proof -
  let ?ops = "[(5, OEnableReading), (6, OEnableReading), (5, OEnableWriting), (6, ODisableAll)]"
  obtain cs p where run: "ch_run ?ops newChannel newPoller = (cs, p)"
    by fastforce
  have "index (fst (ch_run ?ops newChannel newPoller) 6) = kDeleted"
    by (simp add: enableReading_def enableWriting_def disableAll_def updateChannel_def newChannel_def
        isNoneEvent_def Let_def)
  then show ?thesis
    using poller_agrees_with_kernel [OF run, of 6] by (simp only: run Let_def prod.case) simp
qed

text \<open>
  C31. Disabling an already disabled channel registers it again: \<open>updateChannel\<close> takes the branch of
  \<open>kDeleted\<close> and issues \<^verbatim>\<open>EPOLL_CTL_ADD\<close> with an empty mask, where the header promises a deletion
  for an empty mask. The descriptor is back in the interest list, and the kernel reports
  errors and hang-ups for it in spite of the empty mask.
\<close>

theorem second_disableAll_readds:
  assumes "index ch = kAdded" "interest p (fd ch) = Some m" "disableAll ch p = (ch1, p1)"
    and "disableAll ch1 p1 = (ch2, p2)"
  shows "interest p1 (fd ch) = None \<and> index ch1 = kDeleted \<and>
    interest p2 (fd ch) = Some 0 \<and> index ch2 = kAdded"
  using assms by (auto simp: disableAll_def updateChannel_def ctl_def isNoneEvent_def Let_def)

theorem second_disableAll_readds_witness:
  "(let (ch, p) = enableReading (newChannel 5) newPoller; (ch1, p1) = disableAll ch p;
        (ch2, p2) = disableAll ch1 p1 in interest p2 5 = Some 0)"
proof -
  obtain ch p where 0: "enableReading (newChannel 5) newPoller = (ch, p)"
    by fastforce
  obtain ch1 p1 where 1: "disableAll ch p = (ch1, p1)"
    by fastforce
  obtain ch2 p2 where 2: "disableAll ch1 p1 = (ch2, p2)"
    by fastforce
  have "index ch = kAdded" "fd ch = 5" "interest p (fd ch) = Some (EPOLLIN OR EPOLLPRI OR EPOLLET)"
    using 0 by (auto simp: enableReading_def updateChannel_def newChannel_def newPoller_def ctl_def Let_def)
  with second_disableAll_readds [OF this(1,3) 1 2] show ?thesis
    by (simp only: Let_def 0 1 2 prod.case)
qed

end
