(* ===== verification/TcpConnection.thy ===== *)
theory TcpConnection
  imports ProtobufCodec Channel
begin

text \<open>
  A TCP connection, \<^verbatim>\<open>src/src/net/TcpConnection.h\<close> and \<^verbatim>\<open>TcpConnection.cc\<close>, with its channel, its two
  buffers and the poller of its loop. Every private method runs on the connection's loop, so
  each is one function. The answers of the kernel to \<^verbatim>\<open>readv\<close> and \<^verbatim>\<open>write\<close> are arguments: a loop that
  reads or writes until it is told to stop takes the list of the answers it gets, and its
  value is None when the answers run out or contradict the manual page (a \<^verbatim>\<open>write\<close> of more bytes
  than it was given, or of none). \<open>wire\<close> collects the bytes the kernel has accepted, \<open>sent\<close> the bytes
  handed to \<open>sendInLoop\<close> before the connection was closed, and \<open>wrShut\<close> tells that the write side
  has been shut down: history variables. The message callback is an argument; it gets the
  connection and may send on it or shut it down.
\<close>

datatype conn_state = kConnecting | kConnected | kDisconnecting | kDisconnected

record TcpConnection =
  state :: conn_state
  channel :: Channel
  poller :: Poller
  inputBuffer :: Buffer
  outputBuffer :: Buffer
  connectionCbSet :: bool
  closeCbSet :: bool
  wire :: "byte list"
  sent :: "byte list"
  wrShut :: bool

datatype 'e conn_effect = ConnectionCb bool | CloseCallback | ShutdownWr | User 'e

datatype write_result = Wrote nat | WriteFail errno

definition newConnection :: "nat \<Rightarrow> Poller \<Rightarrow> TcpConnection" where
  "newConnection sockfd p = \<lparr> state = kConnecting,
     channel = (newChannel sockfd)\<lparr> readCb := True, writeCb := True, closeCb := True, errorCb := True \<rparr>,
     poller = p, inputBuffer = newBuffer, outputBuffer = newBuffer, connectionCbSet = True,
     closeCbSet = True, wire = [], sent = [], wrShut = False \<rparr>"

definition connected :: "TcpConnection \<Rightarrow> bool" where
  "connected c \<longleftrightarrow> state c = kConnected"

text \<open>Channel operations of the connection.\<close>

definition on_channel :: "(Channel \<Rightarrow> Poller \<Rightarrow> Channel \<times> Poller) \<Rightarrow> TcpConnection \<Rightarrow> TcpConnection" where
  "on_channel f c = (case f (channel c) (poller c) of (ch, p) \<Rightarrow> c\<lparr> channel := ch, poller := p \<rparr>)"

definition call_connectionCb :: "TcpConnection \<Rightarrow> 'e conn_effect list" where
  "call_connectionCb c = (if connectionCbSet c then [ConnectionCb (connected c)] else [])"

definition connectEstablished :: "TcpConnection \<Rightarrow> TcpConnection \<times> 'e conn_effect list" where
  "connectEstablished c =
     (let c = on_channel enableReading (c\<lparr> state := kConnected \<rparr>) in (c, call_connectionCb c))"

definition connectDestroyed :: "TcpConnection \<Rightarrow> TcpConnection \<times> 'e conn_effect list" where
  "connectDestroyed c =
     (let (c, es) =
        (if state c = kConnected
         then let c = on_channel disableAll (c\<lparr> state := kDisconnected \<rparr>) in (c, call_connectionCb c)
         else (c, []))
      in (on_channel removeChannel c, es))"

definition handleClose :: "TcpConnection \<Rightarrow> TcpConnection \<times> 'e conn_effect list" where
  "handleClose c =
     (let c = on_channel disableAll (c\<lparr> state := kDisconnected \<rparr>) in
      (c, call_connectionCb c @ (if closeCbSet c then [CloseCallback] else [])))"

definition handleError :: "TcpConnection \<Rightarrow> TcpConnection \<times> 'e conn_effect list" where
  "handleError c = handleClose c"

datatype read_end = ReadAgain | ReadEof | ReadError

fun read_loop :: "readv_result list \<Rightarrow> Buffer \<Rightarrow> (Buffer \<times> read_end) option" where
  "read_loop [] b = None"
| "read_loop (r # rs) b =
     (case readFd b r of (b', n, err) \<Rightarrow>
        if 0 < n then read_loop rs b'
        else if n = 0 then Some (b', ReadEof)
        else if err = Some EAGAIN then Some (b', ReadAgain)
        else if err = Some EINTR then read_loop rs b'
        else Some (b', ReadError))"

definition handleRead ::
  "(TcpConnection \<Rightarrow> TcpConnection \<times> 'e conn_effect list) option \<Rightarrow> readv_result list \<Rightarrow> TcpConnection \<Rightarrow>
   (TcpConnection \<times> 'e conn_effect list) option" where
  "handleRead messageCb rs c =
     (case read_loop rs (inputBuffer c) of
        None \<Rightarrow> None
      | Some (b, end) \<Rightarrow>
          let c = c\<lparr> inputBuffer := b \<rparr> in
          if end = ReadError then Some (handleError c)
          else
            let (c, es) = (case messageCb of
                  Some f \<Rightarrow> if 0 < readableBytes (inputBuffer c) then f c else (c, [])
                | None \<Rightarrow> (c, []));
                (c, es') = (if end = ReadEof then handleClose c else (c, []))
            in Some (c, es @ es'))"

definition shutdownInLoop :: "TcpConnection \<Rightarrow> TcpConnection \<times> 'e conn_effect list" where
  "shutdownInLoop c =
     (if \<not> isWriting (channel c) then (c\<lparr> wrShut := True \<rparr>, [ShutdownWr]) else (c, []))"

datatype write_end = WriteDone | WriteAgain | WriteError

fun write_loop :: "write_result list \<Rightarrow> TcpConnection \<Rightarrow> (TcpConnection \<times> write_end) option" where
  "write_loop ws c =
     (if readableBytes (outputBuffer c) = 0 then Some (c, WriteDone)
      else case ws of
        [] \<Rightarrow> None
      | Wrote n # ws \<Rightarrow>
          if n = 0 then None
          else (case retrieve (outputBuffer c) n of
                  None \<Rightarrow> None
                | Some b \<Rightarrow>
                    write_loop ws (c\<lparr> wire := wire c @ take n (content (outputBuffer c)), outputBuffer := b \<rparr>))
      | WriteFail e # ws \<Rightarrow>
          if e = EAGAIN then Some (c, WriteAgain)
          else if e = EINTR then write_loop ws c
          else Some (c, WriteError))"

declare write_loop.simps [simp del]

definition handleWrite :: "write_result list \<Rightarrow> TcpConnection \<Rightarrow> (TcpConnection \<times> 'e conn_effect list) option" where
  "handleWrite ws c =
     (if \<not> isWriting (channel c) then Some (c, [])
      else case write_loop ws c of
        None \<Rightarrow> None
      | Some (c, WriteAgain) \<Rightarrow> Some (c, [])
      | Some (c, WriteError) \<Rightarrow> Some (handleError c)
      | Some (c, WriteDone) \<Rightarrow>
          let c = on_channel disableWriting c in
          Some (if state c = kDisconnecting then shutdownInLoop c else (c, [])))"

text \<open>The tail of \<open>sendInLoop\<close>: what was not written goes to the buffer.\<close>

definition queueRest :: "byte list \<Rightarrow> nat \<Rightarrow> TcpConnection \<Rightarrow> TcpConnection" where
  "queueRest msg nwrote c =
     (if 0 < length msg - nwrote
      then let c = c\<lparr> outputBuffer := append (outputBuffer c) (drop nwrote msg) \<rparr>
           in if \<not> isWriting (channel c) then on_channel enableWriting c else c
      else c)"

definition sendInLoop :: "byte list \<Rightarrow> write_result \<Rightarrow> TcpConnection \<Rightarrow>
    (TcpConnection \<times> 'e conn_effect list) option" where
  "sendInLoop msg w c =
     (if state c = kDisconnected then Some (c, [])
      else
        let c = c\<lparr> sent := sent c @ msg \<rparr> in
        if \<not> isWriting (channel c) \<and> readableBytes (outputBuffer c) = 0
        then (case w of
                Wrote n \<Rightarrow>
                  if length msg < n then None
                  else Some (queueRest msg n (c\<lparr> wire := wire c @ take n msg \<rparr>), [])
              | WriteFail e \<Rightarrow>
                  if e \<noteq> EAGAIN \<and> e \<noteq> EINTR then Some (handleError c)
                  else Some (queueRest msg 0 c, []))
        else Some (queueRest msg 0 c, []))"

text \<open>The two entry points that any thread may call change the state at most and hand the rest to
  the loop: \<open>send\<close> posts \<open>sendInLoop\<close> when the connection is up, \<open>shutdown\<close> posts \<open>shutdownInLoop\<close>.\<close>

datatype conn_task = SendTask "byte list" | ShutdownTask

definition send :: "byte list \<Rightarrow> TcpConnection \<Rightarrow> conn_task list" where
  "send msg c = (if state c \<noteq> kConnected then [] else [SendTask msg])"

definition shutdown :: "TcpConnection \<Rightarrow> TcpConnection \<times> conn_task list" where
  "shutdown c = (if state c = kConnected then (c\<lparr> state := kDisconnecting \<rparr>, [ShutdownTask]) else (c, []))"

text \<open>An event of the channel: the callbacks that \<open>handleEvent\<close> calls, in its order.\<close>

fun run_callbacks ::
  "(TcpConnection \<Rightarrow> TcpConnection \<times> 'e conn_effect list) option \<Rightarrow> readv_result list \<Rightarrow> write_result list \<Rightarrow>
   callback list \<Rightarrow> TcpConnection \<Rightarrow> (TcpConnection \<times> 'e conn_effect list) option" where
  "run_callbacks mcb rs ws [] c = Some (c, [])"
| "run_callbacks mcb rs ws (cb # cbs) c =
     (case (case cb of
              ReadCb \<Rightarrow> handleRead mcb rs c
            | WriteCb \<Rightarrow> handleWrite ws c
            | CloseCb \<Rightarrow> Some (handleClose c)
            | ErrorCb \<Rightarrow> Some (handleError c)) of
        None \<Rightarrow> None
      | Some (c', es) \<Rightarrow>
          (case run_callbacks mcb rs ws cbs c' of
             None \<Rightarrow> None
           | Some (c'', es') \<Rightarrow> Some (c'', es @ es')))"

definition channel_event ::
  "(TcpConnection \<Rightarrow> TcpConnection \<times> 'e conn_effect list) option \<Rightarrow> readv_result list \<Rightarrow> write_result list \<Rightarrow>
   mask \<Rightarrow> TcpConnection \<Rightarrow> (TcpConnection \<times> 'e conn_effect list) option" where
  "channel_event mcb rs ws evs c =
     run_callbacks mcb rs ws (handleEvent ((channel c)\<lparr> revents := evs \<rparr>)) c"

subsection \<open>The write side\<close>

lemma isWriting_bit: "isWriting ch \<longleftrightarrow> bit (events ch) 2"
  using and_exp_eq_0_iff_not_bit [of "events ch" 2] by (simp add: isWriting_def EPOLLOUT_def)

lemma bit_EPOLLOUT: "bit EPOLLOUT n \<longleftrightarrow> n = 2"
  using bit_exp_iff [where ?'a = "32 word", of 2 n] by (auto simp: EPOLLOUT_def)

lemma updateChannel_events [simp]: "events (fst (updateChannel ch p)) = events ch"
  by (simp add: updateChannel_def Let_def)

lemma writing_after [simp]:
  "isWriting (fst (enableWriting ch p))" "\<not> isWriting (fst (disableWriting ch p))"
  "\<not> isWriting (fst (disableAll ch p))"
  "isWriting (fst (removeChannel ch p)) = isWriting ch"
  "isWriting (fst (enableReading ch p)) = isWriting ch"
proof -
  show "isWriting (fst (enableWriting ch p))" "\<not> isWriting (fst (disableWriting ch p))"
    by (simp_all add: enableWriting_def disableWriting_def isWriting_bit bit_or_iff bit_and_iff bit_not_iff bit_EPOLLOUT)
  show "\<not> isWriting (fst (disableAll ch p))"
    by (simp add: disableAll_def isWriting_bit)
  show "isWriting (fst (removeChannel ch p)) = isWriting ch"
    by (simp add: removeChannel_def isWriting_bit Let_def)
  have "\<not> bit (EPOLLIN OR EPOLLPRI OR EPOLLET) 2"
    by (simp add: epoll_bits)
  then show "isWriting (fst (enableReading ch p)) = isWriting ch"
    by (simp add: enableReading_def isWriting_bit bit_or_iff)
qed

lemma on_channel_fields [simp]:
  "state (on_channel f c) = state c" "inputBuffer (on_channel f c) = inputBuffer c"
  "outputBuffer (on_channel f c) = outputBuffer c" "wire (on_channel f c) = wire c"
  "sent (on_channel f c) = sent c" "wrShut (on_channel f c) = wrShut c"
  "connectionCbSet (on_channel f c) = connectionCbSet c" "closeCbSet (on_channel f c) = closeCbSet c"
  "channel (on_channel f c) = fst (f (channel c) (poller c))"
  "poller (on_channel f c) = snd (f (channel c) (poller c))"
  by (simp_all add: on_channel_def split: prod.splits)

text \<open>While the connection is not closed, what was sent is on the wire or in the output buffer, and
  the channel asks for writability exactly while the buffer holds something.\<close>

definition out_inv :: "TcpConnection \<Rightarrow> bool" where
  "out_inv c \<longleftrightarrow> buf_inv (inputBuffer c) \<and> buf_inv (outputBuffer c) \<and> (\<exists>rest. sent c = wire c @ rest) \<and>
     (state c \<noteq> kDisconnected \<longrightarrow> sent c = wire c @ content (outputBuffer c)) \<and>
     (isWriting (channel c) \<longrightarrow> state c \<noteq> kDisconnected) \<and>
     (state c \<noteq> kDisconnected \<longrightarrow> (isWriting (channel c) \<longleftrightarrow> content (outputBuffer c) \<noteq> []))"

lemma readable_content: "buf_inv b \<Longrightarrow> readableBytes b = 0 \<longleftrightarrow> content b = []"
  using content_length by fastforce

lemma out_inv_open:
  "state c \<noteq> kDisconnected \<Longrightarrow> out_inv c \<longleftrightarrow>
     buf_inv (inputBuffer c) \<and> buf_inv (outputBuffer c) \<and> sent c = wire c @ content (outputBuffer c) \<and>
     (isWriting (channel c) \<longleftrightarrow> content (outputBuffer c) \<noteq> [])"
  by (auto simp: out_inv_def)

lemma handleClose_inv:
  assumes "buf_inv (inputBuffer c)" "buf_inv (outputBuffer c)" "sent c = wire c @ rest"
    and "handleClose c = (c', es)"
  shows "out_inv c'"
  using assms by (auto simp: out_inv_def handleClose_def Let_def)

lemma write_loop_inv:
  assumes "write_loop ws c = Some (c', e)" "buf_inv (outputBuffer c)"
    and "sent c = wire c @ content (outputBuffer c)"
  shows "buf_inv (outputBuffer c') \<and> sent c' = sent c \<and> sent c = wire c' @ content (outputBuffer c') \<and>
    channel c' = channel c \<and> state c' = state c \<and> inputBuffer c' = inputBuffer c \<and>
    (e = WriteDone \<longleftrightarrow> content (outputBuffer c') = [])"
  using assms
proof (induction ws arbitrary: c)
  case Nil
  then show ?case
    by (subst (asm) write_loop.simps) (auto simp: readable_content split: if_splits)
next
  case (Cons w ws)
  show ?case
  proof (cases "readableBytes (outputBuffer c) = 0")
    case True
    then show ?thesis
      using Cons.prems by (subst (asm) write_loop.simps) (auto simp: readable_content)
  next
    case ne: False
    show ?thesis
    proof (cases w)
      case (Wrote n)
      have run: "n \<noteq> 0" "\<exists>b. retrieve (outputBuffer c) n = Some b \<and>
          write_loop ws (c\<lparr> wire := wire c @ take n (content (outputBuffer c)), outputBuffer := b \<rparr>) = Some (c', e)"
        using Cons.prems(1) ne Wrote
        by (subst (asm) write_loop.simps, auto split: if_splits option.splits)+
      then obtain b where b: "retrieve (outputBuffer c) n = Some b"
        "write_loop ws (c\<lparr> wire := wire c @ take n (content (outputBuffer c)), outputBuffer := b \<rparr>) = Some (c', e)"
        by blast
      have "buf_inv b" "content b = drop n (content (outputBuffer c))"
        using buf.consume_ok [OF Cons.prems(2) b(1)] buf.consume_view [OF Cons.prems(2) b(1)] by auto
      with Cons.IH [OF b(2)] Cons.prems(3)
      have "buf_inv (outputBuffer c') \<and> sent c' = sent c \<and> sent c = wire c' @ content (outputBuffer c') \<and>
        channel c' = channel c \<and> state c' = state c \<and> inputBuffer c' = inputBuffer c \<and>
        (e = WriteDone) = (content (outputBuffer c') = [])"
        by auto
      then show ?thesis .
    next
      case (WriteFail er)
      have "write_loop (WriteFail er # ws) c = (if er = EAGAIN then Some (c, WriteAgain)
          else if er = EINTR then write_loop ws c else Some (c, WriteError))"
        using ne by (subst write_loop.simps) simp
      then show ?thesis
        using Cons.prems ne Cons.IH [of c] WriteFail by (auto simp: readable_content split: if_splits)
    qed
  qed
qed

lemma handleWrite_inv:
  assumes "out_inv c" "handleWrite ws c = Some (c', es)"
  shows "out_inv c'"
proof (cases "isWriting (channel c)")
  case False
  then show ?thesis
    using assms by (simp add: handleWrite_def)
next
  case True
  then have open_conn: "state c \<noteq> kDisconnected"
    using assms(1) by (simp add: out_inv_def)
  obtain c1 e where run: "write_loop ws c = Some (c1, e)"
    using assms(2) True by (auto simp: handleWrite_def split: option.splits)
  have w: "buf_inv (outputBuffer c1) \<and> sent c1 = sent c \<and> sent c = wire c1 @ content (outputBuffer c1) \<and>
    channel c1 = channel c \<and> state c1 = state c \<and> inputBuffer c1 = inputBuffer c \<and>
    (e = WriteDone \<longleftrightarrow> content (outputBuffer c1) = [])"
    using write_loop_inv [OF run] assms(1) open_conn by (simp add: out_inv_def)
  show ?thesis
  proof (cases e)
    case WriteAgain
    then have "c' = c1"
      using assms(2) True run by (simp add: handleWrite_def)
    then show ?thesis
      using w WriteAgain True assms(1) open_conn by (simp add: out_inv_open)
  next
    case WriteError
    then have "handleClose c1 = (c', es)"
      using assms(2) True run by (simp add: handleWrite_def handleError_def)
    then show ?thesis
      using w assms(1) open_conn
      by (intro handleClose_inv [of c1 "content (outputBuffer c1)"]) (simp_all add: out_inv_open)
  next
    case WriteDone
    define c2 where "c2 = on_channel disableWriting c1"
    have "c' = c2 \<or> c' = c2\<lparr> wrShut := True \<rparr>"
      using assms(2) True run WriteDone
      by (auto simp: handleWrite_def c2_def [symmetric] Let_def shutdownInLoop_def split: if_splits)
    moreover have "out_inv c2"
      using w WriteDone assms(1) open_conn by (simp add: out_inv_open c2_def)
    ultimately show ?thesis
      by (auto simp: out_inv_def)
  qed
qed

lemma queueRest_inv:
  assumes "buf_inv (inputBuffer c)" "buf_inv (outputBuffer c)" "state c \<noteq> kDisconnected"
    and "sent c = wire c @ content (outputBuffer c) @ drop n msg"
    and "isWriting (channel c) \<longleftrightarrow> content (outputBuffer c) \<noteq> []"
  shows "out_inv (queueRest msg n c)"
  using assms buf.view_put [OF assms(2), of "drop n msg"] buf.ok_put [OF assms(2), of "drop n msg"]
  by (simp add: out_inv_open queueRest_def Let_def)

lemma sendInLoop_inv:
  assumes "out_inv c" "sendInLoop msg w c = Some (c', es)"
  shows "out_inv c'"
proof (cases "state c = kDisconnected")
  case True
  then show ?thesis
    using assms by (simp add: sendInLoop_def)
next
  case open_conn: False
  define c1 where "c1 = c\<lparr> sent := sent c @ msg \<rparr>"
  have c1: "buf_inv (inputBuffer c1)" "buf_inv (outputBuffer c1)" "state c1 \<noteq> kDisconnected"
    "sent c1 = wire c1 @ content (outputBuffer c1) @ msg"
    "isWriting (channel c1) \<longleftrightarrow> content (outputBuffer c1) \<noteq> []"
    using assms(1) open_conn by (auto simp: c1_def out_inv_def)
  have eq: "sendInLoop msg w c =
     (if \<not> isWriting (channel c1) \<and> readableBytes (outputBuffer c1) = 0
      then (case w of
              Wrote n \<Rightarrow> if length msg < n then None
                else Some (queueRest msg n (c1\<lparr> wire := wire c1 @ take n msg \<rparr>), [])
            | WriteFail e \<Rightarrow> if e \<noteq> EAGAIN \<and> e \<noteq> EINTR then Some (handleError c1)
                else Some (queueRest msg 0 c1, []))
      else Some (queueRest msg 0 c1, []))"
    using open_conn unfolding sendInLoop_def c1_def Let_def by simp
  consider (queue) "c' = queueRest msg 0 c1"
    | (part) n where "c' = queueRest msg n (c1\<lparr> wire := wire c1 @ take n msg \<rparr>)" "readableBytes (outputBuffer c1) = 0"
    | (fail) "handleClose c1 = (c', es)"
    using assms(2) unfolding eq handleError_def by (auto split: if_splits write_result.splits)
  then show ?thesis
  proof cases
    case queue
    then show ?thesis
      using queueRest_inv [of c1 0 msg] c1 by simp
  next
    case part
    then show ?thesis
      using queueRest_inv [of "c1\<lparr> wire := wire c1 @ take n msg \<rparr>" n msg] c1 readable_content [OF c1(2)] by simp
  next
    case fail
    then show ?thesis
      using c1 by (intro handleClose_inv [of c1 "content (outputBuffer c1) @ msg"]) simp_all
  qed
qed

subsection \<open>The read side\<close>

lemma read_loop_inv: "read_loop rs b = Some (b', e) \<Longrightarrow> buf_inv b \<Longrightarrow> buf_inv b'"
proof (induction rs arbitrary: b)
  case (Cons r rs)
  obtain b1 n err where r: "readFd b r = (b1, n, err)"
    by (cases "readFd b r")
  have "buf_inv b1"
    using Cons.prems(2) r readFd_data_ok [of b _ b1 n err] by (cases r) (auto simp: readFd_def)
  then show ?case
    using Cons.IH [of b1] Cons.prems(1) by (auto simp: r split: if_splits)
qed simp

lemma read_loop_data:
  assumes "buf_inv b" "\<forall>d\<in>set datas. d \<noteq> []"
  shows "\<exists>b'. read_loop (map ReadvData datas @ rs) b = read_loop rs b' \<and> buf_inv b' \<and>
    content b' = content b @ concat datas"
  using assms
proof (induction datas arbitrary: b)
  case (Cons d datas)
  obtain b1 n err where r: "readFd b (ReadvData d) = (b1, n, err)"
    by (cases "readFd b (ReadvData d)")
  have b1: "buf_inv b1" "content b1 = content b @ d" "n = int (length d)"
    using readFd_data_ok [OF Cons.prems(1) r] by auto
  have "0 < n"
    using b1(3) Cons.prems(2) by simp
  then show ?case
    using Cons.IH [OF b1(1)] Cons.prems(2) b1(2) by (simp add: r)
qed auto

text \<open>
  Nothing that arrived before the peer closed is lost: when the kernel delivers some chunks,
  however cut, and then end of file, the message callback is called with all of them in the
  input buffer, after what was there before, and only then is the connection closed.
\<close>

theorem eof_after_data_delivers_data:
  assumes "buf_inv (inputBuffer c)" "\<forall>d\<in>set datas. d \<noteq> []" "content (inputBuffer c) @ concat datas \<noteq> []"
  shows "\<exists>b. buf_inv b \<and> content b = content (inputBuffer c) @ concat datas \<and>
    handleRead (Some f) (map ReadvData datas @ [ReadvData []]) c =
      Some (let (c1, es1) = f (c\<lparr> inputBuffer := b \<rparr>); (c2, es2) = handleClose c1 in (c2, es1 @ es2))"
proof -
  obtain b where b: "read_loop (map ReadvData datas @ [ReadvData []]) (inputBuffer c) = read_loop [ReadvData []] b"
    "buf_inv b" "content b = content (inputBuffer c) @ concat datas"
    using read_loop_data [OF assms(1,2)] by blast
  obtain b' n err where r: "readFd b (ReadvData []) = (b', n, err)"
    by (cases "readFd b (ReadvData [])")
  have b': "buf_inv b'" "content b' = content b" "n = 0"
    using readFd_data_ok [OF b(2) r] by auto
  then have "readableBytes b' > 0"
    using assms(3) b(3) readable_content [of b'] by auto
  then have "handleRead (Some f) (map ReadvData datas @ [ReadvData []]) c =
      Some (let (c1, es1) = f (c\<lparr> inputBuffer := b' \<rparr>); (c2, es2) = handleClose c1 in (c2, es1 @ es2))"
    using b(1) b' r by (simp add: handleRead_def Let_def case_prod_unfold)
  then show ?thesis
    using b' b(3) by (intro exI [of _ b']) simp
qed

definition log_message :: "TcpConnection \<Rightarrow> TcpConnection \<times> byte list conn_effect list" where
  "log_message c = (c, [User (content (inputBuffer c))])"

theorem eof_after_data_delivers_data_witness:
  "\<exists>b. buf_inv b \<and> content b = [1, 2, 3] \<and>
    handleRead (Some log_message) (map ReadvData [[1, 2], [3]] @ [ReadvData []]) (newConnection 5 newPoller) =
      Some (let (c1, es1) = log_message ((newConnection 5 newPoller)\<lparr> inputBuffer := b \<rparr>);
                (c2, es2) = handleClose c1 in (c2, es1 @ es2))"
proof -
  have c: "buf_inv (inputBuffer (newConnection 5 newPoller))" "content (inputBuffer (newConnection 5 newPoller)) = []"
    using newBuffer_ok by (simp_all add: newConnection_def)
  have "\<forall>d\<in>set [[1, 2], [3 :: byte]]. d \<noteq> []"
    "content (inputBuffer (newConnection 5 newPoller)) @ concat [[1, 2], [3 :: byte]] \<noteq> []"
    by simp_all
  from eof_after_data_delivers_data [OF c(1) this, of log_message] show ?thesis
    unfolding c(2) by simp
qed

subsection \<open>Runs\<close>

text \<open>Registration: an open connection is in the kernel's list, for reading at least, with the mask
  of its channel.\<close>

definition reg_inv :: "TcpConnection \<Rightarrow> bool" where
  "reg_inv c \<longleftrightarrow>
     interest (poller c) (fd (channel c)) =
       (if index (channel c) = kAdded then Some (events (channel c)) else None) \<and>
     (state c \<in> {kConnected, kDisconnecting} \<longrightarrow> index (channel c) = kAdded \<and> bit (events (channel c)) 0)"

datatype conn_op =
    CSend "byte list" write_result
  | CShutdown
  | CShutdownTask
  | CEvent "readv_result list" "write_result list" mask

fun conn_exec ::
  "(TcpConnection \<Rightarrow> TcpConnection \<times> 'e conn_effect list) option \<Rightarrow> conn_op \<Rightarrow> TcpConnection \<Rightarrow>
   (TcpConnection \<times> 'e conn_effect list) option" where
  "conn_exec mcb (CSend msg w) c = sendInLoop msg w c"
| "conn_exec mcb CShutdown c = Some (fst (shutdown c), [])"
| "conn_exec mcb CShutdownTask c = Some (shutdownInLoop c)"
| "conn_exec mcb (CEvent rs ws evs) c = channel_event mcb rs ws evs c"

fun conn_run ::
  "(TcpConnection \<Rightarrow> TcpConnection \<times> 'e conn_effect list) option \<Rightarrow> conn_op list \<Rightarrow> TcpConnection \<Rightarrow>
   (TcpConnection \<times> 'e conn_effect list) option" where
  "conn_run mcb [] c = Some (c, [])"
| "conn_run mcb (op # ops) c =
     (case conn_exec mcb op c of
        None \<Rightarrow> None
      | Some (c', es) \<Rightarrow>
          (case conn_run mcb ops c' of None \<Rightarrow> None | Some (c'', es') \<Rightarrow> Some (c'', es @ es')))"

definition conn_inv :: "TcpConnection \<Rightarrow> bool" where
  "conn_inv c \<longleftrightarrow> out_inv c \<and> reg_inv c \<and> state c \<noteq> kConnecting"

text \<open>Registration is kept by every channel update whose mask keeps the read bit, or when the
  connection is closed.\<close>

lemma reg_inv_update:
  assumes "reg_inv c" "updateChannel ((channel c)\<lparr> events := e \<rparr>) (poller c) = (ch, p)"
    and "state c \<in> {kConnected, kDisconnecting} \<Longrightarrow> bit e 0"
  shows "reg_inv (c\<lparr> channel := ch, poller := p \<rparr>)"
proof -
  have "interest (poller c) (fd ((channel c)\<lparr> events := e \<rparr>)) \<noteq> None \<longleftrightarrow>
      index ((channel c)\<lparr> events := e \<rparr>) = kAdded"
    using assms(1) by (simp add: reg_inv_def)
  note u = updateChannel_spec [OF this assms(2)]
  have "index ch = kAdded \<and> bit (events ch) 0" if "state c \<in> {kConnected, kDisconnecting}"
  proof -
    have "events ch \<noteq> 0"
      using assms(3) [OF that] u by auto
    then show ?thesis
      using u assms(3) [OF that] by (cases "index ch") auto
  qed
  then show ?thesis
    using u by (simp add: reg_inv_def)
qed

lemma bit_kept:
  "bit (w :: mask) 0 \<Longrightarrow> bit (w OR EPOLLOUT) 0" "bit (w :: mask) 0 \<Longrightarrow> bit (w AND NOT EPOLLOUT) 0"
  by (simp_all add: bit_or_iff bit_and_iff bit_not_iff bit_EPOLLOUT)

lemma reg_inv_frame [simp]:
  "reg_inv (c\<lparr> inputBuffer := b \<rparr>) = reg_inv c" "reg_inv (c\<lparr> outputBuffer := b \<rparr>) = reg_inv c"
  "reg_inv (c\<lparr> wire := w \<rparr>) = reg_inv c" "reg_inv (c\<lparr> sent := w \<rparr>) = reg_inv c"
  "reg_inv (c\<lparr> wrShut := x \<rparr>) = reg_inv c"
  by (simp_all add: reg_inv_def)

lemma reg_inv_writing:
  assumes "reg_inv c"
  shows "reg_inv (on_channel enableWriting c)" "reg_inv (on_channel disableWriting c)"
proof -
  obtain ch p where 1: "enableWriting (channel c) (poller c) = (ch, p)"
    by fastforce
  then show "reg_inv (on_channel enableWriting c)"
    using reg_inv_update [OF assms 1 [unfolded enableWriting_def]] assms bit_kept
    by (auto simp: on_channel_def reg_inv_def)
  obtain ch p where 2: "disableWriting (channel c) (poller c) = (ch, p)"
    by fastforce
  then show "reg_inv (on_channel disableWriting c)"
    using reg_inv_update [OF assms 2 [unfolded disableWriting_def]] assms bit_kept
    by (auto simp: on_channel_def reg_inv_def)
qed

lemma reg_inv_closed:
  assumes "reg_inv c"
  shows "reg_inv (on_channel disableAll (c\<lparr> state := kDisconnected \<rparr>))"
proof -
  obtain ch p where 1: "disableAll (channel c) (poller c) = (ch, p)"
    by fastforce
  have "reg_inv (c\<lparr> state := kDisconnected \<rparr>)"
    using assms by (simp add: reg_inv_def)
  then show ?thesis
    using reg_inv_update [of "c\<lparr> state := kDisconnected \<rparr>" 0 ch p] 1
    by (simp add: on_channel_def disableAll_def)
qed

lemma conn_inv_close: "conn_inv c \<Longrightarrow> handleClose c = (c', es) \<Longrightarrow> conn_inv c'"
  using reg_inv_closed [of c]
  by (auto simp: conn_inv_def out_inv_def handleClose_def Let_def)

lemma reg_inv_handleClose: "reg_inv c \<Longrightarrow> handleClose c = (c', es) \<Longrightarrow> reg_inv c' \<and> state c' = kDisconnected"
  using reg_inv_closed [of c] by (auto simp: handleClose_def Let_def)

lemma queueRest_reg: "reg_inv c \<Longrightarrow> reg_inv (queueRest msg n c) \<and> state (queueRest msg n c) = state c"
  by (simp add: queueRest_def Let_def reg_inv_writing)

lemma sendInLoop_reg:
  assumes "reg_inv c" "state c \<noteq> kConnecting" "sendInLoop msg w c = Some (c', es)"
  shows "reg_inv c' \<and> state c' \<noteq> kConnecting"
proof -
  have "c' = c \<or> (\<exists>n u. c' = queueRest msg n (c\<lparr> sent := sent c @ msg, wire := u \<rparr>)) \<or>
      (\<exists>n. c' = queueRest msg n (c\<lparr> sent := sent c @ msg \<rparr>)) \<or>
      handleClose (c\<lparr> sent := sent c @ msg \<rparr>) = (c', es)"
    using assms(3) unfolding sendInLoop_def Let_def handleError_def
    by (auto split: if_splits write_result.splits)
  then show ?thesis
    using assms(1,2) queueRest_reg [where msg = msg] reg_inv_handleClose [of "c\<lparr> sent := sent c @ msg \<rparr>" c' es]
    by (elim disjE exE) auto
qed

lemma conn_inv_send: "conn_inv c \<Longrightarrow> sendInLoop msg w c = Some (c', es) \<Longrightarrow> conn_inv c'"
  using sendInLoop_inv sendInLoop_reg unfolding conn_inv_def by metis

lemma conn_inv_write: 
  assumes "conn_inv c" "handleWrite ws c = Some (c', es)"
  shows "conn_inv c'"
proof (cases "isWriting (channel c)")
  case False
  then show ?thesis
    using assms by (simp add: handleWrite_def)
next
  case True
  have open_conn: "state c \<noteq> kDisconnected"
    using assms(1) True by (simp add: conn_inv_def out_inv_def)
  obtain c1 e where run: "write_loop ws c = Some (c1, e)"
    using assms(2) True by (auto simp: handleWrite_def split: option.splits)
  have "channel c1 = channel c" "state c1 = state c"
    using write_loop_inv [OF run] assms(1) open_conn by (auto simp: conn_inv_def out_inv_def)
  moreover have "poller c1 = poller c"
    using run
  proof (induction ws arbitrary: c)
    case Nil
    then show ?case
      by (subst (asm) write_loop.simps) (auto split: if_splits)
  next
    case (Cons w ws)
    then show ?case
      by (subst (asm) (2) write_loop.simps) (auto split: if_splits option.splits write_result.splits)
  qed
  ultimately have "reg_inv c1 \<and> state c1 \<noteq> kConnecting"
    using assms(1) by (simp add: conn_inv_def reg_inv_def)
  then have "reg_inv c' \<and> state c' \<noteq> kConnecting"
    using assms(2) True run reg_inv_handleClose [of c1 c' es] reg_inv_writing(2) [of c1]
    by (cases e) (auto simp: handleWrite_def handleError_def shutdownInLoop_def Let_def split: if_splits)
  then show ?thesis
    using handleWrite_inv [OF _ assms(2)] assms(1) by (simp add: conn_inv_def)
qed

lemma conn_inv_shutdown: "conn_inv c \<Longrightarrow> conn_inv (fst (shutdown c))"
  by (auto simp: shutdown_def conn_inv_def out_inv_def reg_inv_def)

lemma conn_inv_shutdownInLoop: "conn_inv c \<Longrightarrow> shutdownInLoop c = (c', es) \<Longrightarrow> conn_inv c'"
  by (auto simp: shutdownInLoop_def conn_inv_def out_inv_def split: if_splits)

lemma conn_inv_input: "conn_inv c \<Longrightarrow> buf_inv b \<Longrightarrow> conn_inv (c\<lparr> inputBuffer := b \<rparr>)"
  by (auto simp: conn_inv_def out_inv_def)

lemma conn_inv_destroyed:
  assumes "conn_inv c" "connectDestroyed c = (c', es)"
  shows "state c \<in> {kConnected, kDisconnected} \<Longrightarrow> conn_inv c'"
proof -
  assume st: "state c \<in> {kConnected, kDisconnected}"
  define c1 where "c1 = (if state c = kConnected then on_channel disableAll (c\<lparr> state := kDisconnected \<rparr>) else c)"
  have c1: "reg_inv c1" "state c1 = kDisconnected" "out_inv c1"
    using assms(1) st reg_inv_closed [of c] by (auto simp: c1_def conn_inv_def out_inv_def)
  have c': "c' = on_channel removeChannel c1"
    using assms(2) by (auto simp: connectDestroyed_def c1_def Let_def split: if_splits)
  obtain ch p where rm: "removeChannel (channel c1) (poller c1) = (ch, p)"
    by fastforce
  have "interest (poller c1) (fd (channel c1)) \<noteq> None \<longleftrightarrow> index (channel c1) = kAdded"
    using c1(1) by (simp add: reg_inv_def)
  from removeChannel_spec [OF this rm] have "reg_inv c'"
    using c1(2) by (simp add: c' reg_inv_def rm)
  moreover have "out_inv c'"
    using c1(2,3) by (simp add: out_inv_def c')
  ultimately show ?thesis
    using c1(2) by (simp add: conn_inv_def c')
qed

subsection \<open>The contract of a message callback\<close>

locale message_callback =
  fixes mcb :: "TcpConnection \<Rightarrow> TcpConnection \<times> 'e conn_effect list"
  assumes mcb_inv: "conn_inv c \<Longrightarrow> conn_inv (fst (mcb c))"
begin

lemma read_inv:
  assumes "conn_inv c" "handleRead (Some mcb) rs c = Some (c', es)"
  shows "conn_inv c'"
proof -
  obtain b e where r: "read_loop rs (inputBuffer c) = Some (b, e)"
    using assms(2) by (auto simp: handleRead_def split: option.splits)
  define c1 where "c1 = c\<lparr> inputBuffer := b \<rparr>"
  have "buf_inv b"
    using read_loop_inv [OF r] assms(1) by (simp add: conn_inv_def out_inv_def)
  then have c1: "conn_inv c1"
    using conn_inv_input [OF assms(1)] by (simp add: c1_def)
  define c2 where "c2 = (if 0 < readableBytes b then fst (mcb c1) else c1)"
  have c2: "conn_inv c2"
    using c1 mcb_inv by (simp add: c2_def)
  have "handleClose c1 = (c', es) \<or> c' = c2 \<or> c' = fst (handleClose c2 :: TcpConnection \<times> 'e conn_effect list)"
    using assms(2) r
    by (auto simp: handleRead_def handleError_def c1_def c2_def Let_def case_prod_unfold split: if_splits)
  then show ?thesis
    using c1 c2 conn_inv_close by (metis prod.collapse)
qed

lemma callbacks_inv:
  "conn_inv c \<Longrightarrow> run_callbacks (Some mcb) rs ws cbs c = Some (c', es) \<Longrightarrow> conn_inv c'"
proof (induction cbs arbitrary: c es)
  case (Cons cb cbs)
  obtain c1 es1 es2 where 1: "(case cb of ReadCb \<Rightarrow> handleRead (Some mcb) rs c | WriteCb \<Rightarrow> handleWrite ws c
      | CloseCb \<Rightarrow> Some (handleClose c) | ErrorCb \<Rightarrow> Some (handleError c)) = Some (c1, es1)"
    "run_callbacks (Some mcb) rs ws cbs c1 = Some (c', es2)"
    using Cons.prems(2) by (auto split: option.splits)
  have "conn_inv c1"
    using 1(1) Cons.prems(1)
    by (cases cb) (auto simp: handleError_def intro: read_inv conn_inv_write conn_inv_close)
  then show ?case
    using Cons.IH 1(2) by blast
qed simp

lemma exec_inv: "conn_inv c \<Longrightarrow> conn_exec (Some mcb) op c = Some (c', es) \<Longrightarrow> conn_inv c'"
  by (cases op)
     (auto simp: channel_event_def intro: callbacks_inv conn_inv_send conn_inv_shutdown conn_inv_shutdownInLoop)

lemma run_inv: "conn_inv c \<Longrightarrow> conn_run (Some mcb) ops c = Some (c', es) \<Longrightarrow> conn_inv c'"
proof (induction ops arbitrary: c es)
  case (Cons op ops)
  obtain c1 es1 es2 where "conn_exec (Some mcb) op c = Some (c1, es1)" "conn_run (Some mcb) ops c1 = Some (c', es2)"
    using Cons.prems(2) by (auto split: option.splits)
  then show ?case
    using Cons.IH exec_inv [OF Cons.prems(1)] by blast
qed simp

end

text \<open>The callback that the server installs: the codec over the connection's input buffer. Its
  shutdown request runs on the connection's own loop, so at once.\<close>

definition codec_callback :: "TcpConnection \<Rightarrow> TcpConnection \<times> codec_event conn_effect list" where
  "codec_callback c =
     (case onMessage (Some ()) (inputBuffer c) of
        None \<Rightarrow> (c, [])
      | Some (evs, b) \<Rightarrow>
          let c = c\<lparr> inputBuffer := b \<rparr>;
              (c, es) = (if ShutdownConn \<in> set evs \<and> connected c
                         then shutdownInLoop (fst (shutdown c)) else (c, []))
          in (c, map User evs @ es))"

interpretation codec_mcb: message_callback codec_callback
proof
  fix c
  assume c: "conn_inv c"
  obtain evs b where ev: "onMessage (Some ()) (inputBuffer c) = Some (evs, b)" "buf_inv b"
    using onMessage_refines [of "inputBuffer c" "Some ()"] c by (auto simp: conn_inv_def out_inv_def)
  have c1: "conn_inv (c\<lparr> inputBuffer := b \<rparr>)"
    by (rule conn_inv_input [OF c ev(2)])
  obtain c2 es2 where 2: "shutdownInLoop (fst (shutdown (c\<lparr> inputBuffer := b \<rparr>))) = (c2, es2 :: codec_event conn_effect list)"
    by fastforce
  have "conn_inv c2"
    by (rule conn_inv_shutdownInLoop [OF conn_inv_shutdown [OF c1] 2])
  then show "conn_inv (fst (codec_callback c))"
    using c1 2 by (simp add: codec_callback_def ev Let_def)
qed

subsection \<open>Properties of a connection's life\<close>

definition established :: "nat \<Rightarrow> TcpConnection" where
  "established f = fst (connectEstablished (newConnection f newPoller) :: TcpConnection \<times> codec_event conn_effect list)"

lemma established_fields:
  "state (established f) = kConnected" "inputBuffer (established f) = newBuffer"
  "outputBuffer (established f) = newBuffer" "wire (established f) = []" "sent (established f) = []"
  "wrShut (established f) = False" "connectionCbSet (established f)" "closeCbSet (established f)"
  "channel (established f) = (newChannel f)\<lparr> readCb := True, writeCb := True, closeCb := True, errorCb := True,
     events := EPOLLIN OR EPOLLPRI OR EPOLLET, index := kAdded \<rparr>"
  by (simp_all add: established_def connectEstablished_def newConnection_def Let_def enableReading_def
      updateChannel_def newChannel_def)

lemma established_inv: "conn_inv (established f)"
proof -
  have "interest (poller (established f)) f = Some (events (channel (established f)))"
    by (simp add: established_def connectEstablished_def newConnection_def Let_def enableReading_def
        updateChannel_def newChannel_def newPoller_def ctl_def)
  moreover have "bit (EPOLLIN OR EPOLLPRI OR EPOLLET) 0" "\<not> bit (EPOLLIN OR EPOLLPRI OR EPOLLET) 2"
    by (simp_all add: epoll_bits)
  ultimately show ?thesis
    using newBuffer_ok
    by (simp add: conn_inv_def reg_inv_def out_inv_open established_fields isWriting_bit newChannel_def)
qed

text \<open>
  C6. Stream integrity of the write side. Over every sequence of sends, shutdowns and channel
  events with whatever partial writes, \<^verbatim>\<open>EAGAIN\<close>, \<^verbatim>\<open>EINTR\<close> and errors the kernel answers, the bytes on
  the wire are always a prefix of the bytes sent, in order, without gaps or repetitions. As
  long as the connection is not closed nothing is lost: what is not on the wire is in the
  output buffer, and exactly while that is not empty the kernel watches the descriptor for
  writability.
\<close>

theorem tcp_stream_integrity:
  assumes "conn_run (Some codec_callback) ops (established f) = Some (c, es)"
  shows "(\<exists>rest. sent c = wire c @ rest) \<and>
    (state c \<noteq> kDisconnected \<longrightarrow>
       sent c = wire c @ content (outputBuffer c) \<and>
       (\<exists>m. interest (poller c) (fd (channel c)) = Some m \<and>
          (m AND EPOLLOUT \<noteq> 0 \<longleftrightarrow> content (outputBuffer c) \<noteq> [])))"
proof -
  have inv: "conn_inv c"
    by (rule codec_mcb.run_inv [OF established_inv assms])
  then have "state c \<noteq> kDisconnected \<Longrightarrow> state c \<in> {kConnected, kDisconnecting}"
    by (cases "state c") (auto simp: conn_inv_def)
  with inv show ?thesis
    by (auto simp: conn_inv_def out_inv_def reg_inv_def isWriting_def)
qed

theorem tcp_stream_integrity_witness:
  "\<exists>c es. conn_run (Some codec_callback) [CSend [1, 2, 3] (Wrote 1), CSend [4] (Wrote 1)] (established 5) = Some (c, es) \<and>
     sent c = [1, 2, 3, 4] \<and> (\<exists>rest. [1, 2, 3, 4] = wire c @ rest)"
proof -
  let ?ops = "[CSend [1, 2, 3] (Wrote 1), CSend [4] (Wrote 1)]"
  have q: "sent (queueRest m n c) = sent c" "state (queueRest m n c) = state c" for m n c
    by (simp_all add: queueRest_def Let_def)
  have e: "\<not> isWriting (channel (established 5))" "readableBytes (outputBuffer (established 5)) = 0"
    using established_inv [of 5] newBuffer_ok readable_content [of newBuffer]
    by (simp_all add: conn_inv_def out_inv_open established_fields)
  obtain c1 where 1: "conn_exec (Some codec_callback) (CSend [1, 2, 3] (Wrote 1)) (established 5) = Some (c1, [])"
    "sent c1 = [1, 2, 3]" "state c1 = kConnected" "isWriting (channel c1)"
    using e by (simp add: sendInLoop_def Let_def established_fields q) (simp add: queueRest_def Let_def established_fields)
  obtain c2 where 2: "conn_exec (Some codec_callback) (CSend [4] (Wrote 1)) c1 = Some (c2, [])" "sent c2 = [1, 2, 3, 4]"
    using 1 by (simp add: sendInLoop_def Let_def q)
  have run: "conn_run (Some codec_callback) ?ops (established 5) = Some (c2, [])"
    using 1(1) 2(1) by simp
  with tcp_stream_integrity [OF run] 2(2) show ?thesis
    by auto
qed

text \<open>
  Graceful shutdown: the write side of an open connection is shut down only when every byte
  sent so far is on the wire, and a shutdown requested while output is pending is carried out
  by the very write event that drains the buffer.
\<close>

theorem shutdown_waits_for_output:
  assumes "conn_run (Some codec_callback) ops (established f) = Some (c, es0)" "state c \<noteq> kDisconnected"
  shows "(ShutdownWr \<in> set (snd (shutdownInLoop c :: TcpConnection \<times> unit conn_effect list)) \<longrightarrow> wire c = sent c) \<and>
    (\<forall>ws c' es. handleWrite ws c = Some (c', es :: unit conn_effect list) \<and> state c' \<noteq> kDisconnected \<longrightarrow>
       (ShutdownWr \<in> set es \<longleftrightarrow>
          isWriting (channel c) \<and> state c = kDisconnecting \<and> wire c' = sent c'))"
proof -
  have inv: "out_inv c"
    using codec_mcb.run_inv [OF established_inv assms(1)] by (simp add: conn_inv_def)
  have 1: "wire c = sent c" if "\<not> isWriting (channel c)"
    using inv assms(2) that by (simp add: out_inv_open)
  have 2: "ShutdownWr \<in> set es \<longleftrightarrow> isWriting (channel c) \<and> state c = kDisconnecting \<and> wire c' = sent c'"
    if hw: "handleWrite ws c = Some (c', es :: unit conn_effect list)" and st: "state c' \<noteq> kDisconnected" for ws c' es
  proof (cases "isWriting (channel c)")
    case False
    then show ?thesis
      using hw by (simp add: handleWrite_def)
  next
    case True
    obtain c1 e where run: "write_loop ws c = Some (c1, e)"
      using hw True by (auto simp: handleWrite_def split: option.splits)
    have w: "sent c1 = sent c" "sent c = wire c1 @ content (outputBuffer c1)" "state c1 = state c"
      "e = WriteDone \<longleftrightarrow> content (outputBuffer c1) = []"
      using write_loop_inv [OF run] inv assms(2) by (auto simp: out_inv_open)
    show ?thesis
    proof (cases e)
      case WriteDone
      then show ?thesis
        using hw True run w by (auto simp: handleWrite_def shutdownInLoop_def Let_def split: if_splits)
    next
      case WriteAgain
      then show ?thesis
        using hw True run w by (auto simp: handleWrite_def)
    next
      case WriteError
      then show ?thesis
        using hw True run st by (auto simp: handleWrite_def handleError_def handleClose_def Let_def)
    qed
  qed
  show ?thesis
    using 1 2 by (auto simp: shutdownInLoop_def split: if_splits)
qed

theorem shutdown_waits_for_output_witness:
  "wire (established 5) = sent (established 5)"
proof -
  have "conn_run (Some codec_callback) [] (established 5) = Some (established 5, [])" "state (established 5) \<noteq> kDisconnected"
    by (simp_all add: established_fields)
  moreover have "ShutdownWr \<in> set (snd (shutdownInLoop (established 5) :: TcpConnection \<times> unit conn_effect list))"
    using established_inv [of 5] newBuffer_ok
    by (simp add: shutdownInLoop_def conn_inv_def out_inv_open established_fields)
  ultimately show ?thesis
    using shutdown_waits_for_output [of "[]" 5] by blast
qed

text \<open>
  A message accepted by \<open>send\<close> can be dropped by a shutdown that comes later. \<open>send\<close> from another
  thread checks the state and posts \<open>sendInLoop\<close>; a \<open>shutdown\<close> on the loop thread itself (the codec
  on a bad frame) then closes the write side at once, since nothing is buffered yet. The
  posted \<open>sendInLoop\<close> still finds the connection not disconnected, writes to a socket that is
  shut for writing, and on \<^verbatim>\<open>EPIPE\<close> the connection is closed with the message lost. (The program
  does not ignore \<^verbatim>\<open>SIGPIPE\<close> either.)
\<close>

theorem send_lost_after_shutdown:
  assumes "conn_inv c" "state c = kConnected" "content (outputBuffer c) = []" "msg \<noteq> []"
    and "shutdownInLoop (fst (shutdown c)) = (c1, es1 :: 'e conn_effect list)"
    and "sendInLoop msg (WriteFail (OtherErr 32)) c1 = Some (c2, es2 :: 'e conn_effect list)"
  shows "send msg c = [SendTask msg] \<and> wrShut c1 \<and> state c2 = kDisconnected \<and> wire c2 = wire c \<and>
    sent c2 = wire c2 @ msg"
proof -
  have w: "\<not> isWriting (channel c)" "readableBytes (outputBuffer c) = 0" "sent c = wire c"
    using assms(1-3) readable_content by (auto simp: conn_inv_def out_inv_open)
  have c1: "c1 = c\<lparr> state := kDisconnecting, wrShut := True \<rparr>"
    using assms(2,5) w by (auto simp: shutdown_def shutdownInLoop_def)
  then have "handleClose (c1\<lparr> sent := sent c1 @ msg \<rparr>) = (c2, es2)"
    using assms(6) w by (simp add: sendInLoop_def handleError_def Let_def)
  then show ?thesis
    using assms(2) w c1 by (auto simp: send_def handleClose_def Let_def)
qed

theorem send_lost_after_shutdown_witness:
  "\<exists>c1 es1 c2 es2. shutdownInLoop (fst (shutdown (established 5))) = (c1, es1 :: unit conn_effect list) \<and>
     sendInLoop [7] (WriteFail (OtherErr 32)) c1 = Some (c2, es2 :: unit conn_effect list) \<and>
     state c2 = kDisconnected \<and> wire c2 = []"
proof -
  obtain c1 es1 where 1: "shutdownInLoop (fst (shutdown (established 5))) = (c1, es1 :: unit conn_effect list)"
    by fastforce
  have "\<not> isWriting (channel (established 5))" "readableBytes (outputBuffer (established 5)) = 0"
    using established_inv [of 5] newBuffer_ok readable_content [of newBuffer]
    by (simp_all add: conn_inv_def out_inv_open established_fields)
  then have "c1 = (established 5)\<lparr> state := kDisconnecting, wrShut := True \<rparr>"
    using 1 by (auto simp: shutdown_def shutdownInLoop_def established_fields)
  then have "sendInLoop [7] (WriteFail (OtherErr 32)) c1 \<noteq> (None :: (TcpConnection \<times> unit conn_effect list) option)"
    by (simp add: sendInLoop_def Let_def established_fields)
  then obtain c2 es2 where 2: "sendInLoop [7] (WriteFail (OtherErr 32)) c1 = Some (c2, es2 :: unit conn_effect list)"
    by (metis option.exhaust prod.exhaust)
  have "content (outputBuffer (established 5)) = []"
    using newBuffer_ok by (simp add: established_fields)
  from send_lost_after_shutdown [OF established_inv established_fields(1) this _ 1 2] show ?thesis
    using 1 2 by (auto simp: established_fields)
qed

text \<open>
  Closing is not idempotent: one event that reports an error together with readable data runs
  the error callback and then the read callback, and when the read meets the end of file both
  close the connection. The connection callback and the close callback are called twice, and
  the second \<open>disableAll\<close> registers the descriptor again.
\<close>

theorem error_event_closes_twice:
  assumes "conn_inv c" "state c = kConnected" "connectionCbSet c" "closeCbSet c"
    and "readCb (channel c)" "errorCb (channel c)" "content (inputBuffer c) = []"
    and "channel_event mcb [ReadvData []] [] (EPOLLERR OR EPOLLIN) c = Some (c', es)"
  shows "es = [ConnectionCb False, CloseCallback, ConnectionCb False, CloseCallback] \<and>
    interest (poller c') (fd (channel c)) = Some 0"
proof -
  have bits: "(EPOLLERR OR EPOLLIN) AND EPOLLHUP = 0" "(EPOLLERR OR EPOLLIN) AND EPOLLERR \<noteq> 0"
    "(EPOLLERR OR EPOLLIN) AND (EPOLLIN OR EPOLLPRI OR EPOLLRDHUP) \<noteq> 0" "(EPOLLERR OR EPOLLIN) AND EPOLLOUT = 0"
    by (simp_all add: epoll_bits)
  have cbs: "handleEvent ((channel c)\<lparr> revents := EPOLLERR OR EPOLLIN \<rparr>) = [ErrorCb, ReadCb]"
    using assms(5,6) bits by (simp add: handleEvent_def)
  have bi: "buf_inv (inputBuffer c)"
    using assms(1) by (simp add: conn_inv_def out_inv_def)
  obtain b n err where r: "readFd (inputBuffer c) (ReadvData []) = (b, n, err)"
    by (cases "readFd (inputBuffer c) (ReadvData [])")
  have b: "buf_inv b" "readableBytes b = 0" "n = 0"
    using readFd_data_ok [OF bi r] assms(7) readable_content [of b] by auto
  let ?c1 = "on_channel disableAll (c\<lparr> state := kDisconnected \<rparr>)"
  let ?c2 = "on_channel disableAll (?c1\<lparr> inputBuffer := b, state := kDisconnected \<rparr>)"
  have run: "channel_event mcb [ReadvData []] [] (EPOLLERR OR EPOLLIN) c =
      Some (?c2, [ConnectionCb False, CloseCallback, ConnectionCb False, CloseCallback])"
    using assms(3,4) b r
    by (simp add: channel_event_def cbs handleError_def handleClose_def handleRead_def Let_def call_connectionCb_def
        connected_def split: option.splits)
  have reg: "index (channel c) = kAdded" "interest (poller c) (fd (channel c)) \<noteq> None"
    using assms(1,2) by (auto simp: conn_inv_def reg_inv_def)
  obtain ch1 p1 where 1: "disableAll (channel c) (poller c) = (ch1, p1)"
    by fastforce
  obtain ch2 p2 where 2: "disableAll ch1 p1 = (ch2, p2)"
    by fastforce
  have "interest p2 (fd (channel c)) = Some 0"
    using reg 1 2 by (auto simp: disableAll_def updateChannel_def ctl_def isNoneEvent_def Let_def)
  moreover have "poller ?c2 = p2"
    by (simp add: 1 2)
  ultimately show ?thesis
    using run assms(8) by simp
qed

theorem error_event_closes_twice_witness:
  "\<exists>c'. channel_event (Some codec_callback) [ReadvData []] [] (EPOLLERR OR EPOLLIN) (established 5) =
     Some (c', [ConnectionCb False, CloseCallback, ConnectionCb False, CloseCallback])"
proof -
  have cbs: "readCb (channel (established 5))" "errorCb (channel (established 5))"
    "content (inputBuffer (established 5)) = []"
    using newBuffer_ok by (simp_all add: established_fields)
  obtain c' es where run: "channel_event (Some codec_callback) [ReadvData []] [] (EPOLLERR OR EPOLLIN) (established 5) = Some (c', es)"
  proof -
    have "channel_event (Some codec_callback) [ReadvData []] [] (EPOLLERR OR EPOLLIN) (established 5) \<noteq> None"
      by (simp add: channel_event_def handleEvent_def epoll_bits established_fields handleError_def handleClose_def
          handleRead_def readFd_def Let_def case_prod_unfold split: option.splits)
    then show thesis
      using that by fastforce
  qed
  from error_event_closes_twice [OF established_inv established_fields(1,7,8) cbs run] run show ?thesis
    by auto
qed

end
