(* ===== verification/TcpServer.thy ===== *)
theory TcpServer
  imports TcpConnection EventLoop
begin

text \<open>
  \<^verbatim>\<open>src/src/net/TcpServer.h/.cc\<close> and \<^verbatim>\<open>Acceptor.h/.cc\<close>: accepting connections, the connection table, and the
  three-hop life of a connection: created on the base loop, established on its IO loop, closed
  there, erased on the base loop, destroyed on the IO loop again.

  A connection's name is its number. Connections live on the heap \<open>connHeap\<close> with the loop they are
  bound to; \<open>connections\<close> is the key set of \<open>connections_\<close>, \<open>ioQ\<close> holds the tasks queued on the IO loops and
  \<open>baseQ\<close> the removals posted to the base loop. With no IO threads every connection lives on the base
  loop, where \<^verbatim>\<open>runInLoop\<close> calls at once. The poller of a connection records the registration of its
  own descriptor. The connection counter is unbounded.
\<close>

subsection \<open>State and operations\<close>

datatype io_task = Establish nat | Destroy nat

record TcpServer =
  threadPool :: EventLoopThreadPool
  nextConnId :: nat
  connections :: "nat set"
  connHeap :: "nat \<rightharpoonup> nat \<times> TcpConnection"
  ioQ :: "nat \<Rightarrow> io_task list"
  baseQ :: "nat list"

definition newServer :: "nat \<Rightarrow> TcpServer" where
  "newServer threads = \<lparr> threadPool = pool_start Suc threads (newPool 0), nextConnId = 1, connections = {},
     connHeap = Map.empty, ioQ = (\<lambda>_. []), baseQ = [] \<rparr>"

abbreviation mainLoop :: "TcpServer \<Rightarrow> nat" where
  "mainLoop srv \<equiv> baseLoop (threadPool srv)"

definition put_conn :: "nat \<Rightarrow> nat \<times> TcpConnection \<Rightarrow> TcpServer \<Rightarrow> TcpServer" where
  "put_conn k lc srv = srv\<lparr> connHeap := (connHeap srv)(k \<mapsto> lc) \<rparr>"

definition queueInLoop :: "nat \<Rightarrow> io_task \<Rightarrow> TcpServer \<Rightarrow> TcpServer" where
  "queueInLoop l t srv = srv\<lparr> ioQ := (ioQ srv)(l := ioQ srv l @ [t]) \<rparr>"

fun run_io :: "io_task \<Rightarrow> TcpServer \<Rightarrow> TcpServer" where
  "run_io (Establish k) srv = (case connHeap srv k of
      None \<Rightarrow> srv
    | Some (l, c) \<Rightarrow> put_conn k (l, fst (connectEstablished c :: TcpConnection \<times> codec_event conn_effect list)) srv)"
| "run_io (Destroy k) srv = (case connHeap srv k of
      None \<Rightarrow> srv
    | Some (l, c) \<Rightarrow> put_conn k (l, fst (connectDestroyed c :: TcpConnection \<times> codec_event conn_effect list)) srv)"

definition serverNewConnection :: "nat \<Rightarrow> TcpServer \<Rightarrow> TcpServer" where
  "serverNewConnection sockfd srv =
     (let (l, pool) = getNextLoop (threadPool srv);
          k = nextConnId srv;
          srv = srv\<lparr> threadPool := pool, nextConnId := k + 1, connections := insert k (connections srv) \<rparr>;
          srv = put_conn k (l, newConnection sockfd newPoller) srv
      in if l = mainLoop srv then run_io (Establish k) srv else queueInLoop l (Establish k) srv)"

text \<open>The closure \<open>removeConnection\<close> runs on the base loop, and \<open>removeConnection\<close> itself, called on the
  loop \<open>l\<close> of the connection.\<close>

definition removeInBase :: "nat \<Rightarrow> TcpServer \<Rightarrow> TcpServer" where
  "removeInBase k srv =
     (let srv = srv\<lparr> connections := connections srv - {k} \<rparr> in
      case connHeap srv k of None \<Rightarrow> srv | Some (l, _) \<Rightarrow> queueInLoop l (Destroy k) srv)"

definition removeConnection :: "nat \<Rightarrow> nat \<Rightarrow> TcpServer \<Rightarrow> TcpServer" where
  "removeConnection l k srv =
     (if l = mainLoop srv then removeInBase k srv else srv\<lparr> baseQ := baseQ srv @ [k] \<rparr>)"

text \<open>The effects of a connection's handler: its close callback is \<open>removeConnection\<close>.\<close>

fun conn_effects :: "nat \<Rightarrow> nat \<Rightarrow> 'e conn_effect list \<Rightarrow> TcpServer \<Rightarrow> TcpServer" where
  "conn_effects l k [] srv = srv"
| "conn_effects l k (CloseCallback # es) srv = conn_effects l k es (removeConnection l k srv)"
| "conn_effects l k (_ # es) srv = conn_effects l k es srv"

definition runConn :: "nat \<Rightarrow> conn_op \<Rightarrow> TcpServer \<Rightarrow> TcpServer option" where
  "runConn k op srv = (case connHeap srv k of
       None \<Rightarrow> None
     | Some (l, c) \<Rightarrow>
         (case conn_exec (Some codec_callback) op c of
            None \<Rightarrow> None
          | Some (c', es) \<Rightarrow> Some (conn_effects l k es (put_conn k (l, c') srv))))"

subsection \<open>The acceptor\<close>

datatype accept_result = Accepted nat | AcceptFail errno

text \<open>\<open>Acceptor::handleRead\<close>, over the results of successive calls of \<^verbatim>\<open>accept4\<close>; every error ends the round.
  \<open>None\<close> stands for a list that stops before \<^verbatim>\<open>accept4\<close> fails.\<close>

fun acceptLoop :: "accept_result list \<Rightarrow> TcpServer \<Rightarrow> TcpServer option" where
  "acceptLoop [] srv = None"
| "acceptLoop (Accepted sockfd # rs) srv = acceptLoop rs (serverNewConnection sockfd srv)"
| "acceptLoop (AcceptFail e # rs) srv = Some srv"

subsection \<open>Steps\<close>

text \<open>An event is delivered only while the descriptor is registered; the other operations are calls of
  \<open>send\<close> and \<open>shutdown\<close> and the tasks they post, which exist only after the connection was up.\<close>

inductive srv_step :: "TcpServer \<Rightarrow> TcpServer \<Rightarrow> bool" where
  srv_accept: "acceptLoop rs srv = Some srv' \<Longrightarrow> srv_step srv srv'"
| srv_io: "ioQ srv l = t # q \<Longrightarrow> srv_step srv (run_io t (srv\<lparr> ioQ := (ioQ srv)(l := q) \<rparr>))"
| srv_base: "baseQ srv = k # q \<Longrightarrow> srv_step srv (removeInBase k (srv\<lparr> baseQ := q \<rparr>))"
| srv_conn: "connHeap srv k = Some (l, c) \<Longrightarrow> state c \<noteq> kConnecting \<Longrightarrow>
    (\<And>rs ws m. op = CEvent rs ws m \<Longrightarrow> interest (poller c) (fd (channel c)) \<noteq> None) \<Longrightarrow>
    runConn k op srv = Some srv' \<Longrightarrow> srv_step srv srv'"

subsection \<open>What one connection operation does to its life\<close>

lemma close_effect:
  assumes "handleClose c = (c', es :: 'e conn_effect list)" "closeCbSet c"
  shows "state c' = kDisconnected" "closeCbSet c'" "CloseCallback \<in> set es" "fd (channel c') = fd (channel c)"
  using assms by (auto simp: handleClose_def Let_def disableAll_def updateChannel_def)

text \<open>An operation keeps the life of the connection: it stays closed once closed, it does not go back to
  connecting, and closing calls the close callback, which only closing does.\<close>

definition life_step :: "TcpConnection \<Rightarrow> TcpConnection \<Rightarrow> 'e conn_effect list \<Rightarrow> bool" where
  "life_step c c' es \<longleftrightarrow> (closeCbSet c \<longrightarrow> closeCbSet c' \<and>
     (state c \<noteq> kConnecting \<longrightarrow> state c' \<noteq> kConnecting) \<and>
     (state c = kDisconnected \<longrightarrow> state c' = kDisconnected) \<and>
     (state c \<noteq> kDisconnected \<and> state c' = kDisconnected \<longrightarrow> CloseCallback \<in> set es) \<and>
     (CloseCallback \<in> set es \<longrightarrow> state c' = kDisconnected))"

lemma life_close: "handleClose c = (c', es) \<Longrightarrow> life_step c c' es"
  using close_effect [of c c' es] by (auto simp: life_step_def)

lemma life_quiet:
  "closeCbSet c' = closeCbSet c \<Longrightarrow> CloseCallback \<notin> set es \<Longrightarrow>
   state c = kDisconnected \<longleftrightarrow> state c' = kDisconnected \<Longrightarrow>
   state c = kConnecting \<longleftrightarrow> state c' = kConnecting \<Longrightarrow> life_step c c' es"
  by (auto simp: life_step_def)

lemma life_refl [simp]: "life_step c c []"
  by (simp add: life_quiet)

lemma life_trans: "life_step c c1 es1 \<Longrightarrow> life_step c1 c2 es2 \<Longrightarrow> life_step c c2 (es1 @ es2)"
  by (auto simp: life_step_def)

lemma queueRest_life [simp]:
  "closeCbSet (queueRest m n c) = closeCbSet c" "state (queueRest m n c) = state c"
  by (simp_all add: queueRest_def Let_def)

lemma send_life: "sendInLoop m w c = Some (c', es) \<Longrightarrow> life_step c c' es"
  by (auto simp: sendInLoop_def handleError_def Let_def life_quiet split: if_splits write_result.splits
      dest!: life_close) (auto simp: life_step_def)

lemma write_loop_life: "write_loop ws c = Some (c', e) \<Longrightarrow> state c' = state c \<and> closeCbSet c' = closeCbSet c"
proof (induction ws arbitrary: c)
  case Nil
  then show ?case
    by (subst (asm) write_loop.simps) (auto split: if_splits)
next
  case (Cons w ws)
  then show ?case
    by (subst (asm) (2) write_loop.simps) (auto split: if_splits option.splits write_result.splits)
qed

lemma handleWrite_life:
  assumes "handleWrite ws c = Some (c', es)"
  shows "life_step c c' es"
proof (cases "isWriting (channel c)")
  case True
  obtain c1 e where run: "write_loop ws c = Some (c1, e)"
    using assms True by (auto simp: handleWrite_def split: option.splits)
  note w = write_loop_life [OF run]
  then have 0: "life_step c c1 []"
    by (intro life_quiet) simp_all
  have "life_step c1 c' es"
    using assms True run life_close [of c1 c' es]
    by (cases e) (auto simp: handleWrite_def handleError_def shutdownInLoop_def Let_def intro!: life_quiet split: if_splits)
  then show ?thesis
    using life_trans [OF 0] by fastforce
qed (use assms in \<open>auto simp: handleWrite_def intro!: life_quiet\<close>)

lemma codec_callback_life: "codec_callback c = (c', es) \<Longrightarrow> life_step c c' es"
  by (auto simp: codec_callback_def shutdownInLoop_def shutdown_def connected_def Let_def intro!: life_quiet
      split: option.splits if_splits prod.splits)

lemma handleRead_life:
  assumes "handleRead (Some codec_callback) rs c = Some (c', es)"
  shows "life_step c c' es"
proof -
  obtain b e where r: "read_loop rs (inputBuffer c) = Some (b, e)"
    using assms by (auto simp: handleRead_def split: option.splits)
  define c1 where "c1 = c\<lparr> inputBuffer := b \<rparr>"
  obtain c2 es2 where 2: "(if 0 < readableBytes b then codec_callback c1 else (c1, [])) = (c2, es2)"
    by fastforce
  obtain c3 es3 where 3: "(if e = ReadEof then handleClose c2 else (c2, [] :: codec_event conn_effect list)) = (c3, es3)"
    by fastforce
  have l1: "life_step c c1 ([] :: codec_event conn_effect list)"
    by (auto simp: c1_def intro!: life_quiet)
  have l2: "life_step c1 c2 es2"
    using 2 codec_callback_life [of c1 c2 es2] by (auto split: if_splits)
  have l3: "life_step c2 c3 es3"
    using 3 life_close [of c2 c3 es3] by (auto split: if_splits)
  have "e = ReadError \<and> handleClose c1 = (c', es) \<or> c' = c3 \<and> es = es2 @ es3"
    using assms r 2 3 by (auto simp: handleRead_def handleError_def c1_def Let_def split: if_splits)
  then show ?thesis
    using life_trans [OF l1 life_trans [OF l2 l3]] life_trans [OF l1 life_close] by fastforce
qed

lemma callbacks_life:
  "run_callbacks (Some codec_callback) rs ws cbs c = Some (c', es) \<Longrightarrow> life_step c c' es"
proof (induction cbs arbitrary: c es)
  case Nil
  then show ?case
    by (auto intro!: life_quiet)
next
  case (Cons cb cbs)
  obtain c1 es1 es2 where 1: "(case cb of ReadCb \<Rightarrow> handleRead (Some codec_callback) rs c | WriteCb \<Rightarrow> handleWrite ws c
      | CloseCb \<Rightarrow> Some (handleClose c) | ErrorCb \<Rightarrow> Some (handleError c)) = Some (c1, es1)"
    "run_callbacks (Some codec_callback) rs ws cbs c1 = Some (c', es2)" "es = es1 @ es2"
    using Cons.prems by (auto split: option.splits)
  have "life_step c c1 es1"
    using 1(1) by (cases cb) (auto simp: handleError_def intro: handleRead_life handleWrite_life life_close)
  then show ?case
    using life_trans Cons.IH [OF 1(2)] 1(3) by blast
qed

lemma exec_life:
  assumes "conn_exec (Some codec_callback) op c = Some (c', es)"
  shows "life_step c c' es"
proof (cases op)
  case (CEvent rs ws m)
  then show ?thesis
    using assms callbacks_life by (auto simp: channel_event_def)
qed (use assms in \<open>auto simp: shutdown_def shutdownInLoop_def intro: send_life life_quiet split: if_splits\<close>)

text \<open>Without an event, a closed connection keeps its registration.\<close>

lemma exec_closed:
  assumes "conn_exec (Some codec_callback) op c = Some (c', es)" "state c = kDisconnected" "\<And>rs ws m. op \<noteq> CEvent rs ws m"
  shows "channel c' = channel c \<and> poller c' = poller c"
  using assms by (cases op) (auto simp: sendInLoop_def shutdown_def shutdownInLoop_def split: if_splits)

subsection \<open>The life of one connection\<close>

text \<open>What a connection's record says about its number \<open>k\<close>, given the loop and the connection object.\<close>

definition life_of :: "nat \<Rightarrow> nat \<Rightarrow> TcpConnection \<Rightarrow> TcpServer \<Rightarrow> bool" where
  "life_of k l c srv \<longleftrightarrow> k < nextConnId srv \<and> closeCbSet c \<and>
     ((\<exists>s. c = newConnection s newPoller) \<or> conn_inv c) \<and>
     (\<forall>l'. count_list (ioQ srv l') (Establish k) = (if l' = l \<and> state c = kConnecting then 1 else 0)) \<and>
     (k \<notin> connections srv \<longrightarrow> state c = kDisconnected) \<and>
     (k \<in> set (baseQ srv) \<longrightarrow> state c = kDisconnected) \<and>
     (k \<in> connections srv \<and> state c = kDisconnected \<longrightarrow> k \<in> set (baseQ srv)) \<and>
     (k \<notin> connections srv \<longrightarrow> Destroy k \<in> set (ioQ srv l) \<or> interest (poller c) (fd (channel c)) = None) \<and>
     (\<forall>l'. Destroy k \<in> set (ioQ srv l') \<longrightarrow> l' = l \<and> k \<notin> connections srv)"

definition unborn :: "nat \<Rightarrow> TcpServer \<Rightarrow> bool" where
  "unborn k srv \<longleftrightarrow> k \<notin> connections srv \<and> k \<notin> set (baseQ srv) \<and>
     (\<forall>l. Establish k \<notin> set (ioQ srv l) \<and> Destroy k \<notin> set (ioQ srv l))"

definition life :: "nat \<Rightarrow> TcpServer \<Rightarrow> bool" where
  "life k srv \<longleftrightarrow> (case connHeap srv k of None \<Rightarrow> unborn k srv | Some (l, c) \<Rightarrow> life_of k l c srv)"

lemma lifeD: "life k srv \<Longrightarrow> connHeap srv k = Some (l, c) \<Longrightarrow> life_of k l c srv"
  by (simp add: life_def)

lemma lifeI: "connHeap srv k = Some (l, c) \<Longrightarrow> life_of k l c srv \<Longrightarrow> life k srv"
  by (simp add: life_def)

text \<open>Two states that treat \<open>k\<close> alike.\<close>

definition same_for :: "nat \<Rightarrow> TcpServer \<Rightarrow> TcpServer \<Rightarrow> bool" where
  "same_for k s s' \<longleftrightarrow> connHeap s' k = connHeap s k \<and> nextConnId s \<le> nextConnId s' \<and>
     (k \<in> connections s' \<longleftrightarrow> k \<in> connections s) \<and> (k \<in> set (baseQ s') \<longleftrightarrow> k \<in> set (baseQ s)) \<and>
     (\<forall>l. count_list (ioQ s' l) (Establish k) = count_list (ioQ s l) (Establish k)) \<and>
     (\<forall>l. Destroy k \<in> set (ioQ s' l) \<longleftrightarrow> Destroy k \<in> set (ioQ s l))"

lemma same_life:
  assumes "same_for k s s'" "life k s"
  shows "life k s'"
proof (cases "connHeap s k")
  case None
  have "Establish k \<in> set (ioQ s' l) \<longleftrightarrow> Establish k \<in> set (ioQ s l)" for l
    using assms(1) by (metis count_list_0_iff same_for_def)
  then show ?thesis
    using assms None by (simp add: life_def unborn_def same_for_def)
next
  case (Some lc)
  obtain l c where lc: "lc = (l, c)"
    by (cases lc)
  then have L: "life_of k l c s"
    using assms(2) Some lifeD by blast
  have "nextConnId s \<le> nextConnId s'" and e: "k \<in> connections s' \<longleftrightarrow> k \<in> connections s" "k \<in> set (baseQ s') \<longleftrightarrow> k \<in> set (baseQ s)"
    "\<And>l. count_list (ioQ s' l) (Establish k) = count_list (ioQ s l) (Establish k)"
    "\<And>l. Destroy k \<in> set (ioQ s' l) \<longleftrightarrow> Destroy k \<in> set (ioQ s l)"
    using assms(1) by (simp_all add: same_for_def)
  then have "k < nextConnId s'"
    using L by (simp add: life_of_def)
  then have "life_of k l c s'"
    using L unfolding life_of_def e by (elim conjE, intro conjI) assumption+
  then show ?thesis
    using assms(1) Some lc by (simp add: life_def same_for_def)
qed

text \<open>The acceptor.\<close>

lemma new_life:
  assumes "\<forall>j. life j srv"
  shows "life k (serverNewConnection f srv)"
proof -
  let ?k = "nextConnId srv"
  obtain l pool where p: "getNextLoop (threadPool srv) = (l, pool)"
    by fastforce
  have fresh: "connHeap srv ?k = None"
  proof (rule ccontr)
    assume "connHeap srv ?k \<noteq> None"
    then obtain l c where "connHeap srv ?k = Some (l, c)"
      by auto
    then show False
      using assms lifeD [of ?k srv l c] by (simp add: life_of_def)
  qed
  then have unborn: "unborn ?k srv"
    using assms [rule_format, of ?k] by (simp add: life_def)
  then have none: "count_list (ioQ srv l') (Establish ?k) = 0" for l'
    by (simp add: unborn_def count_list_0_iff)
  have est: "closeCbSet (established f)" "conn_inv (established f)" "state (established f) = kConnected"
    by (simp_all add: established_fields established_inv)
  have new: "state (newConnection f newPoller) = kConnecting" "closeCbSet (newConnection f newPoller)"
    by (simp_all add: newConnection_def)
  show ?thesis
  proof (cases "k = ?k")
    case True
    then show ?thesis
      using unborn none est new
      by (auto simp: serverNewConnection_def p Let_def put_conn_def queueInLoop_def life_def life_of_def unborn_def
          established_def [symmetric])
  next
    case False
    then have "same_for k srv (serverNewConnection f srv)"
      by (auto simp: serverNewConnection_def p Let_def put_conn_def queueInLoop_def same_for_def)
    then show ?thesis
      using same_life assms by blast
  qed
qed

lemma accept_life: "\<forall>j. life j srv \<Longrightarrow> acceptLoop rs srv = Some srv' \<Longrightarrow> life k srv'"
  by (induction rs srv arbitrary: srv' rule: acceptLoop.induct) (simp_all add: new_life)

text \<open>The tasks of the IO loops.\<close>

lemma popped_establish:
  assumes "life k srv" "ioQ srv l = Establish k # q"
  obtains s where "connHeap srv k = Some (l, newConnection s newPoller)"
    "count_list q (Establish k) = 0" "k \<in> connections srv" "k \<notin> set (baseQ srv)"
proof -
  obtain l' c where h: "connHeap srv k = Some (l', c)"
    using assms by (auto simp: life_def unborn_def split: option.splits) (metis list.set_intros(1))
  then have L: "life_of k l' c srv"
    using assms(1) lifeD by blast
  then have n: "count_list (ioQ srv l) (Establish k) = (if l = l' \<and> state c = kConnecting then 1 else 0)"
    by (simp add: life_of_def)
  then have c: "l = l'" "state c = kConnecting" "count_list q (Establish k) = 0"
    using assms(2) by (auto split: if_splits)
  moreover obtain s where "c = newConnection s newPoller"
    using L c(2) by (auto simp: life_of_def conn_inv_def)
  ultimately show ?thesis
    using h L that by (auto simp: life_of_def)
qed

lemma establish_life:
  assumes "\<forall>j. life j srv" "ioQ srv l = Establish j # q"
  shows "life k (run_io (Establish j) (srv\<lparr> ioQ := (ioQ srv)(l := q) \<rparr>))"
proof -
  obtain s where p: "connHeap srv j = Some (l, newConnection s newPoller)"
    "count_list q (Establish j) = 0" "j \<in> connections srv" "j \<notin> set (baseQ srv)"
    using popped_establish assms by metis
  let ?srv = "put_conn j (l, established s) (srv\<lparr> ioQ := (ioQ srv)(l := q) \<rparr>)"
  have run: "run_io (Establish j) (srv\<lparr> ioQ := (ioQ srv)(l := q) \<rparr>) = ?srv"
    using p(1) by (simp add: established_def)
  show ?thesis
  proof (cases "k = j")
    case True
    have L: "life_of j l (newConnection s newPoller) srv"
      using assms(1) p(1) lifeD by blast
    then have "Destroy j \<notin> set (ioQ srv l)"
      using p(3) by (auto simp: life_of_def)
    then have "Destroy j \<notin> set q"
      by (simp add: assms(2))
    then have "life_of j l (established s) ?srv"
      using L p assms(2) established_inv [of s]
      by (auto simp: life_of_def put_conn_def established_fields)
    then show ?thesis
      unfolding run True by (rule lifeI [rotated]) (simp add: put_conn_def)
  next
    case False
    then have "same_for k srv ?srv"
      using assms(2) by (auto simp: same_for_def put_conn_def)
    then show ?thesis
      using same_life assms(1) unfolding run by blast
  qed
qed

lemma destroyed:
  assumes "conn_inv c" "state c = kDisconnected" "connectDestroyed c = (c', es :: codec_event conn_effect list)"
  shows "conn_inv c'" "state c' = kDisconnected" "closeCbSet c' = closeCbSet c"
    "interest (poller c') (fd (channel c')) = None"
proof -
  show inv: "conn_inv c'"
    using conn_inv_destroyed assms by blast
  have "c' = on_channel removeChannel c"
    using assms(2,3) by (simp add: connectDestroyed_def)
  then show "state c' = kDisconnected" "closeCbSet c' = closeCbSet c" "interest (poller c') (fd (channel c')) = None"
    using inv assms(2) by (auto simp: conn_inv_def reg_inv_def on_channel_def removeChannel_def Let_def split: prod.splits if_splits)
qed

lemma destroy_life:
  assumes "\<forall>j. life j srv" "ioQ srv l = Destroy j # q"
  shows "life k (run_io (Destroy j) (srv\<lparr> ioQ := (ioQ srv)(l := q) \<rparr>))"
proof -
  obtain l' c where h: "connHeap srv j = Some (l', c)"
    using assms(1) [rule_format, of j] assms(2) by (auto simp: life_def unborn_def split: option.splits) (metis list.set_intros(1))
  then have L: "life_of j l' c srv"
    using assms(1) lifeD by blast
  then have j: "l' = l" "j \<notin> connections srv" "state c = kDisconnected"
    using assms(2) unfolding life_of_def by (metis list.set_intros(1))+
  have inv: "conn_inv c"
    using L j(3) by (auto simp: life_of_def newConnection_def)
  obtain c' es where d: "connectDestroyed c = (c', es :: codec_event conn_effect list)"
    by fastforce
  let ?srv = "put_conn j (l, c') (srv\<lparr> ioQ := (ioQ srv)(l := q) \<rparr>)"
  have run: "run_io (Destroy j) (srv\<lparr> ioQ := (ioQ srv)(l := q) \<rparr>) = ?srv"
    using h j(1) by (simp add: d)
  show ?thesis
  proof (cases "k = j")
    case True
    have "count_list (ioQ srv l) (Establish j) = 0"
      using L j(3) by (simp add: life_of_def)
    then have "count_list q (Establish j) = 0"
      by (simp add: assms(2))
    then have "life_of j l c' ?srv"
      using L j assms(2) destroyed [OF inv j(3) d] by (auto simp: life_of_def put_conn_def)
    then show ?thesis
      unfolding run True by (rule lifeI [rotated]) (simp add: put_conn_def)
  next
    case False
    then have "same_for k srv ?srv"
      using assms(2) by (auto simp: same_for_def put_conn_def)
    then show ?thesis
      using same_life assms(1) unfolding run by blast
  qed
qed

lemma io_life: "\<forall>j. life j srv \<Longrightarrow> ioQ srv l = t # q \<Longrightarrow> life k (run_io t (srv\<lparr> ioQ := (ioQ srv)(l := q) \<rparr>))"
  using establish_life destroy_life by (cases t) blast+

text \<open>The removal on the base loop.\<close>

lemma remove_life:
  assumes "life k srv" "connHeap srv j = Some (l, c)" "state c = kDisconnected"
    and q: "set q \<subseteq> set (baseQ srv)" "set (baseQ srv) \<subseteq> insert j (set q)"
  shows "life k (removeInBase j (srv\<lparr> baseQ := q \<rparr>))"
proof (cases "k = j")
  case True
  have "life_of j l c srv"
    using assms(1,2) True lifeD by blast
  then have "life_of j l c (removeInBase j (srv\<lparr> baseQ := q \<rparr>))"
    using assms(2,3) by (auto simp: life_of_def removeInBase_def queueInLoop_def Let_def)
  then show ?thesis
    unfolding True by (rule lifeI [rotated]) (simp add: removeInBase_def queueInLoop_def Let_def assms(2))
next
  case False
  then have "same_for k srv (removeInBase j (srv\<lparr> baseQ := q \<rparr>))"
    using q by (auto simp: same_for_def removeInBase_def queueInLoop_def Let_def assms(2))
  then show ?thesis
    using same_life assms(1) by blast
qed

lemma base_life:
  assumes "\<forall>j. life j srv" "baseQ srv = j # q"
  shows "life k (removeInBase j (srv\<lparr> baseQ := q \<rparr>))"
proof -
  obtain l c where h: "connHeap srv j = Some (l, c)"
    using assms(1) [rule_format, of j] assms(2) by (auto simp: life_def unborn_def split: option.splits)
  then have "life_of j l c srv"
    using assms(1) lifeD by blast
  then have "state c = kDisconnected"
    using assms(2) by (simp add: life_of_def)
  with h show ?thesis
    using assms by (intro remove_life) auto
qed

text \<open>The close callbacks of a connection operation, in closed form.\<close>

lemma effects_io:
  "l \<noteq> mainLoop srv \<Longrightarrow> conn_effects l k es srv = srv\<lparr> baseQ := baseQ srv @ replicate (count_list es CloseCallback) k \<rparr>"
  by (induction l k es srv rule: conn_effects.induct) (simp_all add: removeConnection_def replicate_append_same [symmetric])

lemma effects_base:
  "l = mainLoop srv \<Longrightarrow> connHeap srv k = Some (l, c) \<Longrightarrow> conn_effects l k es srv =
     (if CloseCallback \<in> set es
      then srv\<lparr> connections := connections srv - {k},
                ioQ := (ioQ srv)(l := ioQ srv l @ replicate (count_list es CloseCallback) (Destroy k)) \<rparr>
      else srv)"
proof (induction l k es srv rule: conn_effects.induct)
  case (2 l k es srv)
  let ?srv = "removeConnection l k srv"
  have r: "?srv = srv\<lparr> connections := connections srv - {k}, ioQ := (ioQ srv)(l := ioQ srv l @ [Destroy k]) \<rparr>"
    using 2 by (simp add: removeConnection_def removeInBase_def queueInLoop_def Let_def)
  have "conn_effects l k es ?srv = (if CloseCallback \<in> set es
      then ?srv\<lparr> connections := connections ?srv - {k},
                ioQ := (ioQ ?srv)(l := ioQ ?srv l @ replicate (count_list es CloseCallback) (Destroy k)) \<rparr>
      else ?srv)"
    by (rule "2.IH", unfold r) (use "2.prems" in simp_all)
  then show ?case
    by (auto simp: r count_list_0_iff)
qed simp_all

lemma in_replicate: "x \<in> set (replicate n y) \<longleftrightarrow> 0 < n \<and> x = y"
  by auto

lemma count_replicate_other [simp]: "x \<noteq> y \<Longrightarrow> count_list (replicate n y) x = 0"
  by (auto simp: count_list_0_iff)

lemma count_close: "0 < count_list es x \<longleftrightarrow> x \<in> set es"
  using count_list_0_iff [of es x] by auto

text \<open>The server after a connection operation with effects \<open>es\<close> that leaves the connection object \<open>c'\<close>.\<close>

definition after_op :: "nat \<Rightarrow> nat \<Rightarrow> TcpConnection \<Rightarrow> 'e conn_effect list \<Rightarrow> TcpServer \<Rightarrow> TcpServer" where
  "after_op j l c' es srv =
    (if l \<noteq> mainLoop srv then (put_conn j (l, c') srv)\<lparr> baseQ := baseQ srv @ replicate (count_list es CloseCallback) j \<rparr>
     else if CloseCallback \<in> set es then (put_conn j (l, c') srv)\<lparr> connections := connections srv - {j},
       ioQ := (ioQ srv)(l := ioQ srv l @ replicate (count_list es CloseCallback) (Destroy j)) \<rparr>
     else put_conn j (l, c') srv)"

lemma effects_after: "conn_effects l j es (put_conn j (l, c') srv) = after_op j l c' es srv"
  using effects_io [of l "put_conn j (l, c') srv" j es] effects_base [of l "put_conn j (l, c') srv" j c' es]
  by (simp add: after_op_def put_conn_def)

lemma life_after_op:
  assumes L: "life_of j l c srv" and st: "state c \<noteq> kConnecting" and inv': "conn_inv c'" and step: "life_step c c' es"
    and reg: "j \<notin> connections srv \<longrightarrow> Destroy j \<in> set (ioQ srv l) \<or> interest (poller c') (fd (channel c')) = None"
    and srv': "srv' = after_op j l c' es srv"
  shows "life_of j l c' srv'"
proof -
  have cb: "closeCbSet c"
    using L by (simp add: life_of_def)
  with step st have "closeCbSet c'" "state c' \<noteq> kConnecting"
    by (simp_all add: life_step_def)
  moreover have closed: "state c = kDisconnected \<or> CloseCallback \<in> set es \<longleftrightarrow> state c' = kDisconnected"
    using step cb unfolding life_step_def by blast
  ultimately have base: "life_of j l c' srv' \<longleftrightarrow> j < nextConnId srv' \<and>
    (\<forall>l'. Establish j \<notin> set (ioQ srv' l')) \<and> (j \<notin> connections srv' \<longrightarrow> state c' = kDisconnected) \<and>
    (j \<in> set (baseQ srv') \<longrightarrow> state c' = kDisconnected) \<and>
    (j \<in> connections srv' \<and> state c' = kDisconnected \<longrightarrow> j \<in> set (baseQ srv')) \<and>
    (j \<notin> connections srv' \<longrightarrow> Destroy j \<in> set (ioQ srv' l) \<or> interest (poller c') (fd (channel c')) = None) \<and>
    (\<forall>l'. Destroy j \<in> set (ioQ srv' l') \<longrightarrow> l' = l \<and> j \<notin> connections srv')"
    using inv' by (simp add: life_of_def count_list_0_iff)
  have old: "j < nextConnId srv" "\<And>l'. Establish j \<notin> set (ioQ srv l')"
    "j \<notin> connections srv \<Longrightarrow> state c = kDisconnected" "j \<in> set (baseQ srv) \<Longrightarrow> state c = kDisconnected"
    "j \<in> connections srv \<Longrightarrow> state c = kDisconnected \<Longrightarrow> j \<in> set (baseQ srv)"
    "\<And>l'. Destroy j \<in> set (ioQ srv l') \<Longrightarrow> l' = l \<and> j \<notin> connections srv"
    using L st by (simp_all add: life_of_def count_list_0_iff)
  show ?thesis
  proof (cases "CloseCallback \<in> set es")
    case True
    then have "0 < count_list es CloseCallback"
      by (simp add: count_close)
    with True show ?thesis
      unfolding base using old reg closed by (cases "l = mainLoop srv") (auto simp: srv' after_op_def put_conn_def)
  next
    case False
    then show ?thesis
      unfolding base using old reg closed by (auto simp: srv' after_op_def put_conn_def count_list_0_iff)
  qed
qed

lemma conn_life:
  assumes all: "\<forall>j. life j srv" and h: "connHeap srv j = Some (l, c)" and st: "state c \<noteq> kConnecting"
    and ev: "\<And>rs ws m. op = CEvent rs ws m \<Longrightarrow> interest (poller c) (fd (channel c)) \<noteq> None"
    and run: "runConn j op srv = Some srv'"
  shows "life k srv'"
proof -
  obtain c' es where x: "conn_exec (Some codec_callback) op c = Some (c', es)"
    and srv': "srv' = after_op j l c' es srv"
    using run h by (auto simp: runConn_def effects_after split: option.splits)
  have L: "life_of j l c srv"
    using all h lifeD by blast
  then have inv: "conn_inv c"
    using st by (auto simp: life_of_def newConnection_def)
  then have inv': "conn_inv c'"
    using codec_mcb.exec_inv x by blast
  have step: "life_step c c' es"
    by (rule exec_life [OF x])
  have quiet: "(\<exists>rs ws m. op = CEvent rs ws m) \<or> state c \<noteq> kDisconnected \<or> channel c' = channel c \<and> poller c' = poller c"
    using exec_closed [OF x] by blast
  have reg: "j \<notin> connections srv \<longrightarrow> Destroy j \<in> set (ioQ srv l) \<or> interest (poller c') (fd (channel c')) = None"
    using L ev quiet unfolding life_of_def by metis
  show ?thesis
  proof (cases "k = j")
    case True
    have "life_of j l c' srv'"
      by (rule life_after_op [OF L st inv' step reg srv'])
    moreover have "connHeap srv' j = Some (l, c')"
      by (simp add: srv' after_op_def put_conn_def)
    ultimately show ?thesis
      unfolding True by (rule lifeI [rotated])
  next
    case False
    then have "same_for k srv srv'"
      by (auto simp: srv' after_op_def same_for_def put_conn_def in_replicate)
    then show ?thesis
      using same_life all by blast
  qed
qed

lemma srv_step_life: "\<forall>k. life k srv \<Longrightarrow> srv_step srv srv' \<Longrightarrow> \<forall>k. life k srv'"
  by (erule srv_step.cases) (use accept_life io_life base_life conn_life in metis)+

interpretation srv_ts: transition_system "\<lambda>srv. \<exists>n. srv = newServer n" srv_step .

lemma new_server_life: "life k (newServer n)"
  by (simp add: newServer_def life_def unborn_def)

lemma reach_life:
  assumes "srv_ts.reach srv"
  shows "life k srv"
proof -
  have "\<forall>k. life k srv"
  proof (rule srv_ts.reach_invariant [OF _ _ assms])
    show "\<forall>k. life k s'" if "\<forall>k. life k s" "srv_step s s'" for s s'
      using srv_step_life that by blast
  qed (auto simp: new_server_life)
  then show ?thesis
    by blast
qed

subsection \<open>Properties\<close>

text \<open>
  C13. The life of a connection across threads, in every reachable state and for every interleaving of
  the acceptor, the IO loops and the base loop: a connection that is not yet up has exactly one
  task queued that brings it up; an open one is in the table, has no removal under way and is
  registered for reading; a closed one is out of the table or its removal is queued; and one
  that is out of the table is unregistered or its destruction is queued. Its tasks are only
  ever queued on its own loop.
\<close>

theorem server_connection_lifecycle:
  assumes "srv_ts.reach srv" "connHeap srv k = Some (l, c)"
  shows "(state c = kConnecting \<longrightarrow> k \<in> connections srv \<and> count_list (ioQ srv l) (Establish k) = 1) \<and>
    (state c \<in> {kConnected, kDisconnecting} \<longrightarrow> k \<in> connections srv \<and> k \<notin> set (baseQ srv) \<and>
       (\<exists>m. interest (poller c) (fd (channel c)) = Some m \<and> bit m 0)) \<and>
    (state c = kDisconnected \<longrightarrow> k \<notin> connections srv \<or> k \<in> set (baseQ srv)) \<and>
    (k \<notin> connections srv \<longrightarrow> Destroy k \<in> set (ioQ srv l) \<or> interest (poller c) (fd (channel c)) = None) \<and>
    (\<forall>l'. Establish k \<in> set (ioQ srv l') \<or> Destroy k \<in> set (ioQ srv l') \<longrightarrow> l' = l)"
proof -
  have L: "life_of k l c srv"
    using reach_life [OF assms(1)] assms(2) lifeD by blast
  then have one: "Establish k \<in> set (ioQ srv l') \<Longrightarrow> l' = l" for l'
    unfolding life_of_def by (metis count_list_0_iff)
  have "conn_inv c \<or> state c = kConnecting"
  proof -
    have "(\<exists>s. c = newConnection s newPoller) \<or> conn_inv c"
      using L by (simp add: life_of_def)
    then show ?thesis
      by (elim disjE exE) (simp_all add: newConnection_def)
  qed
  then have open_reg: "state c \<in> {kConnected, kDisconnecting} \<Longrightarrow> \<exists>m. interest (poller c) (fd (channel c)) = Some m \<and> bit m 0"
    by (auto simp: conn_inv_def reg_inv_def)
  have cnt: "state c = kConnecting \<Longrightarrow> count_list (ioQ srv l) (Establish k) = 1"
    and tab: "state c \<noteq> kDisconnected \<Longrightarrow> k \<in> connections srv \<and> k \<notin> set (baseQ srv)"
    and gone: "state c = kDisconnected \<longrightarrow> k \<notin> connections srv \<or> k \<in> set (baseQ srv)"
    and unreg: "k \<notin> connections srv \<longrightarrow> Destroy k \<in> set (ioQ srv l) \<or> interest (poller c) (fd (channel c)) = None"
    and dst: "\<And>l'. Destroy k \<in> set (ioQ srv l') \<Longrightarrow> l' = l"
    using L by (simp_all add: life_of_def)
  have "state c = kConnecting \<longrightarrow> k \<in> connections srv \<and> count_list (ioQ srv l) (Establish k) = 1"
    using cnt tab by (metis conn_state.distinct(5))
  moreover have "state c \<in> {kConnected, kDisconnecting} \<longrightarrow> k \<in> connections srv \<and> k \<notin> set (baseQ srv) \<and>
      (\<exists>m. interest (poller c) (fd (channel c)) = Some m \<and> bit m 0)"
    using open_reg tab by fastforce
  ultimately show ?thesis
    using gone unreg one dst by blast
qed

text \<open>A server with one IO thread that accepted a connection, brought it up and saw it hang up.\<close>

definition demo_server :: TcpServer where
  "demo_server = serverNewConnection 5 (newServer 1)"

definition demo_open :: TcpServer where
  "demo_open = run_io (Establish 1) (demo_server\<lparr> ioQ := (ioQ demo_server)(1 := []) \<rparr>)"

lemma demo_open_conn: "connHeap demo_open 1 = Some (1, established 5)"
  by (simp add: demo_open_def demo_server_def serverNewConnection_def newServer_def getNextLoop_def newPool_def
      put_conn_def queueInLoop_def Let_def established_def)

lemma demo_open_reachable: "srv_ts.reach demo_open"
proof -
  have 1: "srv_ts.reach (newServer 1)"
    by (intro srv_ts.reach_init) blast
  have 2: "srv_step (newServer 1) demo_server"
    by (rule srv_accept [of "[Accepted 5, AcceptFail EAGAIN]"]) (simp add: demo_server_def)
  have "ioQ demo_server 1 = [Establish 1]"
    by code_simp
  then have "srv_step demo_server demo_open"
    unfolding demo_open_def by (rule srv_io)
  with 1 2 show ?thesis
    using srv_ts.reach_step by blast
qed

theorem server_connection_lifecycle_witness:
  "\<exists>srv c. runConn 1 (CEvent [] [] EPOLLHUP) demo_open = Some srv \<and> connHeap srv 1 = Some (1, c) \<and>
     state c = kDisconnected \<and> (1 \<notin> connections srv \<or> 1 \<in> set (baseQ srv))"
proof -
  obtain c where c: "connHeap demo_open 1 = Some (1, c)" "state c \<noteq> kConnecting" "interest (poller c) (fd (channel c)) \<noteq> None"
    using demo_open_conn established_inv [of 5] by (auto simp: conn_inv_def reg_inv_def established_fields)
  obtain srv c' where r: "runConn 1 (CEvent [] [] EPOLLHUP) demo_open = Some srv" "connHeap srv 1 = Some (1, c')" "state c' = kDisconnected"
  proof -
    have "handleEvent (channel (established 5)\<lparr> revents := EPOLLHUP \<rparr>) = [CloseCb]"
      by (simp add: handleEvent_def established_fields EPOLLHUP_def EPOLLIN_def)
    then have "conn_exec (Some codec_callback) (CEvent [] [] EPOLLHUP) (established 5) = Some (handleClose (established 5))"
      by (simp add: channel_event_def split: prod.splits)
    moreover obtain c' es where hc: "handleClose (established 5) = (c', es :: codec_event conn_effect list)"
      by fastforce
    ultimately have "runConn 1 (CEvent [] [] EPOLLHUP) demo_open = Some (after_op 1 1 c' es demo_open)"
      using c(1) demo_open_conn by (simp add: runConn_def effects_after)
    moreover have "connHeap (after_op 1 1 c' es demo_open) 1 = Some (1, c')"
      by (simp add: after_op_def put_conn_def)
    ultimately show ?thesis
      using close_effect(1) [OF hc] that by (simp add: established_fields)
  qed
  have "srv_ts.reach srv"
    using srv_conn [OF c(1,2) _ r(1)] c(3) demo_open_reachable srv_ts.reach_step by blast
  from server_connection_lifecycle [OF this r(2)] r show ?thesis
    by blast
qed

end
