(* ===== verification/GameServer.thy ===== *)
theory GameServer
  imports Room MatchQueue TimerWheel EventLoop
begin

text \<open>
  The game server, \<^verbatim>\<open>src/src/game/GameServer.h\<close>, \<^verbatim>\<open>GameServer.cc\<close> and \<^verbatim>\<open>Session.h\<close>: sessions,
  match making, routing to the rooms, reconnection, heartbeats and the storage tasks.

  The lobby's state is private to the lobby thread, so each handler is one function on the
  record \<open>GameServer\<close>; \<open>out\<close> is the log of what leaves the server (frames, shutdowns, storage
  tasks). A connection and its name are one number. The rooms live on a heap \<open>roomHeap\<close>, each with
  the number of the event loop it is bound to, and \<open>rooms\<close> is the key set of \<open>rooms_\<close>.
  \<open>loopQ\<close> holds the room tasks posted to each loop, \<open>roomEnds\<close> the end-of-battle calls game threads have
  posted to the lobby. With no game threads the rooms run on the lobby's own loop, where
  \<^verbatim>\<open>runInLoop\<close> calls at once: \<open>runInLoop\<close> and \<open>room_callback\<close> make that distinction. The readings
  of the clock (\<open>now\<close>, one per task) and of the random generator are arguments; \<^verbatim>\<open>std::hypot\<close>
  is the field \<open>hypotf\<close>. The id counters are unbounded (they would need \<open>2^64\<close> logins to wrap).
\<close>

subsection \<open>Data\<close>

datatype sess_state = kLobby | kMatching | kInRoom

record Session =
  playerId :: nat
  token :: string
  account :: string
  conn :: "nat option"
  roomId :: nat
  state :: sess_state
  lastHeartbeatMs :: nat
  expireTimerId :: nat

text \<open>The closures the lobby hands to the timer wheel and to the storage thread.\<close>

datatype timer_cb = MatchTimeout nat | ExpireSession nat | Sweep

datatype storage_task =
    ConnectStores | SetOnline string | DelOnline string | RecordResult string string | TopN nat int

datatype lobby_effect =
    ToConn nat MsgId server_msg | ShutdownConn nat | Enqueue storage_task

record GameServer =
  hypotf :: "float32 \<Rightarrow> float32 \<Rightarrow> float32"
  gamePool :: EventLoopThreadPool
  writerOn :: bool
  connToPlayer :: "nat \<rightharpoonup> nat"
  sessions :: "(nat, Session) umap"
  rooms :: "nat set"
  matchQueue :: MatchQueue
  matchTimer :: "nat \<rightharpoonup> nat"
  wheel :: "timer_cb TimerWheel"
  nextPlayerId :: nat
  nextRoomId :: nat
  roomHeap :: "nat \<rightharpoonup> nat \<times> Room"
  loopQ :: "nat \<Rightarrow> (nat \<times> room_task) list"
  roomEnds :: "(nat \<times> nat) list"
  out :: "lobby_effect list"

definition kHeartbeatTimeoutMs :: nat where "kHeartbeatTimeoutMs = 10000"
definition kMatchTimeoutMs :: nat where "kMatchTimeoutMs = 30000"
definition kSessionKeepMs :: nat where "kSessionKeepMs = 30000"
definition kSweepIntervalMs :: nat where "kSweepIntervalMs = 5000"

abbreviation session :: "GameServer \<Rightarrow> nat \<Rightarrow> Session option" where
  "session g p \<equiv> map_of (sessions g) p"

definition emit :: "lobby_effect list \<Rightarrow> GameServer \<Rightarrow> GameServer" where
  "emit es g = g\<lparr> out := out g @ es \<rparr>"

definition put_session :: "Session \<Rightarrow> nat \<Rightarrow> GameServer \<Rightarrow> GameServer" where
  "put_session s p g = g\<lparr> sessions := AList.update p s (sessions g) \<rparr>"

definition enqueue :: "storage_task \<Rightarrow> GameServer \<Rightarrow> GameServer" where
  "enqueue t g = (if writerOn g then emit [Enqueue t] g else g)"

subsection \<open>Tokens\<close>

definition hex_digit :: "nat \<Rightarrow> char" where
  "hex_digit d = ''0123456789abcdef'' ! d"

fun hex_pad :: "nat \<Rightarrow> nat \<Rightarrow> string" where
  "hex_pad 0 n = []"
| "hex_pad (Suc k) n = hex_pad k (n div 16) @ [hex_digit (n mod 16)]"

definition genToken :: "nat \<Rightarrow> nat \<Rightarrow> string" where
  "genToken r1 r2 = take 32 (hex_pad 16 (u64 r1) @ hex_pad 16 (u64 r2))"

subsection \<open>The end of a room\<close>

fun settle :: "nat \<Rightarrow> nat \<Rightarrow> (nat \<times> Session) list \<Rightarrow> string \<times> string \<Rightarrow> string \<times> string" where
  "settle rid w [] acc = acc"
| "settle rid w ((p, s) # ss) (wa, la) =
     settle rid w ss
       (if roomId s = rid then (if p = w then (account s, la) else (wa, account s)) else (wa, la))"

definition release :: "nat \<Rightarrow> Session \<Rightarrow> Session" where
  "release rid s = (if roomId s = rid then s\<lparr> roomId := 0, state := kLobby \<rparr> else s)"

definition onRoomEnd :: "nat \<Rightarrow> nat \<Rightarrow> GameServer \<Rightarrow> GameServer" where
  "onRoomEnd rid w g =
     (let (winnerAcc, loserAcc) = settle rid w (sessions g) ([], []);
          g = g\<lparr> rooms := rooms g - {rid}, sessions := umap_map (\<lambda>_. release rid) (sessions g) \<rparr>
      in if winnerAcc \<noteq> [] \<and> loserAcc \<noteq> [] then enqueue (RecordResult winnerAcc loserAcc) g else g)"

subsection \<open>Room tasks\<close>

abbreviation lobbyLoop :: "GameServer \<Rightarrow> nat" where
  "lobbyLoop g \<equiv> baseLoop (gamePool g)"

text \<open>What a room task asks of its surroundings: frames go to connections, the ticker reset is
  queued on the room's loop, and the end callback hops to the lobby, where it runs at once when
  the room's loop is the lobby's.\<close>

fun room_callback :: "nat \<Rightarrow> nat \<Rightarrow> room_effect \<Rightarrow> GameServer \<Rightarrow> GameServer" where
  "room_callback l rid (SendFrame c mid m) g = emit [ToConn c mid m] g"
| "room_callback l rid QueueTickerReset g = g\<lparr> loopQ := (loopQ g)(l := loopQ g l @ [(rid, TTickerReset)]) \<rparr>"
| "room_callback l rid (OnEnd r w) g =
     (if l = lobbyLoop g then onRoomEnd r w g else g\<lparr> roomEnds := roomEnds g @ [(r, w)] \<rparr>)"

definition runTask :: "nat \<Rightarrow> nat \<Rightarrow> room_task \<Rightarrow> GameServer \<Rightarrow> GameServer" where
  "runTask l rid t g = (case roomHeap g rid of
       None \<Rightarrow> g
     | Some (_, r) \<Rightarrow>
         (case room_exec (hypotf g) t r of (r', es) \<Rightarrow>
            fold (room_callback l rid) es (g\<lparr> roomHeap := (roomHeap g)(rid \<mapsto> (l, r')) \<rparr>)))"

definition runInLoop :: "nat \<Rightarrow> room_task \<Rightarrow> GameServer \<Rightarrow> GameServer" where
  "runInLoop rid t g = (case roomHeap g rid of
       None \<Rightarrow> g
     | Some (l, _) \<Rightarrow>
         if l = lobbyLoop g then runTask l rid t g
         else g\<lparr> loopQ := (loopQ g)(l := loopQ g l @ [(rid, t)]) \<rparr>)"

subsection \<open>The handlers of the lobby thread\<close>

definition sessionOf :: "GameServer \<Rightarrow> nat \<Rightarrow> Session option" where
  "sessionOf g c = (case connToPlayer g c of None \<Rightarrow> None | Some p \<Rightarrow> session g p)"

definition loginResp :: "int \<Rightarrow> nat \<Rightarrow> string \<Rightarrow> server_msg" where
  "loginResp code p tok = MLoginResp \<lparr> lr_code = code, lr_player_id = p, lr_session_token = tok \<rparr>"

definition onLogin :: "nat \<Rightarrow> nat \<times> nat \<Rightarrow> nat \<Rightarrow> string \<Rightarrow> GameServer \<Rightarrow> GameServer" where
  "onLogin now rng c acc g =
     (let p = nextPlayerId g;
          s = \<lparr> playerId = p, token = genToken (fst rng) (snd rng), account = acc, conn = Some c, roomId = 0,
                state = kLobby, lastHeartbeatMs = now, expireTimerId = 0 \<rparr>;
          g = put_session s p (g\<lparr> nextPlayerId := p + 1 \<rparr>);
          g = g\<lparr> connToPlayer := (connToPlayer g)(c \<mapsto> p) \<rparr>;
          g = emit [ToConn c kLoginResp (loginResp 0 p (token s))] g
      in enqueue (SetOnline acc) g)"

definition onReconnect :: "nat \<Rightarrow> nat \<Rightarrow> nat \<Rightarrow> string \<Rightarrow> GameServer \<Rightarrow> GameServer" where
  "onReconnect now c p tok g = (case session g p of
       None \<Rightarrow> emit [ToConn c kLoginResp (loginResp 1 0 []), ShutdownConn c] g
     | Some s \<Rightarrow>
         if token s \<noteq> tok \<or> conn s \<noteq> None
         then emit [ToConn c kLoginResp (loginResp 1 0 []), ShutdownConn c] g
         else
           let g = (if expireTimerId s \<noteq> 0 then g\<lparr> wheel := cancel (wheel g) (expireTimerId s) \<rparr> else g);
               s = s\<lparr> expireTimerId := 0, conn := Some c, lastHeartbeatMs := now \<rparr>;
               g = put_session s p g;
               g = g\<lparr> connToPlayer := (connToPlayer g)(c \<mapsto> playerId s) \<rparr>;
               g = emit [ToConn c kLoginResp (loginResp 0 (playerId s) (token s))] g;
               g = (if state s = kInRoom \<and> roomId s \<in> rooms g
                    then runInLoop (roomId s) (TRebind (playerId s) (Some c)) g else g)
           in enqueue (SetOnline (account s)) g)"

text \<open>The cancellation of a player's match timer in \<open>tryMatch\<close>.\<close>

definition cancelMatchTimer :: "nat \<Rightarrow> GameServer \<Rightarrow> GameServer" where
  "cancelMatchTimer p g = (case matchTimer g p of
       None \<Rightarrow> g
     | Some tid \<Rightarrow> g\<lparr> wheel := cancel (wheel g) tid, matchTimer := (matchTimer g)(p := None) \<rparr>)"

definition enter :: "nat \<Rightarrow> nat \<Rightarrow> GameServer \<Rightarrow> GameServer" where
  "enter rid p g = (case session g p of
       None \<Rightarrow> g
     | Some s \<Rightarrow> put_session (s\<lparr> state := kInRoom, roomId := rid \<rparr>) p g)"

text \<open>\<open>None\<close>: \<open>popPair\<close> would read the front of an empty deque.\<close>

definition tryMatch :: "GameServer \<Rightarrow> GameServer option" where
  "tryMatch g = (case popPair (matchQueue g) of
       None \<Rightarrow> None
     | Some (None, q) \<Rightarrow> Some (g\<lparr> matchQueue := q \<rparr>)
     | Some (Some (a, b), q) \<Rightarrow>
         let g = g\<lparr> matchQueue := q \<rparr> in
         (case (session g a, session g b) of
            (Some sa, Some sb) \<Rightarrow>
              let g = cancelMatchTimer b (cancelMatchTimer a g);
                  rid = nextRoomId g;
                  (l, pool) = getNextLoop (gamePool g);
                  room = newRoom rid [(playerId sa, conn sa), (playerId sb, conn sb)] True;
                  g = g\<lparr> nextRoomId := rid + 1, gamePool := pool, rooms := insert rid (rooms g),
                         roomHeap := (roomHeap g)(rid \<mapsto> (l, room)) \<rparr>;
                  g = enter rid b (enter rid a g)
              in Some (runInLoop rid TStart g)
          | _ \<Rightarrow> Some g))"

definition onMatch :: "nat \<Rightarrow> GameServer \<Rightarrow> GameServer option" where
  "onMatch c g = (case sessionOf g c of
       None \<Rightarrow> Some g
     | Some s \<Rightarrow>
         if state s \<noteq> kLobby then Some g
         else (case push (matchQueue g) (playerId s) of
            (False, q) \<Rightarrow> Some (g\<lparr> matchQueue := q \<rparr>)
          | (True, q) \<Rightarrow>
              let p = playerId s;
                  g = put_session (s\<lparr> state := kMatching \<rparr>) p (g\<lparr> matchQueue := q \<rparr>);
                  (tid, w) = TimerWheel.add (wheel g) kMatchTimeoutMs (MatchTimeout p)
              in tryMatch (g\<lparr> wheel := w, matchTimer := (matchTimer g)(p \<mapsto> tid) \<rparr>)))"

definition matchTimedOut :: "nat \<Rightarrow> GameServer \<Rightarrow> GameServer" where
  "matchTimedOut p g =
     (let g = g\<lparr> matchTimer := (matchTimer g)(p := None) \<rparr> in
      if \<not> contains (matchQueue g) p then g
      else
        let g = g\<lparr> matchQueue := remove (matchQueue g) p \<rparr> in
        (case session g p of
           None \<Rightarrow> g
         | Some s \<Rightarrow>
             let g = put_session (s\<lparr> state := kLobby \<rparr>) p g in
             (case conn s of
                None \<Rightarrow> g
              | Some c \<Rightarrow> emit [ToConn c kEnterRoom (MEnterRoom \<lparr> er_room_id = 0, er_player_ids = [] \<rparr>)] g)))"

definition onInput :: "nat \<Rightarrow> PlayerInput \<Rightarrow> GameServer \<Rightarrow> GameServer" where
  "onInput c inp g = (case sessionOf g c of
       None \<Rightarrow> g
     | Some s \<Rightarrow>
         if state s \<noteq> kInRoom \<or> roomId s \<notin> rooms g then g
         else runInLoop (roomId s) (TInput (playerId s) inp) g)"

definition onHeartbeat :: "nat \<Rightarrow> nat \<Rightarrow> int \<Rightarrow> GameServer \<Rightarrow> GameServer" where
  "onHeartbeat now c hb g =
     emit [ToConn c kHeartbeat (MHeartbeat hb)]
       (case sessionOf g c of
          None \<Rightarrow> g
        | Some s \<Rightarrow> put_session (s\<lparr> lastHeartbeatMs := now \<rparr>) (playerId s) g)"

definition onDisconnect :: "nat \<Rightarrow> GameServer \<Rightarrow> GameServer" where
  "onDisconnect c g = (case connToPlayer g c of
       None \<Rightarrow> g
     | Some p \<Rightarrow>
         let g = g\<lparr> connToPlayer := (connToPlayer g)(c := None) \<rparr> in
         (case session g p of
            None \<Rightarrow> g
          | Some s \<Rightarrow>
              let s = s\<lparr> conn := None \<rparr>;
                  q = (if state s = kMatching then remove (matchQueue g) p else matchQueue g);
                  s = (if state s = kMatching then s\<lparr> state := kLobby \<rparr> else s);
                  g = put_session s p (g\<lparr> matchQueue := q \<rparr>);
                  g = (if state s = kInRoom \<and> roomId s \<in> rooms g then runInLoop (roomId s) (TDrop p) g else g);
                  (tid, w) = TimerWheel.add (wheel g) kSessionKeepMs (ExpireSession p);
                  g = g\<lparr> wheel := w, sessions := umap_map (\<lambda>i s. if i = p then s\<lparr> expireTimerId := tid \<rparr> else s) (sessions g) \<rparr>
              in enqueue (DelOnline (account s)) g))"

fun opponent :: "nat \<Rightarrow> nat \<Rightarrow> (nat \<times> Session) list \<Rightarrow> nat \<Rightarrow> nat" where
  "opponent rid p [] w = w"
| "opponent rid p ((opid, os) # ss) w =
     opponent rid p ss (if roomId os = rid \<and> opid \<noteq> p then opid else w)"

definition expireSession :: "nat \<Rightarrow> GameServer \<Rightarrow> GameServer" where
  "expireSession p g = (case session g p of
       None \<Rightarrow> g
     | Some s \<Rightarrow>
         if conn s \<noteq> None then g
         else
           let g = (if state s = kInRoom \<and> roomId s \<in> rooms g
                    then runInLoop (roomId s) (TForceEnd (opponent (roomId s) p (sessions g) 0)) g
                    else g)
           in g\<lparr> sessions := AList.delete p (sessions g) \<rparr>)"

definition sweepHeartbeats :: "nat \<Rightarrow> GameServer \<Rightarrow> GameServer" where
  "sweepHeartbeats now g =
     emit (concat (map (\<lambda>(_, s). case conn s of
         None \<Rightarrow> []
       | Some c \<Rightarrow> if kHeartbeatTimeoutMs < u64_minus now (lastHeartbeatMs s) then [ShutdownConn c] else [])
       (sessions g))) g"

definition scheduleSweep :: "GameServer \<Rightarrow> GameServer" where
  "scheduleSweep g = g\<lparr> wheel := snd (TimerWheel.add (wheel g) kSweepIntervalMs Sweep) \<rparr>"

fun fire :: "nat \<Rightarrow> timer_cb \<Rightarrow> GameServer \<Rightarrow> GameServer" where
  "fire now (MatchTimeout p) g = matchTimedOut p g"
| "fire now (ExpireSession p) g = expireSession p g"
| "fire now Sweep g = scheduleSweep (sweepHeartbeats now g)"

text \<open>The interpreter of callbacks the wheel is run with, and the 100 ms driver of the wheel.\<close>

definition run_cb :: "nat \<Rightarrow> timer_cb \<Rightarrow> timer_cb TimerWheel \<times> GameServer \<Rightarrow> timer_cb TimerWheel \<times> GameServer" where
  "run_cb now cb s = (case s of (w, g) \<Rightarrow> let g = fire now cb (g\<lparr> wheel := w \<rparr>) in (wheel g, g))"

definition advanceWheel :: "nat \<Rightarrow> GameServer \<Rightarrow> GameServer" where
  "advanceWheel now g =
     (case advance (run_cb now) 100 (wheel g, g) of (fired, w, g) \<Rightarrow> g\<lparr> wheel := w \<rparr>)"

text \<open>The leaderboard handler runs on the IO thread and touches no lobby state. \<^verbatim>\<open>top_n\<close> is an unsigned
  32-bit field; the cast to \<^verbatim>\<open>int\<close> is modulo \<open>2^32\<close>.\<close>

definition onLeaderboard :: "nat \<Rightarrow> nat \<Rightarrow> bool \<Rightarrow> lobby_effect list" where
  "onLeaderboard c topN writer =
     (let n = int (u32 topN);
          n = (if 2 ^ 31 \<le> n then n - 2 ^ 32 else n);
          n = (if n \<le> 0 \<or> 100 < n then 10 else n)
      in if \<not> writer then [ToConn c kLeaderboardResp (MLeaderboardResp [])] else [Enqueue (TopN c n)])"

subsection \<open>Storage tasks\<close>

datatype store_op =
    RedisSet string string | RedisDel string | MysqlRecordResult string string
  | RedisZincrby string string int

text \<open>What the storage thread does with a task, given whether the stores are ready and what Redis
  answers to the range query (a score is passed through unchanged). The result is the store
  operations in order and the frame sent.\<close>

fun storage_exec :: "string \<Rightarrow> bool \<Rightarrow> (string \<Rightarrow> int \<Rightarrow> (string \<times> nat) list) \<Rightarrow> storage_task \<Rightarrow>
    store_op list \<times> lobby_effect list" where
  "storage_exec key ready ztopN ConnectStores = ([], [])"
| "storage_exec key ready ztopN (SetOnline acc) =
     (if ready then [RedisSet (''online:'' @ acc) ''1''] else [], [])"
| "storage_exec key ready ztopN (DelOnline acc) =
     (if ready then [RedisDel (''online:'' @ acc)] else [], [])"
| "storage_exec key ready ztopN (RecordResult w l) =
     (if ready then [MysqlRecordResult w l, RedisZincrby key w 1] else [], [])"
| "storage_exec key ready ztopN (TopN c n) =
     ([], [ToConn c kLeaderboardResp (MLeaderboardResp (if ready then ztopN key n else []))])"

text \<open>The connection task itself: the steps of \<open>start\<close>'s first storage task, each tried only when the
  ones before it succeeded.\<close>

definition connectStores :: "bool \<Rightarrow> bool \<Rightarrow> bool \<Rightarrow> bool \<Rightarrow> bool" where
  "connectStores redisConnect ping mysqlConnect ensureSchema \<longleftrightarrow> redisConnect \<and> ping \<and> mysqlConnect \<and> ensureSchema"

subsection \<open>Start, requests and steps\<close>

text \<open>The server after \<open>start\<close> and its task on the lobby loop. The lobby's loop is number 0, the
  game loops are \<open>1..n\<close>.\<close>

definition startServer :: "(float32 \<Rightarrow> float32 \<Rightarrow> float32) \<Rightarrow> nat \<Rightarrow> bool \<Rightarrow> GameServer" where
  "startServer hyp gameThreads enabled =
     scheduleSweep
       \<lparr> hypotf = hyp, gamePool = pool_start Suc gameThreads (newPool 0), writerOn = enabled,
         connToPlayer = Map.empty, sessions = [], rooms = {}, matchQueue = newMatchQueue,
         matchTimer = Map.empty, wheel = newTimerWheel, nextPlayerId = 1, nextRoomId = 1,
         roomHeap = Map.empty, loopQ = (\<lambda>_. []), roomEnds = [],
         out = (if enabled then [Enqueue ConnectStores] else []) \<rparr>"

datatype lobby_req =
    ReqLogin nat "nat \<times> nat" string | ReqReconnect nat nat string | ReqMatch nat
  | ReqInput nat PlayerInput | ReqHeartbeat nat int | Disconnected nat

text \<open>The tasks the IO threads post to the lobby.\<close>

fun lobby_exec :: "nat \<Rightarrow> lobby_req \<Rightarrow> GameServer \<Rightarrow> GameServer option" where
  "lobby_exec now (ReqLogin c rng acc) g = Some (onLogin now rng c acc g)"
| "lobby_exec now (ReqReconnect c p tok) g = Some (onReconnect now c p tok g)"
| "lobby_exec now (ReqMatch c) g = onMatch c g"
| "lobby_exec now (ReqInput c inp) g = Some (onInput c inp g)"
| "lobby_exec now (ReqHeartbeat c hb) g = Some (onHeartbeat now c hb g)"
| "lobby_exec now (Disconnected c) g = Some (onDisconnect c g)"

text \<open>
  One step of the server: the lobby runs a task an IO thread posted, drives the wheel, or runs an
  end-of-battle call; a loop runs the next room task of its queue, or a room's ticker fires.
\<close>

inductive gs_step :: "GameServer \<Rightarrow> GameServer \<Rightarrow> bool" where
  gs_request: "lobby_exec now req g = Some g' \<Longrightarrow> gs_step g g'"
| gs_wheel: "gs_step g (advanceWheel now g)"
| gs_room_end: "roomEnds g = (rid, w) # q \<Longrightarrow> gs_step g (onRoomEnd rid w (g\<lparr> roomEnds := q \<rparr>))"
| gs_room_task: "loopQ g l = (rid, t) # q \<Longrightarrow> gs_step g (runTask l rid t (g\<lparr> loopQ := (loopQ g)(l := q) \<rparr>))"
| gs_room_tick: "roomHeap g rid = Some (l, r) \<Longrightarrow> ticker r \<Longrightarrow> gs_step g (runTask l rid TTick g)"

end
