(* ===== verification/LobbyInv.thy ===== *)
theory LobbyInv
  imports GameServer
begin

text \<open>
  The invariant of the game server over all its steps, and what follows from it.
\<close>

subsection \<open>The invariant\<close>

definition good_session :: "nat \<Rightarrow> nat \<Rightarrow> Session \<Rightarrow> bool" where
  "good_session n p s \<longleftrightarrow> playerId s = p \<and> 0 < p \<and> p < n \<and> (state s = kInRoom \<longleftrightarrow> roomId s \<noteq> 0) \<and>
     (state s = kMatching \<longrightarrow> conn s \<noteq> None)"

definition sess_ok :: "GameServer \<Rightarrow> bool" where
  "sess_ok g \<longleftrightarrow> umap_ok (sessions g) \<and> 0 < nextPlayerId g \<and>
     (\<forall>p s. session g p = Some s \<longrightarrow> good_session (nextPlayerId g) p s)"

definition conn_ok :: "GameServer \<Rightarrow> bool" where
  "conn_ok g \<longleftrightarrow> (\<forall>c p. connToPlayer g c = Some p \<longrightarrow> (\<exists>s. session g p = Some s \<and> conn s = Some c))"

definition match_ok :: "GameServer \<Rightarrow> bool" where
  "match_ok g \<longleftrightarrow> mq_inv (matchQueue g) \<and>
     (\<forall>p. p \<in> waiting (matchQueue g) \<longleftrightarrow> (\<exists>s. session g p = Some s \<and> state s = kMatching))"

text \<open>Player \<open>p\<close> has a seat in room \<open>rid\<close>.\<close>

definition seated :: "GameServer \<Rightarrow> nat \<Rightarrow> nat \<Rightarrow> bool" where
  "seated g rid p \<longleftrightarrow> (\<exists>l r. roomHeap g rid = Some (l, r) \<and> map_of (conns r) p \<noteq> None)"

definition room_ok :: "GameServer \<Rightarrow> bool" where
  "room_ok g \<longleftrightarrow> 0 < nextRoomId g \<and> (\<forall>rid. roomHeap g rid \<noteq> None \<longrightarrow> 0 < rid \<and> rid < nextRoomId g) \<and>
     (\<forall>rid \<in> rooms g. roomHeap g rid \<noteq> None) \<and>
     (\<forall>p s. session g p = Some s \<longrightarrow> roomId s \<noteq> 0 \<longrightarrow> roomId s \<in> rooms g \<and> seated g (roomId s) p)"

text \<open>A room is in the lobby's table until its one end report is handled; \<open>Y\<close> holds the rooms whose
  report is being delivered.\<close>

definition good_room :: "nat set \<Rightarrow> nat set \<Rightarrow> nat set \<Rightarrow> nat \<Rightarrow> Room \<Rightarrow> bool" where
  "good_room R E Y rid r \<longleftrightarrow> onEnd_set r \<and> Room.roomId r = rid \<and> card (dom (map_of (conns r))) = 2 \<and>
     (rid \<in> R \<longleftrightarrow> \<not> ended r \<or> rid \<in> E \<union> Y) \<and> (rid \<in> E \<union> Y \<longrightarrow> ended r)"

definition ends_ok :: "nat set \<Rightarrow> GameServer \<Rightarrow> bool" where
  "ends_ok Y g \<longleftrightarrow> distinct (map fst (roomEnds g)) \<and> fst ` set (roomEnds g) \<inter> Y = {} \<and>
     (\<forall>rid \<in> fst ` set (roomEnds g) \<union> Y. roomHeap g rid \<noteq> None) \<and>
     (\<forall>rid l r. roomHeap g rid = Some (l, r) \<longrightarrow> good_room (rooms g) (fst ` set (roomEnds g)) Y rid r)"

definition queues_ok :: "GameServer \<Rightarrow> bool" where
  "queues_ok g \<longleftrightarrow> (\<forall>l rid t. (rid, t) \<in> set (loopQ g l) \<longrightarrow> t \<noteq> TStop \<and> (\<exists>r. roomHeap g rid = Some (l, r)))"

text \<open>A timer is armed when it is scheduled within 300 ticks (30 s); \<open>x\<close> is the callback that is
  running, whose own timer has just been taken off the wheel.\<close>

definition armed :: "timer_cb option \<Rightarrow> timer_cb TimerWheel \<Rightarrow> nat \<Rightarrow> timer_cb \<Rightarrow> bool" where
  "armed x w i cb \<longleftrightarrow> x = Some cb \<or> (\<exists>t. scheduled w i = Some (t, cb) \<and> t \<le> nowTick w + 300)"

definition expire_ok :: "timer_cb option \<Rightarrow> GameServer \<Rightarrow> bool" where
  "expire_ok x g \<longleftrightarrow>
     (\<forall>p s. session g p = Some s \<longrightarrow>
        (if conn s = None then armed x (wheel g) (expireTimerId s) (ExpireSession p) else expireTimerId s = 0)) \<and>
     (\<forall>i t p. scheduled (wheel g) i = Some (t, ExpireSession p) \<longrightarrow>
        x \<noteq> Some (ExpireSession p) \<and> (\<exists>s. session g p = Some s \<and> conn s = None \<and> expireTimerId s = i))"

definition timeout_ok :: "timer_cb option \<Rightarrow> GameServer \<Rightarrow> bool" where
  "timeout_ok x g \<longleftrightarrow>
     (\<forall>p i. matchTimer g p = Some i \<longrightarrow> armed x (wheel g) i (MatchTimeout p)) \<and>
     (\<forall>p \<in> waiting (matchQueue g). matchTimer g p \<noteq> None) \<and>
     (\<exists>i. armed x (wheel g) i Sweep)"

definition lobby_inv :: "nat list \<Rightarrow> timer_cb option \<Rightarrow> nat set \<Rightarrow> GameServer \<Rightarrow> bool" where
  "lobby_inv P x Y g \<longleftrightarrow> wheel_inv 1 P (wheel g) \<and> sess_ok g \<and> conn_ok g \<and> match_ok g \<and> room_ok g \<and>
     ends_ok Y g \<and> queues_ok g \<and> expire_ok x g \<and> timeout_ok x g"

lemmas lobby_parts = sess_ok_def conn_ok_def match_ok_def room_ok_def ends_ok_def queues_ok_def
  expire_ok_def timeout_ok_def seated_def

lemma lobby_invI:
  "wheel_inv 1 P (wheel g) \<Longrightarrow> sess_ok g \<Longrightarrow> conn_ok g \<Longrightarrow> match_ok g \<Longrightarrow> room_ok g \<Longrightarrow>
   ends_ok Y g \<Longrightarrow> queues_ok g \<Longrightarrow> expire_ok x g \<Longrightarrow> timeout_ok x g \<Longrightarrow> lobby_inv P x Y g"
  by (simp add: lobby_inv_def)

lemma lobby_invD:
  assumes "lobby_inv P x Y g"
  shows "wheel_inv 1 P (wheel g)" "sess_ok g" "conn_ok g" "match_ok g" "room_ok g"
    "ends_ok Y g" "queues_ok g" "expire_ok x g" "timeout_ok x g"
  using assms by (simp_all add: lobby_inv_def)

lemma sess_okD:
  assumes "sess_ok g" "session g p = Some s"
  shows "playerId s = p" "0 < p" "p < nextPlayerId g" "state s = kInRoom \<longleftrightarrow> roomId s \<noteq> 0"
    "state s = kMatching \<Longrightarrow> conn s \<noteq> None"
  using assms by (auto simp: sess_ok_def good_session_def)

lemma ends_okD:
  assumes "ends_ok Y g" "roomHeap g rid = Some (l, r)"
  shows "good_room (rooms g) (fst ` set (roomEnds g)) Y rid r"
  using assms by (auto simp: ends_ok_def)

text \<open>Each part of the invariant reads only some fields.\<close>

lemma part_frames [simp]:
  "sess_ok (g\<lparr> connToPlayer := u1 \<rparr>) = sess_ok g" "match_ok (g\<lparr> connToPlayer := u1 \<rparr>) = match_ok g" "room_ok (g\<lparr> connToPlayer := u1 \<rparr>) = room_ok g"
    "ends_ok Y (g\<lparr> connToPlayer := u1 \<rparr>) = ends_ok Y g" "queues_ok (g\<lparr> connToPlayer := u1 \<rparr>) = queues_ok g" "expire_ok x (g\<lparr> connToPlayer := u1 \<rparr>) = expire_ok x g"
    "timeout_ok x (g\<lparr> connToPlayer := u1 \<rparr>) = timeout_ok x g"
  "sess_ok (g\<lparr> wheel := u2 \<rparr>) = sess_ok g" "conn_ok (g\<lparr> wheel := u2 \<rparr>) = conn_ok g" "match_ok (g\<lparr> wheel := u2 \<rparr>) = match_ok g"
    "room_ok (g\<lparr> wheel := u2 \<rparr>) = room_ok g" "ends_ok Y (g\<lparr> wheel := u2 \<rparr>) = ends_ok Y g" "queues_ok (g\<lparr> wheel := u2 \<rparr>) = queues_ok g"
  "sess_ok (g\<lparr> matchQueue := u3 \<rparr>) = sess_ok g" "conn_ok (g\<lparr> matchQueue := u3 \<rparr>) = conn_ok g" "room_ok (g\<lparr> matchQueue := u3 \<rparr>) = room_ok g"
    "ends_ok Y (g\<lparr> matchQueue := u3 \<rparr>) = ends_ok Y g" "queues_ok (g\<lparr> matchQueue := u3 \<rparr>) = queues_ok g" "expire_ok x (g\<lparr> matchQueue := u3 \<rparr>) = expire_ok x g"
  "sess_ok (g\<lparr> matchTimer := u4 \<rparr>) = sess_ok g" "conn_ok (g\<lparr> matchTimer := u4 \<rparr>) = conn_ok g" "match_ok (g\<lparr> matchTimer := u4 \<rparr>) = match_ok g"
    "room_ok (g\<lparr> matchTimer := u4 \<rparr>) = room_ok g" "ends_ok Y (g\<lparr> matchTimer := u4 \<rparr>) = ends_ok Y g" "queues_ok (g\<lparr> matchTimer := u4 \<rparr>) = queues_ok g"
    "expire_ok x (g\<lparr> matchTimer := u4 \<rparr>) = expire_ok x g"
  "conn_ok (g\<lparr> nextPlayerId := u5 \<rparr>) = conn_ok g" "match_ok (g\<lparr> nextPlayerId := u5 \<rparr>) = match_ok g" "room_ok (g\<lparr> nextPlayerId := u5 \<rparr>) = room_ok g"
    "ends_ok Y (g\<lparr> nextPlayerId := u5 \<rparr>) = ends_ok Y g" "queues_ok (g\<lparr> nextPlayerId := u5 \<rparr>) = queues_ok g" "expire_ok x (g\<lparr> nextPlayerId := u5 \<rparr>) = expire_ok x g"
    "timeout_ok x (g\<lparr> nextPlayerId := u5 \<rparr>) = timeout_ok x g"
  "sess_ok (g\<lparr> gamePool := u6 \<rparr>) = sess_ok g" "conn_ok (g\<lparr> gamePool := u6 \<rparr>) = conn_ok g" "match_ok (g\<lparr> gamePool := u6 \<rparr>) = match_ok g"
    "room_ok (g\<lparr> gamePool := u6 \<rparr>) = room_ok g" "ends_ok Y (g\<lparr> gamePool := u6 \<rparr>) = ends_ok Y g" "queues_ok (g\<lparr> gamePool := u6 \<rparr>) = queues_ok g"
    "expire_ok x (g\<lparr> gamePool := u6 \<rparr>) = expire_ok x g" "timeout_ok x (g\<lparr> gamePool := u6 \<rparr>) = timeout_ok x g"
  "ends_ok Y (g\<lparr> sessions := u7 \<rparr>) = ends_ok Y g" "queues_ok (g\<lparr> sessions := u7 \<rparr>) = queues_ok g" "timeout_ok x (g\<lparr> sessions := u7 \<rparr>) = timeout_ok x g"
    
  by (simp_all add: lobby_parts)

lemma loopQ_frames [simp]:
  "sess_ok (g\<lparr> loopQ := u \<rparr>) = sess_ok g" "conn_ok (g\<lparr> loopQ := u \<rparr>) = conn_ok g" "match_ok (g\<lparr> loopQ := u \<rparr>) = match_ok g"
  "room_ok (g\<lparr> loopQ := u \<rparr>) = room_ok g" "ends_ok Y (g\<lparr> loopQ := u \<rparr>) = ends_ok Y g"
  "expire_ok x (g\<lparr> loopQ := u \<rparr>) = expire_ok x g" "timeout_ok x (g\<lparr> loopQ := u \<rparr>) = timeout_ok x g"
  by (simp_all add: lobby_parts)

lemma put_session_commute [simp]:
  "put_session s p (g\<lparr> wheel := w \<rparr>) = put_session s p g\<lparr> wheel := w \<rparr>"
  "put_session s p (g\<lparr> matchQueue := q \<rparr>) = put_session s p g\<lparr> matchQueue := q \<rparr>"
  "put_session s p (g\<lparr> matchTimer := m \<rparr>) = put_session s p g\<lparr> matchTimer := m \<rparr>"
  "put_session s p (g\<lparr> connToPlayer := m \<rparr>) = put_session s p g\<lparr> connToPlayer := m \<rparr>"
  "put_session s p (g\<lparr> nextPlayerId := n \<rparr>) = put_session s p g\<lparr> nextPlayerId := n \<rparr>"
  by (simp_all add: put_session_def)

text \<open>The log of effects is irrelevant to the invariant.\<close>

lemma emit_inv [simp]: "lobby_inv P x Y (emit es g) = lobby_inv P x Y g"
  by (simp add: emit_def lobby_inv_def lobby_parts)

lemma emit_fields [simp]:
  "sessions (emit es g) = sessions g" "rooms (emit es g) = rooms g" "wheel (emit es g) = wheel g"
  "connToPlayer (emit es g) = connToPlayer g" "matchQueue (emit es g) = matchQueue g"
  "matchTimer (emit es g) = matchTimer g" "roomHeap (emit es g) = roomHeap g" "loopQ (emit es g) = loopQ g"
  "roomEnds (emit es g) = roomEnds g" "gamePool (emit es g) = gamePool g" "out (emit es g) = out g @ es"
  "nextPlayerId (emit es g) = nextPlayerId g" "nextRoomId (emit es g) = nextRoomId g" "hypotf (emit es g) = hypotf g"
  "writerOn (emit es g) = writerOn g"
  by (simp_all add: emit_def)

lemma enqueue_inv [simp]: "lobby_inv P x Y (enqueue t g) = lobby_inv P x Y g"
  by (simp add: enqueue_def)

lemma enqueue_fields [simp]:
  "sessions (enqueue t g) = sessions g" "rooms (enqueue t g) = rooms g" "wheel (enqueue t g) = wheel g"
  "connToPlayer (enqueue t g) = connToPlayer g" "matchQueue (enqueue t g) = matchQueue g"
  "matchTimer (enqueue t g) = matchTimer g" "roomHeap (enqueue t g) = roomHeap g" "loopQ (enqueue t g) = loopQ g"
  "roomEnds (enqueue t g) = roomEnds g" "gamePool (enqueue t g) = gamePool g"
  "nextPlayerId (enqueue t g) = nextPlayerId g" "nextRoomId (enqueue t g) = nextRoomId g"
  by (simp_all add: enqueue_def)

subsection \<open>Room tasks\<close>

lemma exec_frame:
  "room_exec h t r = (r', es) \<Longrightarrow>
   onEnd_set r' = onEnd_set r \<and> Room.roomId r' = Room.roomId r \<and> (map_of (conns r') p = None) = (map_of (conns r) p = None)"
  by (cases t)
    (auto simp: start_def onTick_def Room.onInput_def rebind_def dropConn_def forceEnd_def stop_def tickerReset_def
      endBattle_def Let_def map_of_update split: if_splits prod.splits)

text \<open>Effects other than the end callback only write frames and queue the ticker reset.\<close>

lemma callbacks_frame:
  assumes "\<forall>e \<in> set es. \<not> is_end e"
  shows "\<exists>os k. fold (room_callback l rid) es g =
    emit os (g\<lparr> loopQ := (loopQ g)(l := loopQ g l @ replicate k (rid, TTickerReset)) \<rparr>)"
  using assms
proof (induction es arbitrary: g)
  case Nil
  have "fold (room_callback l rid) [] g = emit [] (g\<lparr> loopQ := (loopQ g)(l := loopQ g l @ replicate 0 (rid, TTickerReset)) \<rparr>)"
    by (simp add: emit_def)
  then show ?case
    by blast
next
  case (Cons e es)
  show ?case
  proof (cases e)
    case (SendFrame c mid m)
    obtain os k where "fold (room_callback l rid) es (emit [ToConn c mid m] g) =
        emit os (emit [ToConn c mid m] g\<lparr> loopQ := (loopQ g)(l := loopQ g l @ replicate k (rid, TTickerReset)) \<rparr>)"
      using Cons by (metis emit_fields(8) list.set_intros(2))
    then have "fold (room_callback l rid) (e # es) g =
        emit (ToConn c mid m # os) (g\<lparr> loopQ := (loopQ g)(l := loopQ g l @ replicate k (rid, TTickerReset)) \<rparr>)"
      by (simp add: SendFrame emit_def)
    then show ?thesis
      by blast
  next
    case QueueTickerReset
    let ?g = "g\<lparr> loopQ := (loopQ g)(l := loopQ g l @ [(rid, TTickerReset)]) \<rparr>"
    obtain os k where "fold (room_callback l rid) es ?g =
        emit os (?g\<lparr> loopQ := (loopQ ?g)(l := loopQ ?g l @ replicate k (rid, TTickerReset)) \<rparr>)"
      using Cons by (metis list.set_intros(2))
    then have "fold (room_callback l rid) (e # es) g =
        emit os (g\<lparr> loopQ := (loopQ g)(l := loopQ g l @ replicate (Suc k) (rid, TTickerReset)) \<rparr>)"
      by (simp add: QueueTickerReset)
    then show ?thesis
      by blast
  next
    case (OnEnd r w)
    then show ?thesis
      using Cons.prems by (simp add: is_end_def)
  qed
qed

lemma release_fields [simp]:
  "playerId (release rid s) = playerId s" "conn (release rid s) = conn s" "expireTimerId (release rid s) = expireTimerId s"
  "account (release rid s) = account s" "token (release rid s) = token s"
  "lastHeartbeatMs (release rid s) = lastHeartbeatMs s"
  "roomId (release rid s) = (if roomId s = rid then 0 else roomId s)"
  "state (release rid s) = (if roomId s = rid then kLobby else state s)"
  by (simp_all add: release_def)

lemma onRoomEnd_cases:
  obtains es where "onRoomEnd rid w g = emit es (g\<lparr> rooms := rooms g - {rid}, sessions := umap_map (\<lambda>_. release rid) (sessions g) \<rparr>)"
    "set es \<subseteq> range Enqueue"
proof -
  let ?g = "g\<lparr> rooms := rooms g - {rid}, sessions := umap_map (\<lambda>_. release rid) (sessions g) \<rparr>"
  have e: "emit [] ?g = ?g" for t
    by (simp add: emit_def)
  obtain wa la where "settle rid w (sessions g) ([], []) = (wa, la)"
    by fastforce
  then have "onRoomEnd rid w g = emit (if wa \<noteq> [] \<and> la \<noteq> [] \<and> writerOn g then [Enqueue (RecordResult wa la)] else []) ?g"
    by (simp add: onRoomEnd_def enqueue_def e Let_def)
  then show ?thesis
    by (rule that) auto
qed

lemma onRoomEnd_inv:
  assumes inv: "lobby_inv P x {rid} g"
  shows "lobby_inv P x {} (onRoomEnd rid w g)"
proof -
  let ?g = "g\<lparr> rooms := rooms g - {rid}, sessions := umap_map (\<lambda>_. release rid) (sessions g) \<rparr>"
  note parts = lobby_invD [OF inv]
  have heap: "roomHeap g rid \<noteq> None"
    using parts(6) by (simp add: ends_ok_def)
  then have rid: "rid \<noteq> 0"
    using parts(5) by (auto simp: room_ok_def)
  have at: "session ?g p = map_option (release rid) (session g p)" for p
    by (simp add: map_of_umap_map)
  have idle: "roomId s \<noteq> rid" if "session g p = Some s" "state s = kMatching" for p s
    using sess_okD(4) [OF parts(2) that(1)] that(2) rid by auto
  have "good_session n p (release rid s)" if "good_session n p s" for n p s
    using that rid by (auto simp: good_session_def)
  then have "sess_ok ?g"
    using parts(2) unfolding sess_ok_def by (auto simp: map_of_umap_map)
  moreover have "conn_ok ?g"
    using parts(3) unfolding conn_ok_def by (fastforce simp: map_of_umap_map)
  moreover have "match_ok ?g"
    using parts(4) idle unfolding match_ok_def by (fastforce simp: map_of_umap_map split: if_splits)
  moreover have "room_ok ?g"
    using parts(5) rid unfolding room_ok_def seated_def by (auto simp: map_of_umap_map split: if_splits)
  moreover have "good_room (R - {rid}) E {} i r" if "good_room R E {rid} i r" "E \<inter> {rid} = {}" for R E i r
    using that by (auto simp: good_room_def)
  then have "ends_ok {} ?g"
    using parts(6) by (simp add: ends_ok_def)
  moreover have "expire_ok x ?g"
    using parts(8) unfolding expire_ok_def by (fastforce simp: map_of_umap_map)
  ultimately have "lobby_inv P x {} ?g"
    using parts by (intro lobby_invI) (simp_all add: queues_ok_def timeout_ok_def)
  then show ?thesis
    using onRoomEnd_cases [of rid w g] by (metis emit_inv)
qed

text \<open>Rewriting the state of a room and queueing tasks for it.\<close>

lemma heap_inv:
  assumes inv: "lobby_inv P x {} g" and heap: "roomHeap g rid = Some (l, r)"
    and frame: "onEnd_set r' = onEnd_set r" "Room.roomId r' = Room.roomId r"
      "\<And>p. (map_of (conns r') p = None) = (map_of (conns r) p = None)"
    and ended: "ended r \<Longrightarrow> ended r'" and Y: "Y = (if ended r' \<and> \<not> ended r then {rid} else {})"
    and ts: "\<forall>(i, t) \<in> set ts. i = rid \<and> t \<noteq> TStop"
  shows "lobby_inv P x Y (g\<lparr> roomHeap := (roomHeap g)(rid \<mapsto> (l, r')), loopQ := (loopQ g)(l := loopQ g l @ ts) \<rparr>)"
    (is "lobby_inv P x Y ?g")
proof -
  note parts = lobby_invD [OF inv]
  have "seated ?g i p = seated g i p" for i p
    using heap frame(3) by (cases "i = rid") (simp_all add: seated_def del: not_None_eq)
  then have "room_ok ?g"
    using parts(5) heap by (auto simp: room_ok_def)
  moreover have other: "good_room R E Y i q" if "good_room R E {} i q" "i \<noteq> rid" for R E i q
    using that by (auto simp: good_room_def Y)
  have "dom (map_of (conns r')) = dom (map_of (conns r))"
    using frame(3) by (auto simp: dom_def)
  then have own: "good_room (rooms g) (fst ` set (roomEnds g)) Y rid r' \<and> fst ` set (roomEnds g) \<inter> Y = {}"
    using ends_okD [OF parts(6) heap] frame(1,2) ended unfolding good_room_def Y by auto
  have "roomHeap ?g i \<noteq> None" if "i \<in> fst ` set (roomEnds g) \<union> Y" for i
    using parts(6) that by (auto simp: ends_ok_def Y split: if_splits)
  then have "ends_ok Y ?g"
    using parts(6) own other by (simp add: ends_ok_def)
  moreover have "queues_ok ?g"
    using parts(7) heap ts by (fastforce simp: queues_ok_def)
  ultimately show ?thesis
    using parts by (intro lobby_invI) (simp_all add: sess_ok_def conn_ok_def match_ok_def expire_ok_def timeout_ok_def)
qed

text \<open>Posting an end report to the lobby, and taking it up there.\<close>

lemma post_end_inv:
  assumes "lobby_inv P x {rid} g"
  shows "lobby_inv P x {} (g\<lparr> roomEnds := roomEnds g @ [(rid, w)] \<rparr>)"
proof -
  have "good_room R (insert i E) {} j r = good_room R E {i} j r" for R E i j r
    by (auto simp: good_room_def)
  then show ?thesis
    using assms by (simp add: lobby_inv_def lobby_parts)
qed

lemma take_end_inv:
  assumes "lobby_inv P x {} g" "roomEnds g = (rid, w) # q"
  shows "lobby_inv P x {rid} (g\<lparr> roomEnds := q \<rparr>)"
proof -
  have "good_room R (insert i E) {} j r = good_room R E {i} j r" for R E i j r
    by (auto simp: good_room_def)
  then show ?thesis
    using assms by (simp add: lobby_inv_def lobby_parts)
qed

text \<open>A task of a room leaves its end alone or, once, announces it last.\<close>

lemma task_outcome:
  assumes ex: "room_exec hyp t r = (r', es)" and t: "t \<noteq> TStop" and room: "onEnd_set r" "Room.roomId r = rid"
  obtains (quiet) "ended r' = ended r" "\<forall>e\<in>set es. \<not> is_end e"
    | (finish) es1 w where "\<not> ended r" "ended r'" "es = es1 @ [OnEnd rid w]" "\<forall>e\<in>set es1. \<not> is_end e"
proof (cases "ended r")
  case True
  then show thesis
    using exec_ended [OF True ex] quiet by simp
next
  case False
  note exec_open [OF False ex]
  then consider "\<not> ended r'" "\<forall>e\<in>set es. \<not> is_end e"
    | es' w where "ended r'" "es = es' @ QueueTickerReset # [OnEnd rid w]" "\<forall>e\<in>set es'. \<not> is_end e"
    using t room by auto
  then show thesis
  proof cases
    case 2
    then show thesis
      using False finish [of "es' @ [QueueTickerReset]" w] by (simp add: is_end_def)
  qed (use False quiet in simp)
qed

lemma runTask_inv:
  assumes inv: "lobby_inv P x {} g" and heap: "roomHeap g rid = Some (l, r)" and t: "t \<noteq> TStop"
  shows "lobby_inv P x {} (runTask l rid t g)"
proof -
  obtain r' es where ex: "room_exec (hypotf g) t r = (r', es)"
    by fastforce
  let ?g = "g\<lparr> roomHeap := (roomHeap g)(rid \<mapsto> (l, r')) \<rparr>"
  have run: "runTask l rid t g = fold (room_callback l rid) es ?g"
    by (simp add: runTask_def heap ex)
  note frame = exec_frame [OF ex]
  have room: "onEnd_set r" "Room.roomId r = rid"
    using ends_okD [OF lobby_invD(6) [OF inv] heap] by (simp_all add: good_room_def)
  have ended: "ended r \<Longrightarrow> ended r'"
    using exec_ended [OF _ ex] by simp
  from ex t room show ?thesis
  proof (cases rule: task_outcome)
    case quiet
    obtain os k where "runTask l rid t g = emit os (?g\<lparr> loopQ := (loopQ g)(l := loopQ g l @ replicate k (rid, TTickerReset)) \<rparr>)"
      using callbacks_frame [OF quiet(2), of l rid ?g] run by auto
    with heap_inv [OF inv heap, of r' "{}" "replicate k (rid, TTickerReset)"] frame ended quiet(1) show ?thesis
      by simp
  next
    case (finish es1 w)
    obtain os k where f: "fold (room_callback l rid) es1 ?g =
        emit os (?g\<lparr> loopQ := (loopQ g)(l := loopQ g l @ replicate k (rid, TTickerReset)) \<rparr>)"
      using callbacks_frame [OF finish(4), of l rid ?g] by auto
    define g2 where "g2 = emit os (?g\<lparr> loopQ := (loopQ g)(l := loopQ g l @ replicate k (rid, TTickerReset)) \<rparr>)"
    have inv2: "lobby_inv P x {rid} g2"
      using heap_inv [OF inv heap, of r' "{rid}" "replicate k (rid, TTickerReset)"] frame ended finish(1,2)
      by (simp add: g2_def)
    have "lobby_inv P x {} (g2\<lparr> roomEnds := roomEnds g2 @ [(rid, w)] \<rparr>)"
      using post_end_inv [OF inv2] .
    moreover have "runTask l rid t g = room_callback l rid (OnEnd rid w) g2"
      by (simp add: run finish(3) f g2_def)
    ultimately show ?thesis
      using onRoomEnd_inv [OF inv2, of w] by simp
  qed
qed

lemma runInLoop_inv:
  assumes inv: "lobby_inv P x {} g" and t: "t \<noteq> TStop"
  shows "lobby_inv P x {} (runInLoop rid t g)"
proof (cases "roomHeap g rid")
  case (Some lr)
  obtain l r where heap: "roomHeap g rid = Some (l, r)"
    using Some by (cases lr) auto
  have "lobby_inv P x {} (g\<lparr> loopQ := (loopQ g)(l := loopQ g l @ [(rid, t)]) \<rparr>)"
    using heap_inv [OF inv heap, of r "{}" "[(rid, t)]"] t heap by (simp add: fun_upd_idem)
  then show ?thesis
    using runTask_inv [OF inv heap t] heap by (auto simp: runInLoop_def)
qed (use inv in \<open>simp add: runInLoop_def\<close>)

subsection \<open>Timers\<close>

lemma scheduled_cancel: "scheduled (cancel w i) = (scheduled w)(i := None)"
  by (auto simp: scheduled_def cancel_def fun_eq_iff)

lemma scheduled_alive: "scheduled (w\<lparr>alive := alive w - {i}\<rparr>) = (scheduled w)(i := None)"
  by (auto simp: scheduled_def fun_eq_iff)

lemma add_sched:
  assumes "wheel_inv 1 P w" "d \<le> 30000" "TimerWheel.add w d c = (i, w')"
  shows "i = nextId w" "scheduled w' = (scheduled w)(i \<mapsto> (nowTick w + delay_ticks d, c))" "scheduled w i = None"
    "nowTick w' = nowTick w" "wheel_inv 1 P w'" "delay_ticks d \<le> 300" "i \<noteq> 0"
proof -
  have d: "d + 99 < 2 ^ 64" "min (delay_ticks d) 4095 = delay_ticks d"
    using assms(2) delay_ticks_in_range [of d] by simp_all
  show i: "i = nextId w"
    using assms(3) fst_add [of w d c] by simp
  show "scheduled w' = (scheduled w)(i \<mapsto> (nowTick w + delay_ticks d, c))"
    using add_scheduled [OF assms(1) d(1), of c] assms(3) d(2) i by simp
  show "scheduled w i = None"
    using unknown_unscheduled [OF assms(1)] by (simp add: i)
  show "nowTick w' = nowTick w" "wheel_inv 1 P w'"
    using add_frame(1) [of w d c] add_wheel_inv [OF assms(1) d(1), of c] assms(3) by simp_all
  show "delay_ticks d \<le> 300"
    using assms(2) by (simp add: delay_ticks_def)
  show "i \<noteq> 0"
    using assms(1) i by (auto simp: wheel_inv_def books_ok_def)
qed

lemma armed_cancel:
  "armed None w j cb \<Longrightarrow> scheduled w i = Some (t, cb') \<Longrightarrow> cb \<noteq> cb' \<Longrightarrow> armed None (cancel w i) j cb"
  by (auto simp: armed_def scheduled_cancel)

lemma armed_add:
  assumes "wheel_inv 1 P w" "d \<le> 30000" "TimerWheel.add w d c = (i, w')"
  shows "armed x w j cb \<Longrightarrow> armed x w' j cb" "armed x w' i c"
  using add_sched [OF assms] by (auto simp: armed_def)

lemma armed_take:
  "armed None w j cb \<Longrightarrow> scheduled w i = Some (t, c) \<Longrightarrow> armed (Some c) (w\<lparr>alive := alive w - {i}\<rparr>) j cb"
  by (auto simp: armed_def scheduled_alive)

lemma armed_other: "armed (Some c) w j cb \<Longrightarrow> cb \<noteq> c \<Longrightarrow> armed None w j cb"
  by (simp add: armed_def)

lemma armed_weaken: "armed None w j cb \<Longrightarrow> armed x w j cb"
  by (auto simp: armed_def)

subsection \<open>Session updates\<close>

lemma put_sess_ok:
  "sess_ok g \<Longrightarrow> good_session (nextPlayerId g) p s \<Longrightarrow> sess_ok (put_session s p g)"
  by (auto simp: sess_ok_def put_session_def map_of_update)

lemma put_conn_ok:
  "conn_ok g \<Longrightarrow> (\<And>c. connToPlayer g c = Some p \<Longrightarrow> conn s = Some c) \<Longrightarrow> conn_ok (put_session s p g)"
  by (auto simp: conn_ok_def put_session_def map_of_update)

lemma put_match_ok:
  "match_ok g \<Longrightarrow> p \<in> waiting (matchQueue g) \<longleftrightarrow> state s = kMatching \<Longrightarrow> match_ok (put_session s p g)"
  by (auto simp: match_ok_def put_session_def map_of_update)

lemma put_room_ok:
  "room_ok g \<Longrightarrow> (roomId s \<noteq> 0 \<Longrightarrow> roomId s \<in> rooms g \<and> seated g (roomId s) p) \<Longrightarrow> room_ok (put_session s p g)"
  by (auto simp: room_ok_def put_session_def map_of_update seated_def)

lemma put_expire_ok:
  assumes "expire_ok x g"
    and "if conn s = None then armed x (wheel g) (expireTimerId s) (ExpireSession p) else expireTimerId s = 0"
    and "\<And>i t. scheduled (wheel g) i = Some (t, ExpireSession p) \<Longrightarrow> conn s = None \<and> expireTimerId s = i"
  shows "expire_ok x (put_session s p g)"
  using assms by (auto simp: expire_ok_def put_session_def map_of_update)

lemma put_fields [simp]:
  "session (put_session s p g) = (session g)(p \<mapsto> s)" "rooms (put_session s p g) = rooms g"
  "wheel (put_session s p g) = wheel g" "connToPlayer (put_session s p g) = connToPlayer g"
  "matchQueue (put_session s p g) = matchQueue g" "matchTimer (put_session s p g) = matchTimer g"
  "roomHeap (put_session s p g) = roomHeap g" "loopQ (put_session s p g) = loopQ g"
  "roomEnds (put_session s p g) = roomEnds g" "gamePool (put_session s p g) = gamePool g"
  "nextPlayerId (put_session s p g) = nextPlayerId g" "nextRoomId (put_session s p g) = nextRoomId g"
  "out (put_session s p g) = out g" "hypotf (put_session s p g) = hypotf g"
  by (simp_all add: put_session_def fun_eq_iff map_of_update)

lemma put_other [simp]:
  "ends_ok Y (put_session s p g) = ends_ok Y g" "queues_ok (put_session s p g) = queues_ok g"
  "timeout_ok x (put_session s p g) = timeout_ok x g"
  "timeout_ok x (put_session s p g\<lparr> wheel := w \<rparr>) = timeout_ok x (g\<lparr> wheel := w \<rparr>)"
  "timeout_ok x (put_session s p g\<lparr> matchQueue := q \<rparr>) = timeout_ok x (g\<lparr> matchQueue := q \<rparr>)"
  by (simp_all add: ends_ok_def queues_ok_def timeout_ok_def)

lemma requeue_match_ok:
  assumes "match_ok g" "mq_inv q" "\<And>i. i \<noteq> p \<Longrightarrow> i \<in> waiting q \<longleftrightarrow> i \<in> waiting (matchQueue g)"
    and "p \<in> waiting q \<longleftrightarrow> state s = kMatching"
  shows "match_ok (put_session s p g\<lparr> matchQueue := q \<rparr>)"
  using assms by (simp add: match_ok_def)

lemma expire_owner:
  assumes "expire_ok x g" "scheduled (wheel g) i = Some (t, ExpireSession p)"
  shows "x \<noteq> Some (ExpireSession p)" "\<exists>s. session g p = Some s \<and> conn s = None \<and> expireTimerId s = i"
  using assms by (auto simp: expire_ok_def)

lemma waiting_session:
  assumes "match_ok g" "p \<in> waiting (matchQueue g)"
  obtains s where "session g p = Some s" "state s = kMatching"
  using assms by (auto simp: match_ok_def)

text \<open>A session and the facts the invariant gives about it.\<close>

lemma session_facts:
  assumes inv: "lobby_inv P x Y g" and s: "session g p = Some s"
  shows "good_session (nextPlayerId g) p s" "\<And>c. connToPlayer g c = Some p \<Longrightarrow> conn s = Some c"
    "p \<in> waiting (matchQueue g) \<longleftrightarrow> state s = kMatching"
    "roomId s \<noteq> 0 \<Longrightarrow> roomId s \<in> rooms g \<and> seated g (roomId s) p"
    "if conn s = None then armed x (wheel g) (expireTimerId s) (ExpireSession p) else expireTimerId s = 0"
    "\<And>i t. scheduled (wheel g) i = Some (t, ExpireSession p) \<Longrightarrow> conn s = None \<and> expireTimerId s = i"
proof -
  note parts = lobby_invD [OF inv]
  show "good_session (nextPlayerId g) p s"
    using parts(2) s by (simp add: sess_ok_def)
  show "conn s = Some c" if "connToPlayer g c = Some p" for c
    using parts(3) s that unfolding conn_ok_def by (metis option.inject)
  show "p \<in> waiting (matchQueue g) \<longleftrightarrow> state s = kMatching"
    using parts(4) s by (simp add: match_ok_def)
  show "roomId s \<in> rooms g \<and> seated g (roomId s) p" if "roomId s \<noteq> 0"
    using parts(5) s that by (simp add: room_ok_def)
  show "if conn s = None then armed x (wheel g) (expireTimerId s) (ExpireSession p) else expireTimerId s = 0"
    using parts(8) s unfolding expire_ok_def by blast
  show "conn s = None \<and> expireTimerId s = i" if "scheduled (wheel g) i = Some (t, ExpireSession p)" for i t
    using parts(8) s that unfolding expire_ok_def by (metis option.inject)
qed

lemma put_session_inv:
  assumes inv: "lobby_inv P x Y g" and s: "session g p = Some s"
    and "playerId s' = playerId s" "conn s' = conn s" "roomId s' = roomId s" "state s' = state s"
      "expireTimerId s' = expireTimerId s"
  shows "lobby_inv P x Y (put_session s' p g)"
proof -
  note parts = lobby_invD [OF inv] and facts = session_facts [OF inv s]
  have "good_session (nextPlayerId g) p s'"
    using facts(1) assms(3-) by (simp add: good_session_def)
  then show ?thesis
    using parts facts assms(3-)
    by (intro lobby_invI put_sess_ok put_conn_ok put_match_ok put_room_ok put_expire_ok) simp_all
qed

subsection \<open>What room tasks leave alone\<close>

lemma onRoomEnd_fields [simp]:
  "connToPlayer (onRoomEnd rid w g) = connToPlayer g" "matchQueue (onRoomEnd rid w g) = matchQueue g"
  "matchTimer (onRoomEnd rid w g) = matchTimer g" "wheel (onRoomEnd rid w g) = wheel g"
  "nextPlayerId (onRoomEnd rid w g) = nextPlayerId g" "nextRoomId (onRoomEnd rid w g) = nextRoomId g"
  "gamePool (onRoomEnd rid w g) = gamePool g" "sessions (onRoomEnd rid w g) = umap_map (\<lambda>_. release rid) (sessions g)"
  "rooms (onRoomEnd rid w g) = rooms g - {rid}" "roomEnds (onRoomEnd rid w g) = roomEnds g"
  "roomHeap (onRoomEnd rid w g) = roomHeap g" "loopQ (onRoomEnd rid w g) = loopQ g" "writerOn (onRoomEnd rid w g) = writerOn g"
  by (simp_all add: onRoomEnd_def enqueue_def Let_def split: prod.split)

definition same_player :: "Session \<Rightarrow> Session \<Rightarrow> bool" where
  "same_player s s' \<longleftrightarrow> playerId s' = playerId s \<and> conn s' = conn s \<and> expireTimerId s' = expireTimerId s \<and>
     token s' = token s \<and> account s' = account s"

definition lobby_frame :: "GameServer \<Rightarrow> GameServer \<Rightarrow> bool" where
  "lobby_frame g g' \<longleftrightarrow> connToPlayer g' = connToPlayer g \<and> matchQueue g' = matchQueue g \<and>
     matchTimer g' = matchTimer g \<and> wheel g' = wheel g \<and> nextPlayerId g' = nextPlayerId g \<and>
     nextRoomId g' = nextRoomId g \<and> gamePool g' = gamePool g \<and> writerOn g' = writerOn g \<and>
     (\<forall>p. rel_option same_player (session g p) (session g' p))"

lemma same_player_refl [simp]: "same_player s s" "rel_option same_player a a"
  by (auto simp: same_player_def intro!: option.rel_refl)

lemma lobby_frame_refl [simp]: "lobby_frame g g"
  by (simp add: lobby_frame_def)

lemma lobby_frame_trans:
  assumes "lobby_frame g g'" "lobby_frame g' g''"
  shows "lobby_frame g g''"
proof -
  have "rel_option same_player a c" if "rel_option same_player a b" "rel_option same_player b c" for a b c
    using that by (cases a; cases b; cases c) (simp_all add: same_player_def)
  then show ?thesis
    using assms unfolding lobby_frame_def by metis
qed

lemma room_callback_frame: "lobby_frame g (room_callback l rid e g)"
  by (cases e) (auto simp: lobby_frame_def map_of_umap_map option.rel_map same_player_def intro!: option.rel_refl)

lemma runTask_frame: "lobby_frame g (runTask l rid t g)"
proof -
  have "lobby_frame g (fold (room_callback l rid) es g)" for es g
    by (induction es arbitrary: g) (auto intro: lobby_frame_trans room_callback_frame)
  moreover have "lobby_frame g (g\<lparr> roomHeap := h \<rparr>)" for h
    by (simp add: lobby_frame_def)
  ultimately show ?thesis
    by (auto simp: runTask_def intro: lobby_frame_trans split: option.split prod.split)
qed

lemma runInLoop_frame: "lobby_frame g (runInLoop rid t g)"
  using runTask_frame by (auto simp: runInLoop_def lobby_frame_def split: option.split)

lemma lobby_frameD:
  assumes "lobby_frame g g'"
  shows "connToPlayer g' = connToPlayer g" "matchQueue g' = matchQueue g" "matchTimer g' = matchTimer g"
    "wheel g' = wheel g" "nextPlayerId g' = nextPlayerId g" "nextRoomId g' = nextRoomId g" "gamePool g' = gamePool g"
    "writerOn g' = writerOn g"
  using assms by (simp_all add: lobby_frame_def)

lemma lobby_frame_session:
  assumes "lobby_frame g g'" "session g p = Some s"
  obtains s' where "session g' p = Some s'" "playerId s' = playerId s" "conn s' = conn s"
    "expireTimerId s' = expireTimerId s" "token s' = token s" "account s' = account s"
  using assms unfolding lobby_frame_def by (metis option_rel_Some1 same_player_def)

subsection \<open>Login, heartbeat and input\<close>

lemma onLogin_inv:
  assumes inv: "lobby_inv P None {} g"
  shows "lobby_inv P None {} (onLogin now rng c acc g)"
proof -
  note parts = lobby_invD [OF inv]
  define p where "p = nextPlayerId g"
  define s where "s = \<lparr> playerId = p, token = genToken (fst rng) (snd rng), account = acc, conn = Some c, roomId = 0,
    state = kLobby, lastHeartbeatMs = now, expireTimerId = 0 \<rparr>"
  let ?g = "g\<lparr> nextPlayerId := p + 1 \<rparr>"
  have fresh: "session g p = None"
    using sess_okD(3) [OF parts(2), of p] by (cases "session g p") (auto simp: p_def)
  have p: "0 < p"
    using parts(2) by (simp add: sess_ok_def p_def)
  have free: "connToPlayer g d \<noteq> Some p" for d
    using parts(3) fresh unfolding conn_ok_def by force
  have idle: "p \<notin> waiting (matchQueue g)" "scheduled (wheel g) i \<noteq> Some (t, ExpireSession p)" for i t
    using parts(4,8) fresh unfolding match_ok_def expire_ok_def by force+
  have "good_session (p + 1) q z" if "good_session p q z" for q z
    using that by (simp add: good_session_def)
  then have "sess_ok ?g"
    using parts(2) by (simp add: sess_ok_def p_def)
  moreover have "good_session (p + 1) p s"
    using p by (simp add: good_session_def s_def)
  ultimately have "sess_ok (put_session s p ?g)"
    by (intro put_sess_ok) simp_all
  moreover have "conn_ok (put_session s p ?g\<lparr> connToPlayer := (connToPlayer g)(c \<mapsto> p) \<rparr>)"
    using parts(3) fresh free by (auto simp: conn_ok_def s_def)
  moreover have "match_ok (put_session s p g)" "room_ok (put_session s p g)" "expire_ok None (put_session s p g)"
    using parts idle by (auto intro!: put_match_ok put_room_ok put_expire_ok simp: s_def)
  ultimately have "lobby_inv P None {} (put_session s p ?g\<lparr> connToPlayer := (connToPlayer g)(c \<mapsto> p) \<rparr>)"
    using parts by (intro lobby_invI) simp_all
  then show ?thesis
    by (simp add: onLogin_def Let_def p_def [symmetric] s_def [symmetric])
qed

lemma sessionOf_Some:
  assumes inv: "lobby_inv P x Y g" and "sessionOf g c = Some s"
  shows "connToPlayer g c = Some (playerId s)" "session g (playerId s) = Some s" "conn s = Some c"
proof -
  obtain p where p: "connToPlayer g c = Some p" "session g p = Some s"
    using assms(2) by (auto simp: sessionOf_def split: option.splits)
  moreover have "playerId s = p"
    using sess_okD(1) [OF lobby_invD(2) [OF inv] p(2)] .
  ultimately show "connToPlayer g c = Some (playerId s)" "session g (playerId s) = Some s" "conn s = Some c"
    using session_facts(2) [OF inv p(2,1)] by simp_all
qed

lemma onHeartbeat_inv:
  assumes inv: "lobby_inv P x {} g"
  shows "lobby_inv P x {} (onHeartbeat now c hb g)"
proof (cases "sessionOf g c")
  case (Some s)
  show ?thesis
    using put_session_inv [OF inv sessionOf_Some(2) [OF inv Some], of "s\<lparr> lastHeartbeatMs := now \<rparr>"]
    by (simp add: onHeartbeat_def Some)
qed (simp add: onHeartbeat_def inv)

lemma onInput_inv: "lobby_inv P x {} g \<Longrightarrow> lobby_inv P x {} (onInput c inp g)"
  by (simp add: onInput_def runInLoop_inv split: option.split)

subsection \<open>Reconnection\<close>

text \<open>Taking a timer off the wheel that belongs to player \<open>p\<close> alone.\<close>

lemma cancel_expire_ok:
  assumes inv: "lobby_inv P None {} g" and s: "session g p = Some s" "conn s = None"
  defines "w \<equiv> cancel (wheel g) (expireTimerId s)"
  shows "timeout_ok None (g\<lparr> wheel := w \<rparr>)" "expireTimerId s \<noteq> 0"
    "expire_ok None (put_session (s\<lparr> expireTimerId := 0, conn := Some c, lastHeartbeatMs := now \<rparr>) p (g\<lparr> wheel := w \<rparr>))"
proof -
  note parts = lobby_invD [OF inv] and facts = session_facts [OF inv s(1)]
  obtain t where t: "scheduled (wheel g) (expireTimerId s) = Some (t, ExpireSession p)"
    using facts(5) s(2) by (auto simp: armed_def)
  note keep = armed_cancel [OF _ t, folded w_def]
  show "timeout_ok None (g\<lparr> wheel := w \<rparr>)"
    using parts(9) keep by (auto simp: timeout_ok_def)
  show "expireTimerId s \<noteq> 0"
    using unknown_unscheduled [OF parts(1), of 0] t by (cases "expireTimerId s") simp_all
  have sched: "scheduled w i = Some (t', ExpireSession q) \<longleftrightarrow>
      scheduled (wheel g) i = Some (t', ExpireSession q) \<and> q \<noteq> p" for i t' q
  proof (cases "i = expireTimerId s")
    case True
    then show ?thesis
      using t by (auto simp: w_def scheduled_cancel)
  next
    case False
    then have "scheduled (wheel g) i \<noteq> Some (t', ExpireSession p)"
      using facts(6) by blast
    with False show ?thesis
      by (auto simp: w_def scheduled_cancel)
  qed
  have "if conn z = None then armed None w (expireTimerId z) (ExpireSession q) else expireTimerId z = 0"
    if "session g q = Some z" "q \<noteq> p" for q z
    using session_facts(5) [OF inv that(1)] keep that(2) by simp
  moreover have "\<exists>z. session g q = Some z \<and> conn z = None \<and> expireTimerId z = i"
    if "scheduled (wheel g) i = Some (t', ExpireSession q)" for i t' q
    using parts(8) that by (auto simp: expire_ok_def)
  ultimately show "expire_ok None (put_session (s\<lparr> expireTimerId := 0, conn := Some c, lastHeartbeatMs := now \<rparr>) p (g\<lparr> wheel := w \<rparr>))"
    unfolding expire_ok_def by (simp add: sched)
qed

lemma onReconnect_inv:
  assumes inv: "lobby_inv P None {} g"
  shows "lobby_inv P None {} (onReconnect now c p tok g)"
proof (cases "\<exists>s. session g p = Some s \<and> token s = tok \<and> conn s = None")
  case True
  then obtain s where s: "session g p = Some s" "token s = tok" "conn s = None"
    by blast
  note parts = lobby_invD [OF inv] and facts = session_facts [OF inv s(1)]
  define s' where "s' = s\<lparr> expireTimerId := 0, conn := Some c, lastHeartbeatMs := now \<rparr>"
  define w where "w = cancel (wheel g) (expireTimerId s)"
  define g1 where "g1 = put_session s' p g\<lparr> wheel := w, connToPlayer := (connToPlayer g)(c \<mapsto> p) \<rparr>"
  note cx = cancel_expire_ok(1,2) [OF inv s(1,3), folded w_def]
    cancel_expire_ok(3) [OF inv s(1,3), of now c, folded w_def s'_def]
  have fields: "playerId s' = p" "state s' = state s" "roomId s' = roomId s" "conn s' = Some c" "token s' = token s"
    "account s' = account s"
    using facts(1) by (simp_all add: s'_def good_session_def)
  have "good_session (nextPlayerId g) p s'"
    using facts(1) by (simp add: good_session_def s'_def)
  then have "sess_ok (put_session s' p g)"
    using parts(2) by (intro put_sess_ok)
  moreover have "match_ok (put_session s' p g)" "room_ok (put_session s' p g)"
    using parts(4,5) facts(3,4) fields by (auto intro!: put_match_ok put_room_ok)
  moreover have "connToPlayer g d \<noteq> Some p" for d
    using facts(2) s(3) by force
  then have "conn_ok g1"
    using parts(3) fields by (auto simp: conn_ok_def g1_def)
  moreover have "wheel_inv 1 P w"
    using cancel_wheel_inv [OF parts(1)] by (simp add: w_def)
  ultimately have "lobby_inv P None {} g1"
    using parts(6,7) cx unfolding g1_def by (intro lobby_invI) simp_all
  then show ?thesis
    using s cx(2) fields
    by (simp add: onReconnect_def Let_def s'_def [symmetric] w_def [symmetric] g1_def [symmetric] runInLoop_inv)
next
  case False
  then show ?thesis
    by (auto simp: onReconnect_def inv split: option.split)
qed

subsection \<open>Disconnection and expiry\<close>

lemma erase_conn_ok:
  assumes "conn_ok g" and only: "\<And>d. connToPlayer g d = Some p \<Longrightarrow> d = c"
  shows "conn_ok (put_session s p g\<lparr> connToPlayer := (connToPlayer g)(c := None) \<rparr>)" (is "conn_ok ?g")
  unfolding conn_ok_def
proof (intro allI impI)
  fix d r
  assume "connToPlayer ?g d = Some r"
  then have d: "d \<noteq> c" "connToPlayer g d = Some r"
    by (simp_all split: if_splits)
  then have "r \<noteq> p"
    using only by blast
  then show "\<exists>z. session ?g r = Some z \<and> conn z = Some d"
    using assms(1) d(2) by (simp add: conn_ok_def)
qed

lemma drop_session_inv:
  assumes inv: "lobby_inv P None {} g" and c: "connToPlayer g c = Some p" and s: "session g p = Some s"
  defines "q \<equiv> (if state s = kMatching then remove (matchQueue g) p else matchQueue g)"
  defines "s1 \<equiv> (if state s = kMatching then s\<lparr> conn := None, state := kLobby \<rparr> else s\<lparr> conn := None \<rparr>)"
  shows "lobby_inv P (Some (ExpireSession p)) {}
    (put_session s1 p g\<lparr> connToPlayer := (connToPlayer g)(c := None), matchQueue := q \<rparr>)" (is "lobby_inv P ?x {} ?g")
proof -
  note parts = lobby_invD [OF inv] and facts = session_facts [OF inv s]
  have conn: "conn s = Some c"
    using facts(2) [OF c] .
  have wait: "waiting q = waiting (matchQueue g) - {p}" "mq_inv q"
    using facts(3) parts(4) remove_mq_inv by (auto simp: q_def remove_def match_ok_def)
  have s1: "good_session (nextPlayerId g) p s1" "state s1 \<noteq> kMatching" "conn s1 = None" "roomId s1 = roomId s"
    using facts(1) by (auto simp: s1_def good_session_def)
  have "sess_ok (put_session s1 p g)"
    using put_sess_ok [OF parts(2) s1(1)] .
  moreover have "d = c" if "connToPlayer g d = Some p" for d
    using facts(2) [OF that] conn by simp
  then have "conn_ok (put_session s1 p g\<lparr> connToPlayer := (connToPlayer g)(c := None) \<rparr>)"
    by (rule erase_conn_ok [OF parts(3)])
  moreover have "match_ok (put_session s1 p g\<lparr> matchQueue := q \<rparr>)"
    using parts(4) wait s1(2) by (intro requeue_match_ok) simp_all
  moreover have "room_ok (put_session s1 p g)"
    using parts(5) facts(4) s1(4) by (intro put_room_ok) simp_all
  moreover have "expire_ok ?x (put_session s1 p g)"
  proof -
    have "scheduled (wheel g) i \<noteq> Some (t, ExpireSession p)" for i t
      using facts(6) conn by auto
    moreover have "if conn z = None then armed ?x (wheel g) (expireTimerId z) (ExpireSession r) else expireTimerId z = 0"
      if "session g r = Some z" for r z
      using session_facts(5) [OF inv that] armed_weaken by (auto split: if_splits)
    ultimately have "expire_ok ?x g"
      using expire_owner(2) [OF parts(8)] unfolding expire_ok_def by blast
    then show ?thesis
      using facts(6) conn s1(3) by (intro put_expire_ok) (auto simp: armed_def)
  qed
  moreover have "timeout_ok ?x (g\<lparr> matchQueue := q \<rparr>)"
    using parts(9) wait(1) armed_weaken [of "wheel g" _ _ ?x] unfolding timeout_ok_def by simp blast
  ultimately show ?thesis
    using parts(1,6,7) by (intro lobby_invI) (simp_all add: timeout_ok_def conn_ok_def match_ok_def)
qed

lemma rearm_inv:
  assumes inv: "lobby_inv P (Some (ExpireSession p)) {} g" and s: "session g p = Some s" "conn s = None"
    and add: "TimerWheel.add (wheel g) kSessionKeepMs (ExpireSession p) = (i, w)"
  defines "f \<equiv> \<lambda>q z. if q = p then z\<lparr> expireTimerId := i \<rparr> else z"
  shows "lobby_inv P None {} (g\<lparr> wheel := w, sessions := umap_map f (sessions g) \<rparr>)" (is "lobby_inv P None {} ?g")
proof -
  note parts = lobby_invD [OF inv]
  have keep: "kSessionKeepMs \<le> 30000"
    by (simp add: kSessionKeepMs_def)
  note sched = add_sched [OF parts(1) keep add] and armed = armed_add [OF parts(1) keep add]
  have at: "session ?g q = (if q = p then Some (s\<lparr> expireTimerId := i \<rparr>) else session g q)" for q
    using s(1) by (simp add: map_of_umap_map f_def option.map_ident)
  have good: "good_session n q (f q z) = good_session n q z" "state (f q z) = state z" "conn (f q z) = conn z"
    "roomId (f q z) = roomId z" for n q z
    by (simp_all add: f_def good_session_def)
  have "sess_ok ?g" "conn_ok ?g" "match_ok ?g" "room_ok ?g"
    using parts(2-5) by (fastforce simp: sess_ok_def conn_ok_def match_ok_def room_ok_def seated_def map_of_umap_map good)+
  moreover have "expire_ok None ?g"
    unfolding expire_ok_def
  proof (intro conjI allI impI)
    fix q z
    assume z: "session ?g q = Some z"
    show "if conn z = None then armed None (wheel ?g) (expireTimerId z) (ExpireSession q) else expireTimerId z = 0"
    proof (cases "q = p")
      case True
      then show ?thesis
        using z at s armed(2) by auto
    next
      case False
      then have "session g q = Some z"
        using z at by simp
      from session_facts(5) [OF inv this] show ?thesis
        using armed(1) armed_other [of "ExpireSession p"] False by auto
    qed
  next
    fix j t q
    assume "scheduled (wheel ?g) j = Some (t, ExpireSession q)"
    then have "j = i \<and> q = p \<or> j \<noteq> i \<and> q \<noteq> p \<and> (\<exists>z. session g q = Some z \<and> conn z = None \<and> expireTimerId z = j)"
      using sched(2) expire_owner [OF parts(8), of j t q] by (cases "j = i") (auto dest: expire_owner(1) [OF parts(8)])
    then show "\<exists>z. session ?g q = Some z \<and> conn z = None \<and> expireTimerId z = j"
      using at s(2) by auto
  qed simp
  moreover have "timeout_ok None (g\<lparr> wheel := w \<rparr>)"
    using parts(9) armed(1) armed_other [of "ExpireSession p"] unfolding timeout_ok_def
    by simp (metis timer_cb.distinct(1,5))
  ultimately show ?thesis
    using parts(6,7) sched(5) by (intro lobby_invI) (simp_all add: ends_ok_def queues_ok_def timeout_ok_def)
qed

lemma onDisconnect_eq:
  assumes c: "connToPlayer g c = Some p" and s: "session g p = Some s"
    and s1: "s1 = (if state s = kMatching then s\<lparr> conn := None, state := kLobby \<rparr> else s\<lparr> conn := None \<rparr>)"
    and q: "q = (if state s = kMatching then remove (matchQueue g) p else matchQueue g)"
    and g1: "g1 = put_session s1 p g\<lparr> connToPlayer := (connToPlayer g)(c := None), matchQueue := q \<rparr>"
    and g2: "g2 = (if state s1 = kInRoom \<and> roomId s1 \<in> rooms g1 then runInLoop (roomId s1) (TDrop p) g1 else g1)"
    and add: "TimerWheel.add (wheel g2) kSessionKeepMs (ExpireSession p) = (i, w)"
  shows "onDisconnect c g = enqueue (DelOnline (account s))
    (g2\<lparr> wheel := w, sessions := umap_map (\<lambda>q z. if q = p then z\<lparr> expireTimerId := i \<rparr> else z) (sessions g2) \<rparr>)"
proof -
  have "state s1 = (if state s = kMatching then kLobby else state s)" "account s1 = account s"
    by (simp_all add: s1)
  then show ?thesis
    using add by (simp add: onDisconnect_def c s Let_def g2 g1 s1 q cong: if_cong)
qed

lemma onDisconnect_inv:
  assumes inv: "lobby_inv P None {} g"
  shows "lobby_inv P None {} (onDisconnect c g)"
proof (cases "connToPlayer g c")
  case (Some p)
  then obtain s where s: "session g p = Some s"
    using lobby_invD(3) [OF inv] by (auto simp: conn_ok_def)
  define s1 where "s1 = (if state s = kMatching then s\<lparr> conn := None, state := kLobby \<rparr> else s\<lparr> conn := None \<rparr>)"
  define q where "q = (if state s = kMatching then remove (matchQueue g) p else matchQueue g)"
  define g1 where "g1 = put_session s1 p g\<lparr> connToPlayer := (connToPlayer g)(c := None), matchQueue := q \<rparr>"
  define g2 where "g2 = (if state s1 = kInRoom \<and> roomId s1 \<in> rooms g1 then runInLoop (roomId s1) (TDrop p) g1 else g1)"
  have inv1: "lobby_inv P (Some (ExpireSession p)) {} g1"
    using drop_session_inv [OF inv Some s] by (simp add: g1_def s1_def q_def)
  then have inv2: "lobby_inv P (Some (ExpireSession p)) {} g2"
    by (simp add: g2_def runInLoop_inv)
  have fr: "lobby_frame g1 g2" "session g1 p = Some s1" "conn s1 = None"
    by (simp_all add: g2_def runInLoop_frame) (simp_all add: g1_def s1_def)
  obtain s2 where s2: "session g2 p = Some s2" "conn s2 = None"
    using lobby_frame_session [OF fr(1,2)] fr(3) by metis
  obtain i w where add: "TimerWheel.add (wheel g2) kSessionKeepMs (ExpireSession p) = (i, w)"
    by fastforce
  show ?thesis
    using rearm_inv [OF inv2 s2 add] onDisconnect_eq [OF Some s s1_def q_def g1_def g2_def add] by simp
qed (simp add: onDisconnect_def inv)

text \<open>While the expiry of \<open>p\<close> runs, nothing but the session of \<open>p\<close> itself relies on the exemption.\<close>

lemma timeout_other: "timeout_ok (Some (ExpireSession p)) g \<Longrightarrow> timeout_ok None g"
  using armed_other [of "ExpireSession p" "wheel g"] unfolding timeout_ok_def by (metis timer_cb.distinct(1,5))

lemma expire_other:
  assumes "lobby_inv P (Some (ExpireSession p)) {} g" "session g q = Some z" "q \<noteq> p"
  shows "if conn z = None then armed None (wheel g) (expireTimerId z) (ExpireSession q) else expireTimerId z = 0"
  using session_facts(5) [OF assms(1,2)] armed_other [of "ExpireSession p" "wheel g"] assms(3) by (auto split: if_splits)

lemma forget_inv:
  assumes inv: "lobby_inv P (Some (ExpireSession p)) {} g" and s: "session g p = Some s" "conn s = None"
  shows "lobby_inv P None {} (g\<lparr> sessions := AList.delete p (sessions g) \<rparr>)" (is "lobby_inv P None {} ?g")
proof -
  note parts = lobby_invD [OF inv] and facts = session_facts [OF inv s(1)]
  have at: "session ?g q = (if q = p then None else session g q)" for q
    by (simp add: map_of_delete)
  have "sess_ok ?g"
    using parts(2) at unfolding sess_ok_def by simp
  moreover have "connToPlayer g d \<noteq> Some p" for d
    using facts(2) [of d] s(2) by auto
  then have "conn_ok ?g"
    using parts(3) at unfolding conn_ok_def by simp
  moreover have "p \<notin> waiting (matchQueue g)"
    using facts(1,3) s(2) by (auto simp: good_session_def)
  then have "match_ok ?g"
    using parts(4) at unfolding match_ok_def by auto
  moreover have "room_ok ?g"
    using parts(5) at unfolding room_ok_def seated_def by simp
  moreover have "expire_ok None ?g"
    unfolding expire_ok_def
  proof (intro conjI allI impI)
    fix q z
    assume "session ?g q = Some z"
    then have "session g q = Some z" "q \<noteq> p"
      using at by (simp_all split: if_splits)
    then show "if conn z = None then armed None (wheel ?g) (expireTimerId z) (ExpireSession q) else expireTimerId z = 0"
      using expire_other [OF inv] by simp
  next
    fix i t q
    assume "scheduled (wheel ?g) i = Some (t, ExpireSession q)"
    then show "\<exists>z. session ?g q = Some z \<and> conn z = None \<and> expireTimerId z = i"
      using expire_owner [OF parts(8), of i t q] at by auto
  qed simp
  ultimately show ?thesis
    using parts(1,6,7) timeout_other [OF parts(9)] by (intro lobby_invI) simp_all
qed

lemma unexempt_inv:
  assumes inv: "lobby_inv P (Some (ExpireSession p)) {} g" and s: "\<And>s. session g p = Some s \<Longrightarrow> conn s \<noteq> None"
  shows "lobby_inv P None {} g"
proof -
  note parts = lobby_invD [OF inv]
  have "expire_ok None g"
    unfolding expire_ok_def
  proof (intro conjI allI impI)
    fix q z
    assume z: "session g q = Some z"
    show "if conn z = None then armed None (wheel g) (expireTimerId z) (ExpireSession q) else expireTimerId z = 0"
      using expire_other [OF inv z] session_facts(5) [OF inv z] s [of z] z by (cases "q = p") (simp_all split: if_splits)
  qed (use expire_owner(2) [OF parts(8)] in simp_all)
  then show ?thesis
    using parts timeout_other [OF parts(9)] by (intro lobby_invI) simp_all
qed

lemma expireSession_inv:
  assumes inv: "lobby_inv P (Some (ExpireSession p)) {} g"
  shows "lobby_inv P None {} (expireSession p g)"
proof (cases "\<exists>s. session g p = Some s \<and> conn s = None")
  case True
  then obtain s where s: "session g p = Some s" "conn s = None"
    by blast
  define g1 where "g1 = (if state s = kInRoom \<and> roomId s \<in> rooms g
    then runInLoop (roomId s) (TForceEnd (opponent (roomId s) p (sessions g) 0)) g else g)"
  have g1: "lobby_inv P (Some (ExpireSession p)) {} g1" "lobby_frame g g1"
    using inv by (simp_all add: g1_def runInLoop_inv runInLoop_frame)
  obtain s1 where "session g1 p = Some s1" "conn s1 = None"
    using lobby_frame_session [OF g1(2) s(1)] s(2) by metis
  from forget_inv [OF g1(1) this] show ?thesis
    by (simp add: expireSession_def s g1_def [symmetric])
next
  case False
  then have "expireSession p g = g"
    by (auto simp: expireSession_def split: option.split)
  then show ?thesis
    using unexempt_inv [OF inv] False by auto
qed

subsection \<open>Match timeout and sweep\<close>

lemma expire_facts:
  assumes "expire_ok x g" "session g p = Some s"
  shows "if conn s = None then armed x (wheel g) (expireTimerId s) (ExpireSession p) else expireTimerId s = 0"
    "\<And>i t. scheduled (wheel g) i = Some (t, ExpireSession p) \<Longrightarrow> conn s = None \<and> expireTimerId s = i"
proof -
  show "if conn s = None then armed x (wheel g) (expireTimerId s) (ExpireSession p) else expireTimerId s = 0"
    using assms unfolding expire_ok_def by blast
  show "conn s = None \<and> expireTimerId s = i" if "scheduled (wheel g) i = Some (t, ExpireSession p)" for i t
    using expire_owner(2) [OF assms(1) that] assms(2) by auto
qed

text \<open>What is left of the timer conditions when the match timer of \<open>p\<close> has fired and is forgotten.\<close>

lemma timed_out_expire_ok:
  assumes inv: "lobby_inv P (Some (MatchTimeout p)) {} g"
  shows "expire_ok None g"
  unfolding expire_ok_def
proof (intro conjI allI impI)
  fix q z
  assume "session g q = Some z"
  then show "if conn z = None then armed None (wheel g) (expireTimerId z) (ExpireSession q) else expireTimerId z = 0"
    using session_facts(5) [OF inv, of q z] armed_other [of "MatchTimeout p"] by (simp split: if_splits)
qed (use expire_owner(2) [OF lobby_invD(8) [OF inv]] in simp_all)

lemma timed_out_timeout_ok:
  assumes ok: "timeout_ok (Some (MatchTimeout p)) g" and q: "waiting q \<subseteq> waiting (matchQueue g) - {p}"
  shows "timeout_ok None (g\<lparr> matchTimer := (matchTimer g)(p := None), matchQueue := q \<rparr>)"
proof -
  have "armed None (wheel g) i (MatchTimeout r)" if "matchTimer g r = Some i" "r \<noteq> p" for i r
    using ok that armed_other [of "MatchTimeout p" "wheel g" i "MatchTimeout r"] by (simp add: timeout_ok_def)
  moreover have "\<exists>i. armed None (wheel g) i Sweep"
    using ok armed_other [of "MatchTimeout p"] unfolding timeout_ok_def by (metis timer_cb.distinct(3))
  moreover have "matchTimer g r \<noteq> None" "r \<noteq> p" if "r \<in> waiting q" for r
    using ok q that by (auto simp: timeout_ok_def)
  ultimately show ?thesis
    by (simp add: timeout_ok_def)
qed

lemma matchTimedOut_inv:
  assumes inv: "lobby_inv P (Some (MatchTimeout p)) {} g"
  shows "lobby_inv P None {} (matchTimedOut p g)"
proof -
  note parts = lobby_invD [OF inv] and exp = timed_out_expire_ok [OF inv]
  show ?thesis
  proof (cases "p \<in> waiting (matchQueue g)")
    case True
    then obtain s where s: "session g p = Some s" "state s = kMatching"
      using waiting_session [OF parts(4)] by blast
    note facts = session_facts [OF inv s(1)]
    let ?s = "s\<lparr> state := kLobby \<rparr>"
    define q where "q = remove (matchQueue g) p"
    have q: "mq_inv q" "waiting q = waiting (matchQueue g) - {p}"
      using parts(4) remove_mq_inv by (auto simp: q_def remove_def match_ok_def)
    have "good_session (nextPlayerId g) p ?s"
      using facts(1) s(2) by (auto simp: good_session_def)
    then have "sess_ok (put_session ?s p g)"
      by (rule put_sess_ok [OF parts(2)])
    moreover have "conn_ok (put_session ?s p g)" "room_ok (put_session ?s p g)"
      using facts(2,4) by (intro put_conn_ok put_room_ok parts(3,5); simp)+
    moreover have "expire_ok None (put_session ?s p g)"
      using expire_facts [OF exp s(1)] by (intro put_expire_ok [OF exp]) simp_all
    moreover have "match_ok (put_session ?s p g\<lparr> matchQueue := q \<rparr>)"
      using parts(4) q by (intro requeue_match_ok) simp_all
    moreover have "timeout_ok None (g\<lparr> matchTimer := (matchTimer g)(p := None), matchQueue := q \<rparr>)"
      using q(2) by (intro timed_out_timeout_ok [OF parts(9)]) simp
    ultimately have "lobby_inv P None {} (put_session ?s p g\<lparr> matchTimer := (matchTimer g)(p := None), matchQueue := q \<rparr>)"
      using parts(1,6,7) by (intro lobby_invI) (simp_all add: match_ok_def timeout_ok_def)
    then show ?thesis
      using True s by (simp add: matchTimedOut_def contains_def Let_def q_def split: option.split)
  next
    case False
    then have "timeout_ok None (g\<lparr> matchTimer := (matchTimer g)(p := None), matchQueue := matchQueue g \<rparr>)"
      by (intro timed_out_timeout_ok [OF parts(9)]) blast
    then have "lobby_inv P None {} (g\<lparr> matchTimer := (matchTimer g)(p := None) \<rparr>)"
      using parts exp by (intro lobby_invI) (simp_all add: timeout_ok_def)
    then show ?thesis
      using False by (simp add: matchTimedOut_def contains_def Let_def)
  qed
qed

lemma scheduleSweep_inv:
  assumes inv: "lobby_inv P (Some Sweep) {} g"
  shows "lobby_inv P None {} (scheduleSweep g)"
proof -
  note parts = lobby_invD [OF inv]
  obtain i w where add: "TimerWheel.add (wheel g) kSweepIntervalMs Sweep = (i, w)"
    by fastforce
  have keep: "kSweepIntervalMs \<le> 30000"
    by (simp add: kSweepIntervalMs_def)
  note sched = add_sched [OF parts(1) keep add] and armed = armed_add [OF parts(1) keep add]
  have other: "armed None w j cb" if "armed (Some Sweep) (wheel g) j cb" "cb \<noteq> Sweep" for j cb
    using armed_other [OF that] armed(1) by blast
  have owner: "scheduled w j = Some (t, ExpireSession p) \<Longrightarrow> scheduled (wheel g) j = Some (t, ExpireSession p)" for j t p
    using sched(2) by (simp split: if_splits)
  have "expire_ok None (g\<lparr> wheel := w \<rparr>)"
    unfolding expire_ok_def
  proof (intro conjI allI impI)
    fix q z
    assume "session (g\<lparr> wheel := w \<rparr>) q = Some z"
    then show "if conn z = None then armed None (wheel (g\<lparr> wheel := w \<rparr>)) (expireTimerId z) (ExpireSession q) else expireTimerId z = 0"
      using session_facts(5) [OF inv, of q z] other by (simp split: if_splits)
  qed (use owner expire_owner(2) [OF parts(8)] in \<open>fastforce+\<close>)
  moreover have "timeout_ok None (g\<lparr> wheel := w \<rparr>)"
    using parts(9) other armed(2) unfolding timeout_ok_def by simp (metis timer_cb.distinct(3))
  ultimately have "lobby_inv P None {} (g\<lparr> wheel := w \<rparr>)"
    using parts sched(5) by (intro lobby_invI) simp_all
  then show ?thesis
    by (simp add: scheduleSweep_def add)
qed

lemma fire_inv: "lobby_inv P (Some cb) {} g \<Longrightarrow> lobby_inv P None {} (fire now cb g)"
  by (cases cb) (simp_all add: matchTimedOut_inv expireSession_inv scheduleSweep_inv sweepHeartbeats_def)

subsection \<open>Match making\<close>

lemma cancelMatchTimer_fields [simp]:
  "sessions (cancelMatchTimer p g) = sessions g" "rooms (cancelMatchTimer p g) = rooms g"
  "connToPlayer (cancelMatchTimer p g) = connToPlayer g" "matchQueue (cancelMatchTimer p g) = matchQueue g"
  "matchTimer (cancelMatchTimer p g) = (matchTimer g)(p := None)" "roomHeap (cancelMatchTimer p g) = roomHeap g"
  "loopQ (cancelMatchTimer p g) = loopQ g" "roomEnds (cancelMatchTimer p g) = roomEnds g"
  "gamePool (cancelMatchTimer p g) = gamePool g" "nextPlayerId (cancelMatchTimer p g) = nextPlayerId g"
  "nextRoomId (cancelMatchTimer p g) = nextRoomId g"
  by (auto simp: cancelMatchTimer_def split: option.split)

definition timers_armed :: "nat list \<Rightarrow> GameServer \<Rightarrow> bool" where
  "timers_armed P g \<longleftrightarrow> wheel_inv 1 P (wheel g) \<and> expire_ok None g \<and>
     (\<forall>q i. matchTimer g q = Some i \<longrightarrow> armed None (wheel g) i (MatchTimeout q)) \<and> (\<exists>i. armed None (wheel g) i Sweep)"

lemma cancelMatchTimer_armed:
  assumes "timers_armed P g"
  shows "timers_armed P (cancelMatchTimer p g)"
proof (cases "matchTimer g p")
  case (Some i)
  obtain t where t: "scheduled (wheel g) i = Some (t, MatchTimeout p)"
    using assms Some by (auto simp: timers_armed_def armed_def)
  note keep = armed_cancel [OF _ t]
  let ?g = "cancelMatchTimer p g"
  have w: "wheel ?g = cancel (wheel g) i"
    by (simp add: cancelMatchTimer_def Some)
  have ok: "expire_ok None g"
    using assms by (simp add: timers_armed_def)
  have "expire_ok None ?g"
    unfolding expire_ok_def
  proof (intro conjI allI impI)
    fix q z
    assume "session ?g q = Some z"
    then have "if conn z = None then armed None (wheel g) (expireTimerId z) (ExpireSession q) else expireTimerId z = 0"
      using ok by (simp add: expire_ok_def)
    then show "if conn z = None then armed None (wheel ?g) (expireTimerId z) (ExpireSession q) else expireTimerId z = 0"
      using keep by (simp add: w split: if_splits)
  next
    fix j t' q
    assume "scheduled (wheel ?g) j = Some (t', ExpireSession q)"
    then have "scheduled (wheel g) j = Some (t', ExpireSession q)"
      by (simp add: w scheduled_cancel split: if_splits)
    then show "\<exists>z. session ?g q = Some z \<and> conn z = None \<and> expireTimerId z = j"
      using expire_owner(2) [OF ok] by simp
  qed simp
  moreover have "\<forall>q j. matchTimer ?g q = Some j \<longrightarrow> armed None (wheel ?g) j (MatchTimeout q)"
    using assms keep by (auto simp: w timers_armed_def)
  moreover have "\<exists>j. armed None (wheel ?g) j Sweep"
    using assms keep unfolding timers_armed_def w by (metis timer_cb.distinct(3))
  ultimately show ?thesis
    using assms cancel_wheel_inv [of 1 P "wheel g" i] by (simp add: timers_armed_def w)
next
  case None
  then show ?thesis
    using assms by (simp add: cancelMatchTimer_def)
qed

lemma newRoom_fields:
  "onEnd_set (newRoom rid ps e) = e" "Room.roomId (newRoom rid ps e) = rid" "\<not> ended (newRoom rid ps e)"
  "map_of (conns (newRoom rid [(a, ca), (b, cb)] e)) p = (if p = b then Some cb else if p = a then Some ca else None)"
  by (simp_all add: newRoom_def map_of_update split: prod.split)

lemma seat_expire_ok:
  assumes "expire_ok None g" "session g p = Some s"
  shows "expire_ok None (put_session (s\<lparr> state := kInRoom, roomId := rid \<rparr>) p g)"
  using expire_facts [OF assms] by (intro put_expire_ok assms(1)) simp_all

text \<open>The state in which \<open>tryMatch\<close> posts the start of a new room for the players \<open>a\<close> and \<open>b\<close>.\<close>

definition paired :: "nat \<Rightarrow> Session \<Rightarrow> nat \<Rightarrow> Session \<Rightarrow> MatchQueue \<Rightarrow> GameServer \<Rightarrow> GameServer" where
  "paired a sa b sb q g =
     (let rid = nextRoomId g; (l, pool) = getNextLoop (gamePool g) in
      put_session (sb\<lparr> state := kInRoom, roomId := rid \<rparr>) b
        (put_session (sa\<lparr> state := kInRoom, roomId := rid \<rparr>) a
          (cancelMatchTimer b (cancelMatchTimer a (g\<lparr> matchQueue := q \<rparr>))
             \<lparr> nextRoomId := rid + 1, gamePool := pool, rooms := insert rid (rooms g),
               roomHeap := (roomHeap g)(rid \<mapsto> (l, newRoom rid [(a, conn sa), (b, conn sb)] True)) \<rparr>)))"

lemma paired_fields [simp]:
  "session (paired a sa b sb q g) p = (if p = b then Some (sb\<lparr> state := kInRoom, roomId := nextRoomId g \<rparr>)
     else if p = a then Some (sa\<lparr> state := kInRoom, roomId := nextRoomId g \<rparr>) else session g p)"
  "connToPlayer (paired a sa b sb q g) = connToPlayer g" "matchQueue (paired a sa b sb q g) = q"
  "matchTimer (paired a sa b sb q g) = (matchTimer g)(a := None, b := None)"
  "wheel (paired a sa b sb q g) = wheel (cancelMatchTimer b (cancelMatchTimer a g))"
  "gamePool (paired a sa b sb q g) = snd (getNextLoop (gamePool g))"
  "nextPlayerId (paired a sa b sb q g) = nextPlayerId g" "nextRoomId (paired a sa b sb q g) = nextRoomId g + 1"
  "rooms (paired a sa b sb q g) = insert (nextRoomId g) (rooms g)"
  "roomHeap (paired a sa b sb q g) =
     (roomHeap g)(nextRoomId g \<mapsto> (fst (getNextLoop (gamePool g)), newRoom (nextRoomId g) [(a, conn sa), (b, conn sb)] True))"
  "loopQ (paired a sa b sb q g) = loopQ g" "roomEnds (paired a sa b sb q g) = roomEnds g"
  "out (paired a sa b sb q g) = out g" "hypotf (paired a sa b sb q g) = hypotf g"
  by (auto simp: paired_def Let_def cancelMatchTimer_def split: prod.split option.split)

lemma fresh_room:
  assumes "room_ok g" "ends_ok {} g"
  shows "0 < nextRoomId g" "roomHeap g (nextRoomId g) = None" "nextRoomId g \<notin> rooms g"
    "nextRoomId g \<notin> fst ` set (roomEnds g)"
proof -
  show "0 < nextRoomId g" "roomHeap g (nextRoomId g) = None"
    using assms(1) unfolding room_ok_def by blast+
  then show "nextRoomId g \<notin> rooms g" "nextRoomId g \<notin> fst ` set (roomEnds g)"
    using assms unfolding room_ok_def ends_ok_def by blast+
qed

lemma paired_ends_ok:
  assumes "room_ok g" "ends_ok {} g" "a \<noteq> b"
  shows "ends_ok {} (paired a sa b sb q g)"
proof -
  let ?rid = "nextRoomId g"
  have "good_room (insert ?rid R) E {} i r" if "good_room R E {} i r" "i \<noteq> ?rid" for R E i r
    using that by (auto simp: good_room_def)
  moreover have "dom (map_of (conns (newRoom ?rid [(a, conn sa), (b, conn sb)] True))) = {a, b}"
    by (auto simp: newRoom_fields split: if_splits)
  then have "good_room (insert ?rid R) (fst ` set (roomEnds g)) {} ?rid (newRoom ?rid [(a, conn sa), (b, conn sb)] True)" for R
    using fresh_room(4) [OF assms(1,2)] assms(3) by (simp add: good_room_def newRoom_fields)
  ultimately show ?thesis
    using assms(2) by (simp add: ends_ok_def)
qed

lemma paired_room_ok:
  assumes ok: "room_ok g" "ends_ok {} g"
  shows "room_ok (paired a sa b sb q g)" (is "room_ok ?g")
proof -
  let ?rid = "nextRoomId g"
  note fresh = fresh_room [OF ok]
  have seat: "seated ?g i p = (if i = ?rid then p = a \<or> p = b else seated g i p)" for i p
    by (simp add: seated_def newRoom_fields)
  have "roomId z \<in> rooms ?g \<and> seated ?g (roomId z) p" if z: "session ?g p = Some z" "roomId z \<noteq> 0" for p z
  proof (cases "p = a \<or> p = b")
    case True
    then have "roomId z = ?rid"
      using z(1) by (auto split: if_splits)
    then show ?thesis
      using True seat by simp
  next
    case False
    then have "roomId z \<in> rooms g" "seated g (roomId z) p"
      using ok(1) z by (simp_all add: room_ok_def)
    then show ?thesis
      using fresh(3) seat by auto
  qed
  moreover have "0 < i \<and> i < ?rid + 1" if "roomHeap ?g i \<noteq> None" for i
  proof (cases "i = ?rid")
    case False
    then have "0 < i \<and> i < ?rid"
      using ok(1) that by (simp add: room_ok_def)
    then show ?thesis
      by simp
  qed (use fresh(1) in simp)
  moreover have "roomHeap ?g i \<noteq> None" if "i \<in> rooms ?g" for i
    using ok(1) that by (auto simp: room_ok_def)
  ultimately show ?thesis
    unfolding room_ok_def paired_fields by (metis zero_less_Suc Suc_eq_plus1)
qed

lemma paired_timers:
  assumes "lobby_inv P None {} g"
  shows "timers_armed P (cancelMatchTimer b (cancelMatchTimer a g))"
  using lobby_invD(1,8,9) [OF assms] by (intro cancelMatchTimer_armed) (simp add: timers_armed_def timeout_ok_def)

lemma paired_inv:
  assumes inv: "lobby_inv P None {} g" and q: "mq_inv q" "waiting q = waiting (matchQueue g) - {a, b}"
    and s: "session g a = Some sa" "session g b = Some sb" "a \<noteq> b" "state sa = kMatching" "state sb = kMatching"
  shows "lobby_inv P None {} (paired a sa b sb q g)" (is "lobby_inv P None {} ?g")
proof -
  note parts = lobby_invD [OF inv] and fa = session_facts [OF inv s(1)] and fb = session_facts [OF inv s(2)]
    and armed = paired_timers [OF inv, of b a]
  define h where "h = cancelMatchTimer b (cancelMatchTimer a (g\<lparr> matchQueue := q \<rparr>))
    \<lparr> nextRoomId := nextRoomId g + 1, gamePool := snd (getNextLoop (gamePool g)), rooms := rooms ?g, roomHeap := roomHeap ?g \<rparr>"
  have eq: "?g = put_session (sb\<lparr> state := kInRoom, roomId := nextRoomId g \<rparr>) b
      (put_session (sa\<lparr> state := kInRoom, roomId := nextRoomId g \<rparr>) a h)"
    by (simp add: h_def paired_def Let_def case_prod_unfold)
  have h: "sess_ok h" "conn_ok h" "session h = session g" "wheel h = wheel (cancelMatchTimer b (cancelMatchTimer a g))"
      "nextPlayerId h = nextPlayerId g" "connToPlayer h = connToPlayer g"
    using parts(2,3) by (simp_all add: sess_ok_def conn_ok_def h_def cancelMatchTimer_def split: option.split)
  have "expire_ok None h"
    using armed h(3,4) by (simp add: timers_armed_def expire_ok_def)
  then have "expire_ok None ?g"
    using h(3) s(1-3) unfolding eq by (intro seat_expire_ok) simp_all
  moreover have "sess_ok ?g"
    unfolding eq
    by (intro put_sess_ok h) (use fa(1) fb(1) fresh_room(1) [OF parts(5,6)] h(5) in \<open>simp_all add: good_session_def\<close>)
  moreover have "conn_ok ?g"
    unfolding eq by (intro put_conn_ok h) (use fa(2) fb(2) h(6) in simp_all)
  moreover have "match_ok ?g"
    using parts(4) q s by (auto simp: match_ok_def)
  moreover have "timeout_ok None ?g"
    using armed parts(9) q(2) by (auto simp: timeout_ok_def timers_armed_def)
  moreover have "wheel_inv 1 P (wheel ?g)"
    using armed by (simp add: timers_armed_def)
  moreover have "queues_ok ?g"
    using parts(7) fresh_room(2) [OF parts(5,6)] by (fastforce simp: queues_ok_def)
  ultimately show ?thesis
    using paired_ends_ok [OF parts(5,6) s(3)] paired_room_ok [OF parts(5,6)] by (intro lobby_invI)
qed

text \<open>When somebody else waits, \<open>tryMatch\<close> finds both sessions and starts their room.\<close>

lemma tryMatch_pair:
  assumes inv: "lobby_inv P None {} g" and pop: "popPair (matchQueue g) = Some (Some (a, b), q)"
  obtains sa sb where "session g a = Some sa" "session g b = Some sb" "a \<noteq> b" "a \<in> waiting (matchQueue g)"
    "b \<in> waiting (matchQueue g)" "waiting q = waiting (matchQueue g) - {a, b}"
    "tryMatch g = Some (runInLoop (nextRoomId g) TStart (paired a sa b sb q g))"
    "lobby_inv P None {} (paired a sa b sb q g)"
proof -
  note parts = lobby_invD [OF inv]
  have q: "mq_inv q" "a \<in> waiting (matchQueue g)" "b \<in> waiting (matchQueue g)" "a \<noteq> b" "waiting q = waiting (matchQueue g) - {a, b}"
    using mq.pop_SomeD [OF _ pop] parts(4) by (simp_all add: match_ok_def)
  obtain sa where sa: "session g a = Some sa" "state sa = kMatching"
    using waiting_session [OF parts(4) q(2)] .
  obtain sb where sb: "session g b = Some sb" "state sb = kMatching"
    using waiting_session [OF parts(4) q(3)] .
  have "playerId sa = a" "playerId sb = b"
    using sess_okD(1) [OF parts(2)] sa(1) sb(1) by simp_all
  then have "tryMatch g = Some (runInLoop (nextRoomId g) TStart (paired a sa b sb q g))"
    using q(4) by (simp add: tryMatch_def pop Let_def sa(1) sb(1) enter_def paired_def split: prod.split)
  then show ?thesis
    using that [OF sa(1) sb(1) q(4,2,3,5)] paired_inv [OF inv q(1,5) sa(1) sb(1) q(4) sa(2) sb(2)] by blast
qed

text \<open>\<open>tryMatch\<close> never reads an empty deque and pairs whoever waits.\<close>

lemma tryMatch_inv:
  assumes inv: "lobby_inv P None {} g"
  obtains g' where "tryMatch g = Some g'" "lobby_inv P None {} g'" "card (waiting (matchQueue g)) \<le> 2 \<Longrightarrow> card (waiting (matchQueue g')) \<le> 1"
proof -
  note parts = lobby_invD [OF inv]
  have mq: "mq_inv (matchQueue g)"
    using parts(4) by (simp add: match_ok_def)
  obtain r q where pop: "popPair (matchQueue g) = Some (r, q)"
    using mq.pop_total [OF mq] by blast
  show ?thesis
  proof (cases r)
    case None
    then have q: "mq_inv q" "waiting q = waiting (matchQueue g)" "card (waiting (matchQueue g)) < 2"
      using mq.pop_NoneD [OF mq] pop by blast+
    have "lobby_inv P None {} (g\<lparr> matchQueue := q \<rparr>)"
      using parts q(1,2) by (intro lobby_invI) (simp_all add: match_ok_def timeout_ok_def)
    then show ?thesis
      using that [of "g\<lparr> matchQueue := q \<rparr>"] q(2,3) by (simp add: tryMatch_def pop None)
  next
    case (Some ab)
    then obtain a b where "popPair (matchQueue g) = Some (Some (a, b), q)"
      using pop by (cases ab) simp
    from tryMatch_pair [OF inv this] obtain sa sb where m: "a \<noteq> b" "a \<in> waiting (matchQueue g)" "b \<in> waiting (matchQueue g)"
        "waiting q = waiting (matchQueue g) - {a, b}"
        "tryMatch g = Some (runInLoop (nextRoomId g) TStart (paired a sa b sb q g))"
        "lobby_inv P None {} (paired a sa b sb q g)"
      by metis
    moreover have "matchQueue (runInLoop (nextRoomId g) TStart (paired a sa b sb q g)) = q"
      using lobby_frameD(2) [OF runInLoop_frame] by simp
    moreover have "card (waiting q) \<le> 1" if "card (waiting (matchQueue g)) \<le> 2"
      using m(1-4) that by (simp add: card_Diff_subset)
    ultimately show ?thesis
      using that [OF m(5) runInLoop_inv [OF m(6)]] by simp
  qed
qed

lemma add_expire_ok:
  assumes "wheel_inv 1 P (wheel g)" "expire_ok x g" "TimerWheel.add (wheel g) d cb = (i, w)" "d \<le> 30000"
    and "\<And>q. cb \<noteq> ExpireSession q"
  shows "expire_ok x (g\<lparr> wheel := w \<rparr>)"
  unfolding expire_ok_def
proof (intro conjI allI impI)
  note sched = add_sched [OF assms(1,4,3)] and armed = armed_add [OF assms(1,4,3)]
  fix q z
  assume "session (g\<lparr> wheel := w \<rparr>) q = Some z"
  then show "if conn z = None then armed x (wheel (g\<lparr> wheel := w \<rparr>)) (expireTimerId z) (ExpireSession q) else expireTimerId z = 0"
    using expire_facts(1) [OF assms(2), of q z] armed(1) by (simp split: if_splits)
next
  fix j t q
  assume "scheduled (wheel (g\<lparr> wheel := w \<rparr>)) j = Some (t, ExpireSession q)"
  then have "scheduled (wheel g) j = Some (t, ExpireSession q)"
    using add_sched(2) [OF assms(1,4,3)] assms(5) by (simp split: if_splits)
  then show "x \<noteq> Some (ExpireSession q)" "\<exists>z. session (g\<lparr> wheel := w \<rparr>) q = Some z \<and> conn z = None \<and> expireTimerId z = j"
    using expire_owner [OF assms(2)] by simp_all
qed

text \<open>A match request of a player in the lobby: queued, timer set, then \<open>tryMatch\<close>.\<close>

lemma match_request:
  assumes inv: "lobby_inv P None {} g" and so: "sessionOf g c = Some s" and lobby: "state s = kLobby" and p_def: "p = playerId s"
  obtains q i w g1 where "waiting q = insert p (waiting (matchQueue g))" "p \<notin> waiting (matchQueue g)"
    "TimerWheel.add (wheel g) kMatchTimeoutMs (MatchTimeout p) = (i, w)"
    "g1 = put_session (s\<lparr> state := kMatching \<rparr>) p g\<lparr> matchQueue := q, wheel := w, matchTimer := (matchTimer g)(p \<mapsto> i) \<rparr>"
    "onMatch c g = tryMatch g1" "lobby_inv P None {} g1"
proof -
  have s: "session g p = Some s" "conn s = Some c"
    using sessionOf_Some [OF inv so] by (simp_all add: p_def)
  note parts = lobby_invD [OF inv] and facts = session_facts [OF inv s(1)]
  have mq: "mq_inv (matchQueue g)" and out: "p \<notin> waiting (matchQueue g)"
    using parts(4) facts(3) lobby by (simp_all add: match_ok_def)
  define q where "q = snd (push (matchQueue g) p)"
  have push: "push (matchQueue g) p = (True, q)" and q: "mq_inv q" "waiting q = insert p (waiting (matchQueue g))"
    using out mq push_mq_inv [OF mq, of p] by (simp_all add: q_def push_def)
  obtain i w where add: "TimerWheel.add (wheel g) kMatchTimeoutMs (MatchTimeout p) = (i, w)"
    by fastforce
  have keep: "kMatchTimeoutMs \<le> 30000"
    by (simp add: kMatchTimeoutMs_def)
  note sched = add_sched [OF parts(1) keep add] and armed = armed_add [OF parts(1) keep add]
  define s1 where "s1 = s\<lparr> state := kMatching \<rparr>"
  define g1 where "g1 = put_session s1 p g\<lparr> matchQueue := q, wheel := w, matchTimer := (matchTimer g)(p \<mapsto> i) \<rparr>"
  have "good_session (nextPlayerId g) p s1"
    using facts(1) lobby s(2) by (auto simp: good_session_def s1_def)
  then have "sess_ok (put_session s1 p g)"
    by (rule put_sess_ok [OF parts(2)])
  moreover have "conn_ok (put_session s1 p g)" "room_ok (put_session s1 p g)"
    using facts(2,4) by (intro put_conn_ok put_room_ok parts(3,5); simp add: s1_def)+
  moreover have "match_ok (put_session s1 p g\<lparr> matchQueue := q \<rparr>)"
    using parts(4) q by (intro requeue_match_ok) (simp_all add: s1_def)
  moreover have "expire_ok None (put_session s1 p (g\<lparr> wheel := w \<rparr>))"
  proof -
    have ex: "expire_ok None (g\<lparr> wheel := w \<rparr>)"
      by (rule add_expire_ok [OF parts(1,8) add keep]) simp
    show ?thesis
      using expire_facts [OF ex, of p s] s by (intro put_expire_ok [OF ex]) (simp_all add: s1_def)
  qed
  moreover have "timeout_ok None g1"
  proof -
    have "armed None w j (MatchTimeout r)" if "((matchTimer g)(p \<mapsto> i)) r = Some j" for r j
      using parts(9) armed that by (cases "r = p") (simp_all add: timeout_ok_def)
    moreover have "\<exists>j. armed None w j Sweep"
      using parts(9) armed(1) by (auto simp: timeout_ok_def)
    ultimately show ?thesis
      using parts(9) q(2) by (simp add: timeout_ok_def g1_def)
  qed
  ultimately have inv1: "lobby_inv P None {} g1"
    using parts(6,7) sched(5) unfolding g1_def
    by (intro lobby_invI) (simp_all add: match_ok_def expire_ok_def cong: if_cong)
  have "onMatch c g = tryMatch g1"
    by (simp add: onMatch_def so lobby push p_def [symmetric] Let_def add g1_def s1_def)
  then show ?thesis
    using that [OF q(2) out add g1_def [unfolded s1_def]] inv1 by blast
qed

lemma onMatch_inv:
  assumes inv: "lobby_inv P None {} g" and few: "card (waiting (matchQueue g)) \<le> 1"
  obtains g' where "onMatch c g = Some g'" "lobby_inv P None {} g'" "card (waiting (matchQueue g')) \<le> 1"
proof (cases "\<exists>s. sessionOf g c = Some s \<and> state s = kLobby")
  case True
  then obtain s where so: "sessionOf g c = Some s" and lobby: "state s = kLobby"
    by blast
  obtain q i w g1 where m: "waiting q = insert (playerId s) (waiting (matchQueue g))" "playerId s \<notin> waiting (matchQueue g)"
      "g1 = put_session (s\<lparr> state := kMatching \<rparr>) (playerId s) g\<lparr> matchQueue := q, wheel := w, matchTimer := (matchTimer g)(playerId s \<mapsto> i) \<rparr>"
      "onMatch c g = tryMatch g1" "lobby_inv P None {} g1"
    using match_request [OF inv so lobby refl] by metis
  have "finite (waiting (matchQueue g))"
    using lobby_invD(4) [OF inv] mq_inv_finite by (simp add: match_ok_def)
  then have "card (waiting (matchQueue g1)) \<le> 2"
    using few m(1,2) by (simp add: m(3))
  then show ?thesis
    using tryMatch_inv [OF m(5)] that m(4) by metis
next
  case False
  then have "onMatch c g = Some g"
    by (auto simp: onMatch_def split: option.split)
  then show ?thesis
    using that inv few by blast
qed

subsection \<open>The wheel\<close>

lemma fire_user: "wheel_user (wheel g) (wheel (fire now cb g))"
proof (cases cb)
  case (ExpireSession p)
  then show ?thesis
    using lobby_frameD(4) [OF runInLoop_frame]
    by (auto simp: expireSession_def Let_def user_refl split: option.split)
next
  case Sweep
  have "wheel_user (wheel g) (snd (TimerWheel.add (wheel g) 5000 Sweep))"
    by (intro user_add user_refl) simp
  then show ?thesis
    by (simp add: Sweep scheduleSweep_def sweepHeartbeats_def kSweepIntervalMs_def)
qed (auto simp: matchTimedOut_def Let_def user_refl split: option.split)

interpretation lobby_cb: timer_callbacks "run_cb now" for now
  by unfold_locales (use fire_user [of "_\<lparr> wheel := _ \<rparr>"] in \<open>simp add: run_cb_def Let_def\<close>)

definition lobby_core :: "timer_cb option \<Rightarrow> GameServer \<Rightarrow> bool" where
  "lobby_core x g \<longleftrightarrow> sess_ok g \<and> conn_ok g \<and> match_ok g \<and> room_ok g \<and> ends_ok {} g \<and> queues_ok g \<and>
     expire_ok x g \<and> timeout_ok x g \<and> card (waiting (matchQueue g)) \<le> 1"

lemma lobby_core: "lobby_inv P x {} g \<and> card (waiting (matchQueue g)) \<le> 1 \<longleftrightarrow> wheel_inv 1 P (wheel g) \<and> lobby_core x g"
  by (auto simp: lobby_inv_def lobby_core_def)

lemma core_clock:
  assumes "lobby_core x (g\<lparr> wheel := w \<rparr>)" "scheduled w' = scheduled w" "nowTick w \<le> nowTick w'"
  shows "lobby_core x (g\<lparr> wheel := w' \<rparr>)"
proof -
  have mono: "armed x w' i cb" if "armed x w i cb" for i cb
    using that assms(2,3) by (auto simp: armed_def)
  moreover have ex: "expire_ok x (g\<lparr> wheel := w \<rparr>)" "timeout_ok x (g\<lparr> wheel := w \<rparr>)"
    using assms(1) by (simp_all add: lobby_core_def)
  ultimately have "timeout_ok x (g\<lparr> wheel := w' \<rparr>)"
    unfolding timeout_ok_def by simp blast
  moreover have "expire_ok x (g\<lparr> wheel := w' \<rparr>)"
    unfolding expire_ok_def
  proof (intro conjI allI impI)
    fix q z
    assume "session (g\<lparr> wheel := w' \<rparr>) q = Some z"
    then show "if conn z = None then armed x (wheel (g\<lparr> wheel := w' \<rparr>)) (expireTimerId z) (ExpireSession q) else expireTimerId z = 0"
      using expire_facts(1) [OF ex(1), of q z] mono by (auto split: if_splits)
  qed (use expire_owner [OF ex(1)] assms(2) in simp_all)
  ultimately show ?thesis
    using assms(1) by (simp add: lobby_core_def)
qed

lemma core_take:
  assumes "lobby_core None (g\<lparr> wheel := w \<rparr>)" "scheduled w i = Some (t, c)"
  shows "lobby_core (Some c) (g\<lparr> wheel := w\<lparr> alive := alive w - {i} \<rparr> \<rparr>)"
proof -
  let ?g = "g\<lparr> wheel := w \<rparr>" and ?h = "g\<lparr> wheel := w\<lparr> alive := alive w - {i} \<rparr> \<rparr>"
  note keep = armed_take [OF _ assms(2)]
  have ex: "expire_ok None ?g" and tm: "timeout_ok None ?g"
    using assms(1) by (simp_all add: lobby_core_def)
  have "expire_ok (Some c) ?h"
    unfolding expire_ok_def
  proof (intro conjI allI impI)
    fix q z
    assume "session ?h q = Some z"
    then show "if conn z = None then armed (Some c) (wheel ?h) (expireTimerId z) (ExpireSession q) else expireTimerId z = 0"
      using expire_facts(1) [OF ex, of q z] keep by (auto split: if_splits)
  next
    fix j t' q
    assume "scheduled (wheel ?h) j = Some (t', ExpireSession q)"
    then have j: "scheduled (wheel ?g) j = Some (t', ExpireSession q)" "j \<noteq> i"
      by (simp_all add: scheduled_alive split: if_splits)
    from expire_owner(2) [OF ex j(1)] show z: "\<exists>z. session ?h q = Some z \<and> conn z = None \<and> expireTimerId z = j"
      by simp
    show "Some c \<noteq> Some (ExpireSession q)"
    proof
      assume "Some c = Some (ExpireSession q)"
      then have "scheduled (wheel ?g) i = Some (t, ExpireSession q)"
        using assms(2) by simp
      from expire_owner(2) [OF ex this] z j(2) show False
        by auto
    qed
  qed
  moreover have "timeout_ok (Some c) ?h"
    using tm keep unfolding timeout_ok_def by simp blast
  ultimately show ?thesis
    using assms(1) by (simp add: lobby_core_def)
qed

lemma fire_few: "card (waiting (matchQueue (fire now cb g))) \<le> card (waiting (matchQueue g))"
proof (cases cb)
  case (MatchTimeout p)
  have "card (waiting (matchQueue g) - {p}) \<le> card (waiting (matchQueue g))"
    by (rule card_Diff1_le)
  then show ?thesis
    by (auto simp: MatchTimeout matchTimedOut_def remove_def Let_def split: option.split)
next
  case (ExpireSession p)
  then show ?thesis
    using lobby_frameD(2) [OF runInLoop_frame] by (auto simp: expireSession_def Let_def split: option.split)
qed (simp add: scheduleSweep_def sweepHeartbeats_def)

interpretation lobby_tc: timer_client "run_cb now" "\<lambda>x w g. lobby_core x (g\<lparr> wheel := w \<rparr>)" for now
proof unfold_locales
  fix x :: "timer_cb option" and w w' :: "timer_cb TimerWheel" and g :: GameServer
  assume "lobby_core x (g\<lparr> wheel := w \<rparr>)" "scheduled w' = scheduled w" "nowTick w \<le> nowTick w'"
  then show "lobby_core x (g\<lparr> wheel := w' \<rparr>)"
    by (rule core_clock)
next
  fix w :: "timer_cb TimerWheel" and g :: GameServer and i t c
  assume "lobby_core None (g\<lparr> wheel := w \<rparr>)" "scheduled w i = Some (t, c)"
  then show "lobby_core (Some c) (g\<lparr> wheel := w\<lparr> alive := alive w - {i} \<rparr> \<rparr>)"
    by (rule core_take)
next
  fix P w c w' and g g' :: GameServer
  assume "wheel_inv 1 P w" "lobby_core (Some c) (g\<lparr> wheel := w \<rparr>)" and run: "run_cb now c (w, g) = (w', g')"
  then have "lobby_inv P (Some c) {} (g\<lparr> wheel := w \<rparr>)" "card (waiting (matchQueue g)) \<le> 1"
    using lobby_core [of P "Some c" "g\<lparr> wheel := w \<rparr>"] by simp_all
  then have "lobby_inv P None {} g'" "card (waiting (matchQueue g')) \<le> 1"
    using run fire_inv fire_few [of now c "g\<lparr> wheel := w \<rparr>"] by (auto simp: run_cb_def Let_def)
  then show "lobby_core None (g'\<lparr> wheel := w' \<rparr>)"
    using run lobby_core [of P None g'] by (auto simp: run_cb_def Let_def)
qed

subsection \<open>All steps\<close>

definition gs_inv :: "GameServer \<Rightarrow> bool" where
  "gs_inv g \<longleftrightarrow> lobby_inv [] None {} g \<and> card (waiting (matchQueue g)) \<le> 1"

lemma startServer_inv: "gs_inv (startServer hyp n b)"
proof -
  let ?g = "\<lparr> hypotf = hyp, gamePool = pool_start Suc n (newPool 0), writerOn = b, connToPlayer = Map.empty,
    sessions = [], rooms = {}, matchQueue = newMatchQueue, matchTimer = Map.empty, wheel = newTimerWheel,
    nextPlayerId = 1, nextRoomId = 1, roomHeap = Map.empty, loopQ = (\<lambda>_. []), roomEnds = [],
    out = (if b then [Enqueue ConnectStores] else []) \<rparr>"
  have none: "scheduled newTimerWheel i = None" for i
    by (simp add: scheduled_def newTimerWheel_def)
  have "lobby_inv [] (Some Sweep) {} ?g"
    using wheel_inv_new newMatchQueue_inv
    by (simp add: lobby_inv_def lobby_parts none armed_def)
  from scheduleSweep_inv [OF this] have "gs_inv (scheduleSweep ?g)"
    using newMatchQueue_inv by (simp add: gs_inv_def) (simp add: scheduleSweep_def)
  then show ?thesis
    by (simp add: startServer_def)
qed

lemma lobby_exec_inv:
  assumes "gs_inv g"
  obtains g' where "lobby_exec now req g = Some g'" "gs_inv g'"
proof -
  have inv: "lobby_inv [] None {} g" and few: "card (waiting (matchQueue g)) \<le> 1"
    using assms by (simp_all add: gs_inv_def)
  show ?thesis
  proof (cases req)
    case (ReqMatch c)
    obtain g' where "onMatch c g = Some g'" "lobby_inv [] None {} g'" "card (waiting (matchQueue g')) \<le> 1"
      using onMatch_inv [OF inv few] .
    then show ?thesis
      using that by (simp add: ReqMatch gs_inv_def)
  next
    case (ReqLogin c rng acc)
    then show ?thesis
      using that onLogin_inv [OF inv, of now rng c acc] few by (simp add: gs_inv_def onLogin_def Let_def)
  next
    case (ReqReconnect c p tok)
    have "matchQueue (onReconnect now c p tok g) = matchQueue g"
      using lobby_frameD(2) [OF runInLoop_frame] by (simp add: onReconnect_def Let_def split: option.split)
    then show ?thesis
      using that onReconnect_inv [OF inv, of now c p tok] few by (simp add: ReqReconnect gs_inv_def)
  next
    case (ReqInput c inp)
    have "matchQueue (onInput c inp g) = matchQueue g"
      using lobby_frameD(2) [OF runInLoop_frame] by (simp add: onInput_def split: option.split)
    then show ?thesis
      using that onInput_inv [OF inv, of c inp] few by (simp add: ReqInput gs_inv_def)
  next
    case (ReqHeartbeat c hb)
    then show ?thesis
      using that onHeartbeat_inv [OF inv, of now c hb] few by (simp add: gs_inv_def onHeartbeat_def split: option.split)
  next
    case (Disconnected c)
    have "waiting (matchQueue (onDisconnect c g)) \<subseteq> waiting (matchQueue g)"
      using lobby_frameD(2) [OF runInLoop_frame]
      by (auto simp: onDisconnect_def Let_def remove_def split: option.split prod.split)
    moreover have "finite (waiting (matchQueue g))"
      using lobby_invD(4) [OF inv] mq_inv_finite by (simp add: match_ok_def)
    ultimately have "card (waiting (matchQueue (onDisconnect c g))) \<le> card (waiting (matchQueue g))"
      by (rule card_mono [rotated])
    then show ?thesis
      using that onDisconnect_inv [OF inv, of c] few by (simp add: Disconnected gs_inv_def)
  qed
qed

lemma advanceWheel_inv:
  assumes "gs_inv g"
  shows "gs_inv (advanceWheel now g)"
proof -
  have w: "wheel_inv 1 [] (wheel g)" "lobby_core None (g\<lparr> wheel := wheel g \<rparr>)"
    using assms lobby_core [of "[]" None g] by (simp_all add: gs_inv_def)
  obtain fired w' g' where adv: "advance (run_cb now) 100 (wheel g, g) = (fired, w', g')"
    by (metis prod.exhaust)
  show ?thesis
    using lobby_tc.advance_inv [OF w adv] lobby_core [of "[]" None "g'\<lparr> wheel := w' \<rparr>"]
    by (simp add: advanceWheel_def adv gs_inv_def)
qed

lemma take_task_inv:
  assumes inv: "lobby_inv P x {} g" and q: "loopQ g l = e # q"
  shows "lobby_inv P x {} (g\<lparr> loopQ := (loopQ g)(l := q) \<rparr>)"
proof -
  note parts = lobby_invD [OF inv]
  have "set q \<subseteq> set (loopQ g l)"
    using q by auto
  then have "queues_ok (g\<lparr> loopQ := (loopQ g)(l := q) \<rparr>)"
    using parts(7) unfolding queues_ok_def by simp blast
  then show ?thesis
    using parts by (intro lobby_invI) simp_all
qed

lemma gs_step_inv:
  assumes "gs_inv g" "gs_step g g'"
  shows "gs_inv g'"
  using assms(2)
proof cases
  case (gs_request now req)
  then show ?thesis
    using lobby_exec_inv [OF assms(1), of now req] by auto
next
  case (gs_wheel now)
  then show ?thesis
    using advanceWheel_inv [OF assms(1)] by simp
next
  case (gs_room_end rid w q)
  then show ?thesis
    using onRoomEnd_inv [OF take_end_inv] assms(1) by (auto simp: gs_inv_def)
next
  case (gs_room_task l rid t q)
  have "lobby_inv [] None {} (g\<lparr> loopQ := (loopQ g)(l := q) \<rparr>)"
    using take_task_inv [OF _ gs_room_task(2)] assms(1) by (simp add: gs_inv_def)
  moreover have "t \<noteq> TStop \<and> (\<exists>r. roomHeap g rid = Some (l, r))"
    using assms(1) gs_room_task(2) unfolding gs_inv_def lobby_inv_def queues_ok_def by (metis list.set_intros(1))
  ultimately have "lobby_inv [] None {} g'"
    using runTask_inv gs_room_task(1) by auto
  moreover have "matchQueue g' = matchQueue g"
    using lobby_frameD(2) [OF runTask_frame] gs_room_task(1) by simp
  ultimately show ?thesis
    using assms(1) by (simp add: gs_inv_def)
next
  case (gs_room_tick rid l r)
  then have "lobby_inv [] None {} g'" "matchQueue g' = matchQueue g"
    using runTask_inv assms(1) lobby_frameD(2) [OF runTask_frame] by (auto simp: gs_inv_def)
  then show ?thesis
    using assms(1) by (simp add: gs_inv_def)
qed

interpretation gs_ts: transition_system "\<lambda>g. \<exists>hyp n b. g = startServer hyp n b" gs_step .

lemma reach_inv: "gs_ts.reach g \<Longrightarrow> gs_inv g"
  by (rule gs_ts.reach_invariant [of gs_inv]) (auto simp: startServer_inv gs_step_inv)

end
