(* ===== verification/Lobby.thy ===== *)
theory Lobby
  imports LobbyInv
begin

text \<open>
  The properties of the game server that follow from its invariant: the consistency of its
  tables, totality of the handlers, reconnection, expiry, the end of a battle, the heartbeat
  sweep and the session tokens; and the behaviours in which it falls short of its own comments.
\<close>

subsection \<open>A concrete server\<close>

text \<open>Two players log in on connections 10 and 20; used by the witnesses.\<close>

definition hyp0 :: "float32 \<Rightarrow> float32 \<Rightarrow> float32" where
  "hyp0 x y = x"

definition demo0 :: GameServer where
  "demo0 = startServer hyp0 1 True"

definition demo1 :: GameServer where
  "demo1 = onLogin 0 (1, 2) 10 ''ann'' demo0"

definition demo2 :: GameServer where
  "demo2 = onDisconnect 10 demo1"

lemma demo_reach: "gs_ts.reach demo0" "gs_ts.reach demo1" "gs_ts.reach demo2"
proof -
  show 0: "gs_ts.reach demo0"
    by (rule gs_ts.reach_init) (auto simp: demo0_def)
  have "lobby_exec 0 (ReqLogin 10 (1, 2) ''ann'') demo0 = Some demo1"
    by (simp add: demo1_def)
  then show 1: "gs_ts.reach demo1"
    by (rule gs_ts.reach_step [OF 0 gs_request])
  have "lobby_exec 0 (Disconnected 10) demo1 = Some demo2"
    by (simp add: demo2_def)
  then show "gs_ts.reach demo2"
    by (rule gs_ts.reach_step [OF 1 gs_request])
qed

lemma demo1_fields:
  "session demo1 (Suc 0) = Some \<lparr> playerId = 1, token = genToken 1 2, account = ''ann'', conn = Some 10, roomId = 0,
     state = kLobby, lastHeartbeatMs = 0, expireTimerId = 0 \<rparr>"
  "connToPlayer demo1 = [10 \<mapsto> Suc 0]" "matchQueue demo1 = newMatchQueue"
  by (simp_all add: demo1_def demo0_def onLogin_def startServer_def scheduleSweep_def Let_def put_session_def)

lemma demo2_fields:
  "\<exists>s. session demo2 (Suc 0) = Some s \<and> conn s = None \<and> token s = genToken 1 2"
  by (simp add: demo2_def onDisconnect_def demo1_fields Let_def map_of_umap_map put_session_def map_of_update
      split: prod.split)

lemma runInLoop_out: "\<exists>es. out (runInLoop rid t g) = out g @ es"
proof -
  have cb: "\<exists>es. out (room_callback l rid e g) = out g @ es" for l e g
    by (cases e) (auto simp: onRoomEnd_def enqueue_def Let_def split: prod.split)
  have "\<exists>os. out (fold (room_callback l rid) es g) = out g @ os" for l es g
  proof (induction es arbitrary: g)
    case (Cons e es)
    then show ?case
      using cb [of l e g] by (metis append.assoc fold_simps(2))
  qed simp
  from this [of _ _ "g\<lparr> roomHeap := _ \<rparr>"] show ?thesis
    by (auto simp: runInLoop_def runTask_def split: option.split prod.split)
qed

subsection \<open>Consistency\<close>



text \<open>
  Every task the IO threads can post runs to completion in every reachable state: match making
  never reads the front of an empty deque and the sessions it pairs exist. After each task at most one
  player is left waiting, so nobody waits while an opponent is available.
\<close>

theorem lobby_tasks_complete:
  assumes "gs_ts.reach g"
  shows "\<exists>g'. lobby_exec now req g = Some g' \<and> card (waiting (matchQueue g')) \<le> 1"
  using lobby_exec_inv [OF reach_inv [OF assms], of now req] by (auto simp: gs_inv_def)

theorem lobby_tasks_complete_witness:
  "\<exists>g'. lobby_exec 0 (ReqMatch 10) demo1 = Some g' \<and> card (waiting (matchQueue g')) \<le> 1"
  using lobby_tasks_complete [OF demo_reach(2), of 0 "ReqMatch 10"] .

lemma onReconnect_accept:
  assumes inv: "lobby_inv [] None {} g" and s: "session g p = Some s" "conn s = None"
    and g': "g' = onReconnect now c p (token s) g"
  obtains s' where "session g' p = Some s'" "conn s' = Some c" "token s' = token s" "connToPlayer g' c = Some p"
    "ToConn c kLoginResp (loginResp 0 p (token s)) \<in> set (out g')"
proof -
  have pid: "playerId s = p"
    using sess_okD(1) [OF lobby_invD(2) [OF inv] s(1)] .
  define s1 where "s1 = s\<lparr> expireTimerId := 0, conn := Some c, lastHeartbeatMs := now \<rparr>"
  have nz: "expireTimerId s \<noteq> 0"
    using cancel_expire_ok(2) [OF inv s] .
  define w where "w = cancel (wheel g) (expireTimerId s)"
  define g1 where "g1 = emit [ToConn c kLoginResp (loginResp 0 p (token s))]
    (put_session s1 p g\<lparr> wheel := w, connToPlayer := (connToPlayer g)(c \<mapsto> p) \<rparr>)"
  define g2 where "g2 = (if state s = kInRoom \<and> roomId s \<in> rooms g
    then runInLoop (roomId s) (TRebind p (Some c)) g1 else g1)"
  have eq: "g' = enqueue (SetOnline (account s)) g2"
    using s pid nz unfolding g' onReconnect_def g2_def g1_def w_def s1_def by (simp add: Let_def)
  have fr: "lobby_frame g1 g2"
    by (simp add: g2_def runInLoop_frame)
  obtain s2 where s2: "session g2 p = Some s2" "conn s2 = Some c" "token s2 = token s"
    using lobby_frame_session [OF fr, of p s1] by (auto simp: g1_def s1_def)
  have "\<exists>es. out g2 = out g1 @ es"
    using runInLoop_out [of "roomId s" "TRebind p (Some c)" g1] by (simp add: g2_def)
  then show ?thesis
    using that [of s2] eq s2 lobby_frameD(1) [OF fr] by (auto simp: g1_def enqueue_def)
qed

text \<open>
  C17. A reconnection is accepted exactly when the session exists, the token matches and no connection
  is bound to it. On acceptance the new connection is bound and answered, no expiry timer of the
  player is left, and a player in a room is rebound there; on rejection nothing changes, the
  caller is answered with code 1 and its connection is shut.
\<close>

theorem reconnect_exact:
  assumes reach: "gs_ts.reach g" and g': "g' = onReconnect now c p tok g"
  shows "if \<exists>s. session g p = Some s \<and> token s = tok \<and> conn s = None
    then (\<exists>s'. session g' p = Some s' \<and> conn s' = Some c \<and> token s' = tok) \<and>
      connToPlayer g' c = Some p \<and> \<not> (\<exists>i t. scheduled (wheel g') i = Some (t, ExpireSession p)) \<and>
      ToConn c kLoginResp (loginResp 0 p tok) \<in> set (out g')
    else g' = emit [ToConn c kLoginResp (loginResp 1 0 []), ShutdownConn c] g"
proof (cases "\<exists>s. session g p = Some s \<and> token s = tok \<and> conn s = None")
  case True
  then obtain s where s: "session g p = Some s" "token s = tok" "conn s = None"
    by blast
  have inv: "lobby_inv [] None {} g"
    using reach_inv [OF reach] by (simp add: gs_inv_def)
  obtain s' where s': "session g' p = Some s'" "conn s' = Some c" "token s' = tok" "connToPlayer g' c = Some p"
      "ToConn c kLoginResp (loginResp 0 p tok) \<in> set (out g')"
    using onReconnect_accept [OF inv s(1,3)] g' s(2) by metis
  moreover have "\<not> (\<exists>i t. scheduled (wheel g') i = Some (t, ExpireSession p))"
    using session_facts(6) [OF onReconnect_inv [OF inv, of now c p tok, folded g'] s'(1)] s'(2) by auto
  ultimately show ?thesis
    using True by auto
next
  case False
  then show ?thesis
    by (auto simp: g' onReconnect_def split: option.split)
qed

theorem reconnect_exact_witness:
  "connToPlayer (onReconnect 5 30 (Suc 0) (genToken 1 2) demo2) 30 = Some (Suc 0)"
  using reconnect_exact [OF demo_reach(3) refl, where now = 5 and c = 30 and p = "Suc 0" and tok = "genToken 1 2"]
    demo2_fields by (simp split: if_splits)

subsection \<open>Expiry of disconnected sessions\<close>

text \<open>What a step leaves of the connection and the expiry timer of a player \<open>p\<close> it does not bind or unbind.\<close>

definition same_contact :: "Session \<Rightarrow> Session \<Rightarrow> bool" where
  "same_contact s s' \<longleftrightarrow> conn s' = conn s \<and> expireTimerId s' = expireTimerId s"

definition keeps :: "nat \<Rightarrow> GameServer \<Rightarrow> GameServer \<Rightarrow> bool" where
  "keeps p g g' \<longleftrightarrow> rel_option same_contact (session g p) (session g' p) \<and>
     (\<forall>i t. scheduled (wheel g) i = Some (t, ExpireSession p) \<longrightarrow> scheduled (wheel g') i = Some (t, ExpireSession p)) \<and>
     (\<forall>c. connToPlayer g' c = Some p \<longrightarrow> connToPlayer g c = Some p) \<and> nextPlayerId g \<le> nextPlayerId g'"

lemma rel_contact_refl [simp]: "rel_option same_contact a a" "same_contact s s"
  by (auto simp: same_contact_def intro!: option.rel_refl)

lemma keeps_refl [simp]: "keeps p g g"
  by (simp add: keeps_def)

lemma keeps_trans:
  assumes "keeps p g g'" "keeps p g' g''"
  shows "keeps p g g''"
proof -
  have "rel_option same_contact a c" if "rel_option same_contact a b" "rel_option same_contact b c" for a b c
    using that by (cases a; cases b; cases c) (simp_all add: same_contact_def)
  then show ?thesis
    using assms unfolding keeps_def by (meson le_trans)
qed

lemma frame_keeps: "lobby_frame g g' \<Longrightarrow> keeps p g g'"
proof -
  assume fr: "lobby_frame g g'"
  then have "rel_option same_player (session g p) (session g' p)"
    by (simp add: lobby_frame_def)
  then have "rel_option same_contact (session g p) (session g' p)"
    by (rule option.rel_mono_strong) (simp add: same_player_def same_contact_def)
  then show ?thesis
    using lobby_frameD(1,4,5) [OF fr] by (simp add: keeps_def)
qed

lemma keeps_emit [simp]: "keeps p g (emit es g') = keeps p g g'" "keeps p g (enqueue t g') = keeps p g g'"
  by (simp_all add: keeps_def)

text \<open>An update that changes neither the connection nor the timer of the session, or concerns another player.\<close>

lemma keeps_put:
  assumes "q \<noteq> p \<or> (\<exists>z. session g p = Some z \<and> same_contact z s)"
  shows "keeps p g (put_session s q g)"
  using assms by (auto simp: keeps_def)

lemma keeps_fields:
  "keeps p g (g'\<lparr> matchQueue := u1 \<rparr>) = keeps p g g'" "keeps p g (g'\<lparr> matchTimer := u2 \<rparr>) = keeps p g g'"
  "keeps p g (g'\<lparr> nextRoomId := u4 \<rparr>) = keeps p g g'"
  "keeps p g (g'\<lparr> gamePool := u5 \<rparr>) = keeps p g g'" "keeps p g (g'\<lparr> rooms := u6 \<rparr>) = keeps p g g'"
  "keeps p g (g'\<lparr> roomHeap := u7 \<rparr>) = keeps p g g'"
  by (simp_all add: keeps_def)

lemma keeps_wheel_add:
  assumes "wheel_inv 1 P (wheel g)" "d \<le> 30000" "TimerWheel.add (wheel g) d c = (i, w)"
  shows "keeps p g (g\<lparr> wheel := w \<rparr>)"
  using add_sched [OF assms] by (auto simp: keeps_def)

lemma keeps_cancelMatchTimer:
  assumes "timers_armed P g"
  shows "keeps p g (cancelMatchTimer q g)"
proof (cases "matchTimer g q")
  case (Some i)
  obtain t where "scheduled (wheel g) i = Some (t, MatchTimeout q)"
    using assms Some by (auto simp: timers_armed_def armed_def)
  then show ?thesis
    by (auto simp: keeps_def cancelMatchTimer_def Some scheduled_cancel)
qed (simp add: cancelMatchTimer_def)

lemma tryMatch_keeps:
  assumes inv: "lobby_inv P None {} g" and tm: "tryMatch g = Some g'"
  shows "keeps p g g'"
proof -
  have enter: "keeps p g (enter rid q g)" for rid q and g :: GameServer
    by (auto simp: enter_def same_contact_def intro!: keeps_put split: option.split)
  have armed: "timers_armed P (g\<lparr> matchQueue := q \<rparr>)" for q
    using lobby_invD(1,8,9) [OF inv] by (simp add: timers_armed_def timeout_ok_def)
  have q: "keeps p g (g\<lparr> matchQueue := q \<rparr>)" for q
    by (simp add: keeps_fields)
  have seated: "keeps p g (runInLoop rid TStart (enter rid b (enter rid a
      (cancelMatchTimer b (cancelMatchTimer a (g\<lparr> matchQueue := q \<rparr>))\<lparr> nextRoomId := n, gamePool := pool, rooms := R, roomHeap := h \<rparr>))))"
    for rid a b q n pool R h
  proof -
    have "keeps p g (cancelMatchTimer b (cancelMatchTimer a (g\<lparr> matchQueue := q \<rparr>)))"
      using q keeps_cancelMatchTimer cancelMatchTimer_armed armed by (meson keeps_trans)
    then have "keeps p g (cancelMatchTimer b (cancelMatchTimer a (g\<lparr> matchQueue := q \<rparr>))\<lparr> nextRoomId := n, gamePool := pool, rooms := R, roomHeap := h \<rparr>)"
      by (simp add: keeps_fields)
    then show ?thesis
      using enter frame_keeps [OF runInLoop_frame] by (meson keeps_trans)
  qed
  show ?thesis
    using tm seated q unfolding tryMatch_def
    by (auto simp: Let_def split: option.splits prod.splits)
qed

fun binds :: "nat \<Rightarrow> lobby_req \<Rightarrow> GameServer \<Rightarrow> bool" where
  "binds p (Disconnected c) g = (connToPlayer g c = Some p)"
| "binds p (ReqReconnect c q tok) g = (q = p \<and> (\<exists>s. session g p = Some s \<and> token s = tok \<and> conn s = None))"
| "binds p _ g = False"

lemma onReconnect_keeps:
  assumes inv: "lobby_inv P None {} g" and nb: "\<not> binds p (ReqReconnect c q tok) g"
  shows "keeps p g (onReconnect now c q tok g)"
proof (cases "\<exists>s. session g q = Some s \<and> token s = tok \<and> conn s = None")
  case True
  then obtain s where s: "session g q = Some s" "token s = tok" "conn s = None"
    by blast
  have qp: "q \<noteq> p"
    using nb s by auto
  obtain t where t: "scheduled (wheel g) (expireTimerId s) = Some (t, ExpireSession q)"
    using session_facts(5) [OF inv s(1)] s(3) by (auto simp: armed_def)
  have pid: "playerId s = q"
    using sess_okD(1) [OF lobby_invD(2) [OF inv] s(1)] .
  have nz: "expireTimerId s \<noteq> 0"
    using cancel_expire_ok(2) [OF inv s(1,3)] .
  have "keeps p g (put_session z q g\<lparr> wheel := cancel (wheel g) (expireTimerId s), connToPlayer := (connToPlayer g)(c \<mapsto> q) \<rparr>)" for z
    using qp t by (auto simp: keeps_def scheduled_cancel)
  then show ?thesis
    using s pid nz keeps_trans [OF _ frame_keeps [OF runInLoop_frame]] by (simp add: onReconnect_def Let_def)
next
  case False
  then show ?thesis
    by (auto simp: onReconnect_def split: option.split)
qed

lemma onDisconnect_keeps:
  assumes inv: "lobby_inv P None {} g" and nb: "connToPlayer g c \<noteq> Some p"
  shows "keeps p g (onDisconnect c g)"
proof (cases "connToPlayer g c")
  case (Some q)
  then obtain s where s: "session g q = Some s"
    using lobby_invD(3) [OF inv] by (auto simp: conn_ok_def)
  have qp: "q \<noteq> p"
    using nb Some by simp
  define s1 where "s1 = (if state s = kMatching then s\<lparr> conn := None, state := kLobby \<rparr> else s\<lparr> conn := None \<rparr>)"
  define u where "u = (if state s = kMatching then remove (matchQueue g) q else matchQueue g)"
  define g1 where "g1 = put_session s1 q g\<lparr> connToPlayer := (connToPlayer g)(c := None), matchQueue := u \<rparr>"
  define g2 where "g2 = (if state s1 = kInRoom \<and> roomId s1 \<in> rooms g1 then runInLoop (roomId s1) (TDrop q) g1 else g1)"
  obtain i w where add: "TimerWheel.add (wheel g2) kSessionKeepMs (ExpireSession q) = (i, w)"
    by fastforce
  let ?f = "\<lambda>q' z. if q' = q then z\<lparr> expireTimerId := i \<rparr> else z"
  have fr: "lobby_frame g1 g2"
    by (simp add: g2_def runInLoop_frame)
  have "keeps p g g1"
    using qp by (auto simp: keeps_def g1_def)
  then have "keeps p g g2"
    using keeps_trans frame_keeps [OF fr] by blast
  moreover have "wheel_inv 1 P (wheel g2)"
    using lobby_invD(1) [OF inv] lobby_frameD(4) [OF fr] by (simp add: g1_def)
  then have "keeps p g2 (g2\<lparr> wheel := w \<rparr>)"
    by (rule keeps_wheel_add [OF _ _ add]) (simp add: kSessionKeepMs_def)
  then have "keeps p g2 (g2\<lparr> wheel := w, sessions := umap_map ?f (sessions g2) \<rparr>)"
    using qp by (simp add: keeps_def map_of_umap_map option.rel_map)
  ultimately show ?thesis
    using onDisconnect_eq [OF Some s s1_def u_def g1_def g2_def add] keeps_trans by simp
qed (simp add: onDisconnect_def)

lemma lobby_exec_keeps:
  assumes inv: "lobby_inv P None {} g" and p: "p < nextPlayerId g" and nb: "\<not> binds p req g"
    and ex: "lobby_exec now req g = Some g'"
  shows "keeps p g g'"
proof (cases req)
  case (ReqLogin c rng acc)
  then show ?thesis
    using ex p by (auto simp: onLogin_def Let_def keeps_def split: if_splits)
next
  case (ReqReconnect c q tok)
  then show ?thesis
    using ex onReconnect_keeps [OF inv] nb by auto
next
  case (ReqMatch c)
  show ?thesis
  proof (cases "\<exists>s. sessionOf g c = Some s \<and> state s = kLobby")
    case True
    then obtain s where so: "sessionOf g c = Some s" "state s = kLobby"
      by blast
    obtain q i w g1 where m: "TimerWheel.add (wheel g) kMatchTimeoutMs (MatchTimeout (playerId s)) = (i, w)"
        "g1 = put_session (s\<lparr> state := kMatching \<rparr>) (playerId s) g\<lparr> matchQueue := q, wheel := w, matchTimer := (matchTimer g)(playerId s \<mapsto> i) \<rparr>"
        "onMatch c g = tryMatch g1" "lobby_inv P None {} g1"
      using match_request [OF inv so refl] by metis
    have "keeps p g (put_session (s\<lparr> state := kMatching \<rparr>) (playerId s) g)"
      using sessionOf_Some(2) [OF inv so(1)] by (intro keeps_put) (auto simp: same_contact_def)
    moreover have "keeps p g (g\<lparr> wheel := w \<rparr>)"
      by (rule keeps_wheel_add [OF lobby_invD(1) [OF inv] _ m(1)]) (simp add: kMatchTimeoutMs_def)
    ultimately have "keeps p g g1"
      by (simp add: m(2) keeps_def)
    then show ?thesis
      using tryMatch_keeps [OF m(4)] ex m(3) keeps_trans by (simp add: ReqMatch)
  next
    case False
    then have "onMatch c g = Some g"
      by (auto simp: onMatch_def split: option.split)
    then show ?thesis
      using ex by (simp add: ReqMatch)
  qed
next
  case (ReqInput c inp)
  then show ?thesis
    using ex frame_keeps [OF runInLoop_frame] by (auto simp: onInput_def split: option.splits if_splits)
next
  case (ReqHeartbeat c hb)
  then show ?thesis
    using ex sessionOf_Some(2) [OF inv, of c]
    by (auto simp: onHeartbeat_def same_contact_def intro!: keeps_put split: option.split)
next
  case (Disconnected c)
  then show ?thesis
    using ex onDisconnect_keeps [OF inv] nb by auto
qed

text \<open>Player \<open>p\<close> is disconnected and its session names timer \<open>i\<close>, due at tick \<open>t\<close>, or it has no session.\<close>

definition due_at :: "nat \<Rightarrow> nat \<Rightarrow> nat \<Rightarrow> timer_cb option \<Rightarrow> timer_cb TimerWheel \<Rightarrow> GameServer \<Rightarrow> bool" where
  "due_at p i t x w g \<longleftrightarrow> p < nextPlayerId g \<and> (\<forall>s. session g p = Some s \<longrightarrow> conn s = None \<and> expireTimerId s = i \<and>
     (x = Some (ExpireSession p) \<or> scheduled w i = Some (t, ExpireSession p)))"

lemma fire_sessions:
  "if cb = ExpireSession p \<and> (\<exists>s. session g p = Some s \<and> conn s = None) then session (fire now cb g) p = None
   else rel_option same_contact (session g p) (session (fire now cb g) p)"
proof -
  have fr: "rel_option same_contact (session g p) (session (runInLoop rid t g) p)" for rid t
    using frame_keeps [OF runInLoop_frame, of p g rid t] by (simp add: keeps_def)
  show ?thesis
  proof (cases cb)
    case (MatchTimeout q)
    then show ?thesis
      by (auto simp: matchTimedOut_def Let_def same_contact_def split: option.split)
  next
    case (ExpireSession q)
    then show ?thesis
      using fr by (cases "q = p") (auto simp: expireSession_def Let_def map_of_delete split: option.split)
  next
    case Sweep
    then show ?thesis
      by (simp add: scheduleSweep_def sweepHeartbeats_def)
  qed
qed

lemma fire_ids: "nextPlayerId (fire now cb g) = nextPlayerId g" "connToPlayer (fire now cb g) = connToPlayer g"
  using lobby_frameD(1,5) [OF runInLoop_frame]
  by (cases cb; auto simp: matchTimedOut_def expireSession_def scheduleSweep_def sweepHeartbeats_def Let_def split: option.split)+

lemma fire_scheduled:
  assumes "wheel_inv 1 P (wheel g)" "scheduled (wheel g) i = Some v"
  shows "scheduled (wheel (fire now cb g)) i = Some v"
proof (cases cb)
  case (MatchTimeout q)
  then show ?thesis
    using assms by (auto simp: matchTimedOut_def Let_def split: option.split)
next
  case (ExpireSession q)
  then show ?thesis
    using assms lobby_frameD(4) [OF runInLoop_frame] by (auto simp: expireSession_def Let_def split: option.split)
next
  case Sweep
  obtain j w where add: "TimerWheel.add (wheel g) kSweepIntervalMs Sweep = (j, w)"
    by fastforce
  have "kSweepIntervalMs \<le> 30000"
    by (simp add: kSweepIntervalMs_def)
  from add_sched(2,3) [OF assms(1) this add] have "scheduled w i = Some v"
    using assms(2) by auto
  then show ?thesis
    by (simp add: Sweep scheduleSweep_def sweepHeartbeats_def add)
qed

interpretation due_tc: timer_client "run_cb now" "due_at p i t" for now p i t
proof unfold_locales
  fix x w w' and g :: GameServer
  assume "due_at p i t x w g" "scheduled w' = scheduled w"
  then show "due_at p i t x w' g"
    by (simp add: due_at_def)
next
  fix w and g :: GameServer and j t' c
  assume d: "due_at p i t None w g" and j: "scheduled w j = Some (t', c)"
  show "due_at p i t (Some c) (w\<lparr> alive := alive w - {j} \<rparr>) g"
    using d j by (cases "i = j") (auto simp: due_at_def scheduled_alive)
next
  fix P w c w' and g g' :: GameServer
  assume w: "wheel_inv 1 P w" and d: "due_at p i t (Some c) w g" and run: "run_cb now c (w, g) = (w', g')"
  let ?g = "g\<lparr> wheel := w \<rparr>"
  have g': "g' = fire now c ?g" "w' = wheel g'"
    using run by (auto simp: run_cb_def Let_def)
  have "conn s' = None \<and> expireTimerId s' = i \<and> scheduled w' i = Some (t, ExpireSession p)" if s': "session g' p = Some s'" for s'
  proof -
    have "c \<noteq> ExpireSession p \<or> (\<forall>s. session g p = Some s \<longrightarrow> conn s \<noteq> None)"
        "rel_option same_contact (session g p) (Some s')"
      using fire_sessions [of c p ?g now] s' g'(1) by (auto split: if_splits)
    then obtain s where s: "session g p = Some s" "same_contact s s'" "c \<noteq> ExpireSession p \<or> conn s \<noteq> None"
      by (auto simp: option_rel_Some2)
    then have "conn s = None" "expireTimerId s = i" "scheduled w i = Some (t, ExpireSession p)"
      using d by (auto simp: due_at_def)
    then show ?thesis
      using s(2) fire_scheduled [of P ?g i "(t, ExpireSession p)" now c] w g' by (auto simp: same_contact_def)
  qed
  moreover have "p < nextPlayerId g'"
    using d by (simp add: g'(1) fire_ids due_at_def)
  ultimately show "due_at p i t None w' g'"
    by (simp add: due_at_def)
qed

lemma advanceWheel_due:
  assumes "gs_inv g" "due_at p i t None (wheel g) g"
  shows "due_at p i t None (wheel (advanceWheel now g)) (advanceWheel now g)"
proof -
  have w: "wheel_inv 1 [] (wheel g)"
    using assms(1) by (simp add: gs_inv_def lobby_inv_def)
  obtain fired w' g' where adv: "advance (run_cb now) 100 (wheel g, g) = (fired, w', g')"
    by (metis prod.exhaust)
  show ?thesis
    using due_tc.advance_inv [OF w assms(2) adv] by (simp add: advanceWheel_def adv due_at_def)
qed

lemma step_due:
  assumes inv: "gs_inv g" and due: "due_at p i t None (wheel g) g" and st: "gs_step g g'"
    and away: "\<forall>s. session g' p = Some s \<longrightarrow> conn s = None"
  shows "due_at p i t None (wheel g') g'"
proof -
  have kept: "due_at p i t None (wheel g') g'" if "keeps p g g'"
  proof -
    have "rel_option same_contact (session g p) (session g' p)"
      using that by (simp add: keeps_def)
    then show ?thesis
      using that due by (cases "session g p"; cases "session g' p") (auto simp: keeps_def due_at_def same_contact_def)
  qed
  show ?thesis
    using st
  proof cases
    case (gs_request now req)
    have li: "lobby_inv [] None {} g"
      using inv by (simp add: gs_inv_def)
    have "connToPlayer g c \<noteq> Some p" for c
      using lobby_invD(3) [OF li] due unfolding conn_ok_def due_at_def by force
    moreover have "False" if rq: "req = ReqReconnect c p tok" and ac: "\<exists>s. session g p = Some s \<and> token s = tok \<and> conn s = None" for c tok
    proof -
      obtain s where s: "session g p = Some s" "conn s = None" "tok = token s"
        using ac by auto
      obtain s' where "session g' p = Some s'" "conn s' = Some c"
        using onReconnect_accept [OF li s(1,2), of g' now c] gs_request rq s(3) by auto
      then show False
        using away by simp
    qed
    ultimately have "\<not> binds p req g"
      by (cases req) (simp_all, metis not_None_eq)
    then show ?thesis
      using lobby_exec_keeps [OF li _ _ gs_request] due kept by (simp add: due_at_def)
  next
    case (gs_wheel now)
    then show ?thesis
      using advanceWheel_due [OF inv due] by simp
  next
    case (gs_room_end rid w q)
    then show ?thesis
      using due by (auto simp: due_at_def map_of_umap_map)
  next
    case (gs_room_task l rid t q)
    have "keeps p (g\<lparr> loopQ := (loopQ g)(l := q) \<rparr>) g'"
      unfolding gs_room_task(1) by (rule frame_keeps [OF runTask_frame])
    then show ?thesis
      using kept by (simp add: keeps_def)
  next
    case (gs_room_tick rid l r)
    then show ?thesis
      using kept frame_keeps [OF runTask_frame] by simp
  qed
qed

text \<open>
  C18. A session that stays disconnected is destroyed within 30 seconds of the wheel. Whatever else the
  server does meanwhile, when the wheel has advanced 300 ticks of 100 ms and no reconnection of the
  player has succeeded, the session is gone.
\<close>

theorem disconnected_session_removed:
  assumes reach: "gs_ts.reach g" and s: "session g p = Some s" "conn s = None"
    and run: "(\<lambda>a b. gs_step a b \<and> (\<forall>z. session b p = Some z \<longrightarrow> conn z = None))\<^sup>*\<^sup>* g g'"
    and ticks: "nowTick (wheel g) + 300 \<le> nowTick (wheel g')"
  shows "session g' p = None"
proof -
  have inv: "lobby_inv [] None {} g"
    using reach_inv [OF reach] by (simp add: gs_inv_def)
  obtain t where t: "scheduled (wheel g) (expireTimerId s) = Some (t, ExpireSession p)" "t \<le> nowTick (wheel g) + 300"
    using session_facts(5) [OF inv s(1)] s(2) by (auto simp: armed_def)
  have "due_at p (expireTimerId s) t None (wheel g) g"
    using s t(1) sess_okD(3) [OF lobby_invD(2) [OF inv] s(1)] by (simp add: due_at_def)
  with run have fin: "gs_inv g' \<and> due_at p (expireTimerId s) t None (wheel g') g'"
  proof induction
    case base
    then show ?case
      using reach_inv [OF reach] by simp
  next
    case (step a b)
    then show ?case
      using gs_step_inv step_due by blast
  qed
  show ?thesis
  proof (rule ccontr)
    assume "session g' p \<noteq> None"
    then have "deadline (wheel g') (expireTimerId s) = Some t"
      using fin by (auto simp: due_at_def deadline_scheduled)
    then have "nowTick (wheel g') < t"
      using fin deadline_future by (auto simp: gs_inv_def lobby_inv_def)
    then show False
      using t(2) ticks by simp
  qed
qed

text \<open>One call of the 100 ms driver is one tick.\<close>

lemma advanceWheel_tick:
  assumes "gs_inv g" "remainderMs (wheel g) = 0"
  shows "nowTick (wheel (advanceWheel now g)) = nowTick (wheel g) + 1 \<and> remainderMs (wheel (advanceWheel now g)) = 0"
proof -
  have w: "wheel_inv 1 [] (wheel g)"
    using assms(1) by (simp add: gs_inv_def lobby_inv_def)
  obtain ids w' g' where t: "tick (run_cb now) (wheel g, g) = (ids, w', g')"
    by (metis prod.exhaust)
  have "wheel g\<lparr> remainderMs := 0 \<rparr> = wheel g"
    using assms(2) by simp
  then have t0: "tick (run_cb now) (wheel g\<lparr> remainderMs := 0 \<rparr>, g) = (ids, w', g')"
    using t by (simp only:)
  have "advance (run_cb now) 100 (wheel g, g) = (map (Pair (Suc (nowTick (wheel g)))) ids, w', g')"
  proof -
    have "u64 100 = 100" "100 div kTickMs = Suc 0" "100 mod kTickMs = 0"
      by (simp_all add: u64_def kTickMs_def)
    then show ?thesis
      using t0 assms(2) by (simp add: advance_def Let_def)
  qed
  then show ?thesis
    using lobby_cb.tick_spec [OF w t] assms(2) by (simp add: advanceWheel_def)
qed

lemma due_ticks:
  assumes "gs_inv g" "due_at p i t None (wheel g) g" "remainderMs (wheel g) = 0"
  shows "(\<lambda>a b. gs_step a b \<and> (\<forall>z. session b p = Some z \<longrightarrow> conn z = None))\<^sup>*\<^sup>* g ((advanceWheel now ^^ n) g) \<and>
    nowTick (wheel ((advanceWheel now ^^ n) g)) = nowTick (wheel g) + n"
proof -
  have "gs_inv ((advanceWheel now ^^ n) g) \<and> due_at p i t None (wheel ((advanceWheel now ^^ n) g)) ((advanceWheel now ^^ n) g) \<and>
      remainderMs (wheel ((advanceWheel now ^^ n) g)) = 0 \<and> nowTick (wheel ((advanceWheel now ^^ n) g)) = nowTick (wheel g) + n \<and>
      (\<lambda>a b. gs_step a b \<and> (\<forall>z. session b p = Some z \<longrightarrow> conn z = None))\<^sup>*\<^sup>* g ((advanceWheel now ^^ n) g)"
  proof (induction n)
    case 0
    then show ?case
      using assms by simp
  next
    case (Suc n)
    let ?a = "(advanceWheel now ^^ n) g"
    have "due_at p i t None (wheel (advanceWheel now ?a)) (advanceWheel now ?a)"
      using Suc advanceWheel_due by blast
    moreover from this have "\<forall>z. session (advanceWheel now ?a) p = Some z \<longrightarrow> conn z = None"
      by (simp add: due_at_def)
    ultimately show ?case
      using Suc advanceWheel_inv [of ?a now] advanceWheel_tick [of ?a now] gs_wheel [of ?a now]
      by (auto intro: rtranclp.rtrancl_into_rtrancl)
  qed
  then show ?thesis
    by blast
qed

theorem disconnected_session_removed_witness:
  "session ((advanceWheel 0 ^^ 300) demo2) (Suc 0) = None"
proof -
  obtain s where s: "session demo2 (Suc 0) = Some s" "conn s = None"
    using demo2_fields by blast
  have inv: "gs_inv demo2"
    using reach_inv [OF demo_reach(3)] .
  then have li: "lobby_inv [] None {} demo2"
    by (simp add: gs_inv_def)
  obtain t where t: "scheduled (wheel demo2) (expireTimerId s) = Some (t, ExpireSession (Suc 0))"
    using session_facts(5) [OF li s(1)] s(2) by (auto simp: armed_def)
  have due: "due_at (Suc 0) (expireTimerId s) t None (wheel demo2) demo2"
    using s t sess_okD(3) [OF lobby_invD(2) [OF li] s(1)] by (simp add: due_at_def)
  have rem: "remainderMs (wheel demo2) = 0"
    by (simp add: demo2_def onDisconnect_def demo1_fields Let_def case_prod_unfold put_session_def)
      (simp add: demo1_def demo0_def onLogin_def startServer_def scheduleSweep_def newTimerWheel_def Let_def put_session_def)
  note run = due_ticks [OF inv due rem, where now = 0 and n = 300]
  show ?thesis
    by (rule disconnected_session_removed [OF demo_reach(3) s conjunct1 [OF run]]) (simp add: conjunct2 [OF run])
qed

subsection \<open>Heartbeats\<close>

text \<open>
  The sweep closes exactly the silent connections: it shuts a connection down exactly when it
  belongs to a session whose last sign of life is more than 10 seconds old.
\<close>

theorem sweep_kicks_exactly_silent:
  assumes reach: "gs_ts.reach g" and clock: "\<And>p s. session g p = Some s \<Longrightarrow> lastHeartbeatMs s \<le> now" "now < 2 ^ 64"
  shows "\<exists>es. out (sweepHeartbeats now g) = out g @ es \<and>
    (\<forall>c. ShutdownConn c \<in> set es \<longleftrightarrow> (\<exists>p s. session g p = Some s \<and> conn s = Some c \<and> lastHeartbeatMs s + 10000 < now))"
proof -
  let ?es = "concat (map (\<lambda>(_, s). case conn s of None \<Rightarrow> []
     | Some c \<Rightarrow> if kHeartbeatTimeoutMs < u64_minus now (lastHeartbeatMs s) then [ShutdownConn c] else []) (sessions g))"
  have ok: "umap_ok (sessions g)"
    using reach_inv [OF reach] by (simp add: gs_inv_def lobby_inv_def sess_ok_def)
  have gap: "(kHeartbeatTimeoutMs < u64_minus now (lastHeartbeatMs s)) = (lastHeartbeatMs s + 10000 < now)"
    if "session g p = Some s" for p s
    using u64_minus_id [OF clock(1) [OF that] clock(2)] by (auto simp: kHeartbeatTimeoutMs_def)
  have mem: "ShutdownConn c \<in> set ?es \<longleftrightarrow> (\<exists>p s. session g p = Some s \<and> conn s = Some c \<and> kHeartbeatTimeoutMs < u64_minus now (lastHeartbeatMs s))" for c
    using umap_ok_mem [OF ok] by (force split: option.splits if_splits)
  have "(\<exists>p s. session g p = Some s \<and> conn s = Some c \<and> kHeartbeatTimeoutMs < u64_minus now (lastHeartbeatMs s)) \<longleftrightarrow>
      (\<exists>p s. session g p = Some s \<and> conn s = Some c \<and> lastHeartbeatMs s + 10000 < now)" for c
    by (intro iff_exI) (use gap in blast)
  then have "\<forall>c. ShutdownConn c \<in> set ?es \<longleftrightarrow> (\<exists>p s. session g p = Some s \<and> conn s = Some c \<and> lastHeartbeatMs s + 10000 < now)"
    unfolding mem by blast
  moreover have "out (sweepHeartbeats now g) = out g @ ?es"
    by (simp add: sweepHeartbeats_def)
  ultimately show ?thesis
    by blast
qed

theorem sweep_kicks_exactly_silent_witness:
  "\<exists>es. out (sweepHeartbeats 12000 demo1) = out demo1 @ es \<and> ShutdownConn 10 \<in> set es"
proof -
  have one: "sessions demo1 = [(Suc 0, \<lparr> playerId = 1, token = genToken 1 2, account = ''ann'', conn = Some 10, roomId = 0,
     state = kLobby, lastHeartbeatMs = 0, expireTimerId = 0 \<rparr>)]"
    by (simp add: demo1_def demo0_def onLogin_def startServer_def scheduleSweep_def Let_def put_session_def)
  then have "lastHeartbeatMs s \<le> 12000" if "session demo1 p = Some s" for p s
    using that by (auto split: if_splits)
  then obtain es where "out (sweepHeartbeats 12000 demo1) = out demo1 @ es"
      "ShutdownConn 10 \<in> set es \<longleftrightarrow> (\<exists>p s. session demo1 p = Some s \<and> conn s = Some 10 \<and> lastHeartbeatMs s + 10000 < 12000)"
    using sweep_kicks_exactly_silent [OF demo_reach(2), of 12000] by auto
  moreover have "\<exists>s. session demo1 (Suc 0) = Some s \<and> conn s = Some 10 \<and> lastHeartbeatMs s + 10000 < 12000"
    by (simp add: demo1_fields)
  ultimately show ?thesis
    by blast
qed

subsection \<open>Tokens\<close>

lemma hex_digit_inj: "d < 16 \<Longrightarrow> e < 16 \<Longrightarrow> hex_digit d = hex_digit e \<Longrightarrow> d = e"
proof -
  have "distinct ''0123456789abcdef''" "length ''0123456789abcdef'' = 16"
    by simp_all
  then show "d < 16 \<Longrightarrow> e < 16 \<Longrightarrow> hex_digit d = hex_digit e \<Longrightarrow> d = e"
    unfolding hex_digit_def by (metis nth_eq_iff_index_eq)
qed

lemma length_hex_pad [simp]: "length (hex_pad k n) = k"
  by (induction k arbitrary: n) simp_all

lemma hex_pad_inj: "m < 16 ^ k \<Longrightarrow> n < 16 ^ k \<Longrightarrow> hex_pad k m = hex_pad k n \<Longrightarrow> m = n"
proof (induction k arbitrary: m n)
  case (Suc k)
  have "m div 16 = n div 16" "m mod 16 = n mod 16"
    using Suc.IH [of "m div 16" "n div 16"] Suc.prems hex_digit_inj [of "m mod 16" "n mod 16"]
    by (auto simp: div_less_iff_less_mult mult.commute)
  then show ?case
    by (metis div_mult_mod_eq)
qed simp

text \<open>
  Session tokens lose nothing of the random draws: a token is 32 hexadecimal digits, the buffer
  does not cut it, and two tokens are equal exactly when both 64-bit draws are.
\<close>

theorem token_determines_draws:
  "length (genToken a b) = 32 \<and> (genToken a b = genToken c d \<longleftrightarrow> u64 a = u64 c \<and> u64 b = u64 d)"
proof -
  have whole: "genToken x y = hex_pad 16 (u64 x) @ hex_pad 16 (u64 y)" for x y
    by (simp add: genToken_def)
  have small: "u64 x < 16 ^ 16" for x
    using u64_less [of x] by simp
  have "genToken a b = genToken c d \<longleftrightarrow> hex_pad 16 (u64 a) = hex_pad 16 (u64 c) \<and> hex_pad 16 (u64 b) = hex_pad 16 (u64 d)"
    unfolding whole by (simp add: append_eq_append_conv)
  then show ?thesis
    using hex_pad_inj [OF small small] by (auto simp: whole)
qed

text \<open>
  The number of leaderboard entries asked of Redis is between 1 and 100 for every 32-bit request,
  negative and oversized ones included.
\<close>

theorem leaderboard_request_bounded:
  "\<exists>n. onLeaderboard c topN w = (if w then [Enqueue (TopN c n)] else [ToConn c kLeaderboardResp (MLeaderboardResp [])]) \<and>
     1 \<le> n \<and> n \<le> 100 \<and> (n = int (u32 topN) \<or> n = 10)"
proof -
  define m where "m = (if 2 ^ 31 \<le> int (u32 topN) then int (u32 topN) - 2 ^ 32 else int (u32 topN))"
  define n where "n = (if m \<le> 0 \<or> 100 < m then 10 else m)"
  have "int (u32 topN) < 2 ^ 32"
    by (simp add: u32_def)
  then have "m = int (u32 topN) \<or> m < 0"
    by (simp add: m_def)
  then have "1 \<le> n \<and> n \<le> 100 \<and> (n = int (u32 topN) \<or> n = 10)"
    by (auto simp: n_def)
  then show ?thesis
    by (intro exI [of _ n]) (simp add: onLeaderboard_def Let_def m_def n_def)
qed

end
