(* ===== verification/LobbyLimits.thy ===== *)
theory LobbyLimits
  imports Lobby
begin

text \<open>
  How sessions, rooms and the match queue interact with disconnection, and where the server falls short
  of what its comments promise: sessions orphaned by a second login, forfeits that are not
  recorded, match timers that outlive their request.
\<close>

subsection \<open>Orphaned sessions\<close>

definition orphaned :: "nat \<Rightarrow> nat \<Rightarrow> GameServer \<Rightarrow> bool" where
  "orphaned p c g \<longleftrightarrow> (\<exists>s. session g p = Some s \<and> conn s = Some c) \<and> (\<forall>d. connToPlayer g d \<noteq> Some p) \<and> p < nextPlayerId g"

lemma keeps_orphaned:
  assumes "keeps p g g'" "orphaned p c g"
  shows "orphaned p c g'"
proof -
  have "rel_option same_contact (session g p) (session g' p)"
    using assms(1) by (simp add: keeps_def)
  then have "\<exists>s. session g' p = Some s \<and> conn s = Some c"
    using assms(2) by (auto simp: orphaned_def same_contact_def option_rel_Some1)
  then show ?thesis
    using assms by (auto simp: orphaned_def keeps_def)
qed

lemma fire_orphaned:
  assumes "orphaned p c g"
  shows "orphaned p c (fire now cb g)"
proof -
  have "rel_option same_contact (session g p) (session (fire now cb g) p)"
    using fire_sessions [of cb p g now] assms by (auto simp: orphaned_def split: if_splits)
  then show ?thesis
    using assms by (auto simp: orphaned_def fire_ids same_contact_def option_rel_Some1)
qed

interpretation orphan_tc: timer_client "run_cb now" "\<lambda>_ _. orphaned p c" for now p c
proof unfold_locales
  fix w cb w' and g g' :: GameServer
  assume "orphaned p c g" "run_cb now cb (w, g) = (w', g')"
  moreover have "orphaned p c (g\<lparr> wheel := w \<rparr>) = orphaned p c g"
    by (simp add: orphaned_def)
  ultimately show "orphaned p c g'"
    using fire_orphaned [of p c "g\<lparr> wheel := w \<rparr>" now cb] by (auto simp: run_cb_def Let_def)
qed

lemma step_orphaned:
  assumes inv: "gs_inv g" and orph: "orphaned p c g" and st: "gs_step g g'"
  shows "orphaned p c g'"
  using st
proof cases
  case (gs_request now req)
  have li: "lobby_inv [] None {} g"
    using inv by (simp add: gs_inv_def)
  have "\<not> binds p req g"
    using orph by (cases req) (auto simp: orphaned_def)
  then show ?thesis
    using keeps_orphaned [OF lobby_exec_keeps [OF li _ _ gs_request] orph] orph by (simp add: orphaned_def)
next
  case (gs_wheel now)
  have w: "wheel_inv 1 [] (wheel g)"
    using inv by (simp add: gs_inv_def lobby_inv_def)
  obtain fired w' h where adv: "advance (run_cb now) 100 (wheel g, g) = (fired, w', h)"
    by (metis prod.exhaust)
  show ?thesis
    using orphan_tc.advance_inv [OF w orph adv] by (simp add: gs_wheel advanceWheel_def adv orphaned_def)
next
  case (gs_room_end rid w q)
  then show ?thesis
    using orph by (auto simp: orphaned_def map_of_umap_map)
next
  case (gs_room_task l rid t q)
  have "keeps p (g\<lparr> loopQ := (loopQ g)(l := q) \<rparr>) g'"
    unfolding gs_room_task(1) by (rule frame_keeps [OF runTask_frame])
  moreover have "orphaned p c (g\<lparr> loopQ := (loopQ g)(l := q) \<rparr>)"
    using orph by (simp add: orphaned_def)
  ultimately show ?thesis
    by (rule keeps_orphaned)
next
  case (gs_room_tick rid l r)
  then show ?thesis
    using keeps_orphaned [OF frame_keeps [OF runTask_frame] orph] by simp
qed

text \<open>
  C35. A second login on the same connection orphans the first session: after the connection closes,
  no execution of the server removes that session, and it still holds the closed connection, so a
  reconnection to it is refused for ever. \<open>onLogin\<close> overwrites \<open>connToPlayer_\<close> without unbinding.
\<close>

theorem second_login_orphans_session:
  assumes reach: "gs_ts.reach g" and c: "connToPlayer g c = Some p"
    and run: "gs_step\<^sup>*\<^sup>* (onDisconnect c (onLogin now rng c acc g)) g'"
  shows "\<exists>s. session g' p = Some s \<and> conn s = Some c"
proof -
  have inv: "lobby_inv [] None {} g"
    using reach_inv [OF reach] by (simp add: gs_inv_def)
  obtain s where s: "session g p = Some s" "conn s = Some c"
    using lobby_invD(3) [OF inv] c by (auto simp: conn_ok_def)
  have p: "p < nextPlayerId g"
    using sess_okD(3) [OF lobby_invD(2) [OF inv] s(1)] .
  let ?h = "onLogin now rng c acc g"
  have h: "gs_ts.reach ?h"
    by (rule gs_ts.reach_step [OF reach gs_request [of now "ReqLogin c rng acc"]]) simp
  have "connToPlayer g d = Some p \<Longrightarrow> d = c" for d
    using session_facts(2) [OF inv s(1)] s(2) by fastforce
  then have orph: "orphaned p c ?h"
    using s p by (auto simp: orphaned_def onLogin_def Let_def)
  have hd: "gs_step ?h (onDisconnect c ?h)"
    by (rule gs_request [of 0 "Disconnected c"]) simp
  have "gs_inv a \<and> orphaned p c a" if "gs_step\<^sup>*\<^sup>* ?h a" for a
    using that
  proof induction
    case base
    then show ?case
      using orph reach_inv [OF h] by simp
  next
    case (step a b)
    then show ?case
      using gs_step_inv step_orphaned by blast
  qed
  then show ?thesis
    using converse_rtranclp_into_rtranclp [OF hd run] by (auto simp: orphaned_def)
qed

theorem second_login_orphans_session_witness:
  "\<exists>s. session (onDisconnect 10 (onLogin 7 (3, 4) 10 ''bob'' demo1)) (Suc 0) = Some s \<and> conn s = Some 10"
  by (rule second_login_orphans_session [OF demo_reach(2) _ rtranclp.rtrancl_refl]) (simp add: demo1_fields)

subsection \<open>The end of a battle\<close>

text \<open>
  C24. Room ends are reported to the lobby exactly once, across threads: a room stays in the lobby's
  table until its battle has ended and the one report of it has been handled; no report is
  duplicated, a report in flight is of an ended battle, and a room always has exactly two seats.
\<close>

theorem battle_end_reported_once:
  assumes "gs_ts.reach g" "roomHeap g rid = Some (l, r)"
  shows "(rid \<in> rooms g \<longleftrightarrow> \<not> ended r \<or> rid \<in> fst ` set (roomEnds g)) \<and>
    \<not> (rid \<in> fst ` set (roomEnds g) \<and> \<not> ended r) \<and> distinct (map fst (roomEnds g)) \<and>
    Room.roomId r = rid \<and> card (dom (map_of (conns r))) = 2"
proof -
  have "ends_ok {} g"
    using reach_inv [OF assms(1)] by (simp add: gs_inv_def lobby_inv_def)
  then show ?thesis
    using ends_okD [OF _ assms(2), of "{}"] by (auto simp: ends_ok_def good_room_def)
qed

text \<open>A room with two players, for the witnesses.\<close>

definition demo3 :: GameServer where
  "demo3 = onLogin 0 (3, 4) 20 ''bob'' demo1"

lemma demo3_fields:
  "sessionOf demo3 10 = Some \<lparr> playerId = 1, token = genToken 1 2, account = ''ann'', conn = Some 10, roomId = 0,
     state = kLobby, lastHeartbeatMs = 0, expireTimerId = 0 \<rparr>"
  "matchQueue demo3 = newMatchQueue"
  by (simp_all add: sessionOf_def demo3_def demo1_def demo0_def onLogin_def startServer_def scheduleSweep_def Let_def put_session_def)

lemma demo3_reach: "gs_ts.reach demo3"
  by (rule gs_ts.reach_step [OF demo_reach(2) gs_request [of 0 "ReqLogin 20 (3, 4) ''bob''"]]) (simp add: demo3_def)

definition demo4 :: GameServer where
  "demo4 = the (onMatch 10 demo3)"

definition demo5 :: GameServer where
  "demo5 = the (onMatch 20 demo4)"

definition demo6 :: GameServer where
  "demo6 = onDisconnect 10 demo5"

lemma demo6_reach: "gs_ts.reach demo4" "gs_ts.reach demo5" "gs_ts.reach demo6"
proof -
  have some: "lobby_exec 0 (ReqMatch c) g = Some (the (onMatch c g))" if r: "gs_ts.reach g" for c g
  proof -
    obtain g' where "lobby_exec 0 (ReqMatch c) g = Some g'"
      using lobby_exec_inv [OF reach_inv [OF r], of 0 "ReqMatch c"] .
    then show ?thesis
      by simp
  qed
  show 4: "gs_ts.reach demo4"
    unfolding demo4_def by (rule gs_ts.reach_step [OF demo3_reach gs_request [OF some [OF demo3_reach]]])
  show 5: "gs_ts.reach demo5"
    unfolding demo5_def by (rule gs_ts.reach_step [OF 4 gs_request [OF some [OF 4]]])
  show "gs_ts.reach demo6"
    unfolding demo6_def by (rule gs_ts.reach_step [OF 5 gs_request [of 0 "Disconnected 10"]]) simp
qed

lemma demo3_all:
  "sessions demo3 = [(1, \<lparr> playerId = 1, token = genToken 1 2, account = ''ann'', conn = Some 10, roomId = 0, state = kLobby,
       lastHeartbeatMs = 0, expireTimerId = 0 \<rparr>), (2, \<lparr> playerId = 2, token = genToken 3 4, account = ''bob'', conn = Some 20,
       roomId = 0, state = kLobby, lastHeartbeatMs = 0, expireTimerId = 0 \<rparr>)]"
  "connToPlayer demo3 = [10 \<mapsto> 1, 20 \<mapsto> 2]" "matchQueue demo3 = \<lparr> order = [], waiting = {} \<rparr>" "rooms demo3 = {}"
  "nextRoomId demo3 = 1" "roomHeap demo3 = Map.empty" "gamePool demo3 = \<lparr> baseLoop = 0, loops = [1], nextLoop = 0 \<rparr>"
  "matchTimer demo3 = Map.empty"
  by (simp_all add: demo3_def demo1_def demo0_def onLogin_def startServer_def scheduleSweep_def Let_def put_session_def
      newMatchQueue_def newPool_def numeral_2_eq_2)

lemma demo4_all:
  "sessions demo4 = [(1, \<lparr> playerId = 1, token = genToken 1 2, account = ''ann'', conn = Some 10, roomId = 0, state = kMatching,
       lastHeartbeatMs = 0, expireTimerId = 0 \<rparr>), (2, \<lparr> playerId = 2, token = genToken 3 4, account = ''bob'', conn = Some 20,
       roomId = 0, state = kLobby, lastHeartbeatMs = 0, expireTimerId = 0 \<rparr>)]"
  "connToPlayer demo4 = [10 \<mapsto> 1, 20 \<mapsto> 2]" "matchQueue demo4 = \<lparr> order = [1], waiting = {1} \<rparr>" "rooms demo4 = {}"
  "nextRoomId demo4 = 1" "roomHeap demo4 = Map.empty" "gamePool demo4 = \<lparr> baseLoop = 0, loops = [1], nextLoop = 0 \<rparr>"
  by (simp_all add: demo4_def onMatch_def sessionOf_def demo3_all tryMatch_def push_def popPair_def compact_def Let_def
      put_session_def case_prod_unfold)

lemma demo_pop:
  "popPair \<lparr> order = [Suc 0, 2], waiting = {2, Suc 0} \<rparr> = Some (Some (1, 2), \<lparr> order = [], waiting = {} \<rparr>)"
  by (auto simp: popPair_def takeFront_def compact_def Let_def)

lemma demo5_all:
  "sessions demo5 = [(1, \<lparr> playerId = 1, token = genToken 1 2, account = ''ann'', conn = Some 10, roomId = 1, state = kInRoom,
       lastHeartbeatMs = 0, expireTimerId = 0 \<rparr>), (2, \<lparr> playerId = 2, token = genToken 3 4, account = ''bob'', conn = Some 20,
       roomId = 1, state = kInRoom, lastHeartbeatMs = 0, expireTimerId = 0 \<rparr>)]"
  "connToPlayer demo5 = [10 \<mapsto> 1, 20 \<mapsto> 2]" "rooms demo5 = {1}"
  "roomHeap demo5 = [1 \<mapsto> (1, newRoom 1 [(1, Some 10), (2, Some 20)] True)]" "baseLoop (gamePool demo5) = 0"
  by (simp_all add: demo5_def onMatch_def sessionOf_def demo4_all tryMatch_def push_def demo_pop Let_def
      put_session_def case_prod_unfold enter_def getNextLoop_def runInLoop_def)

lemma demo6_all:
  "\<exists>s. session demo6 (Suc 0) = Some s \<and> conn s = None \<and> state s = kInRoom \<and> roomId s = Suc 0"
  "roomHeap demo6 = [1 \<mapsto> (1, newRoom 1 [(1, Some 10), (2, Some 20)] True)]" "lobbyLoop demo6 = 0"
  by (simp_all add: demo6_def onDisconnect_def demo5_all Let_def case_prod_unfold runInLoop_def put_session_def
      map_of_umap_map map_of_update)

theorem battle_end_reported_once_witness:
  "distinct (map fst (roomEnds demo5)) \<and> \<not> (1 \<in> fst ` set (roomEnds demo5))"
proof -
  have "\<not> ended (newRoom 1 [(1, Some 10), (2, Some 20)] True)"
    by (simp add: newRoom_fields)
  then show ?thesis
    using battle_end_reported_once [OF demo6_reach(2), of 1 1 "newRoom 1 [(1, Some 10), (2, Some 20)] True"]
    by (simp add: demo5_all)
qed

lemma settle_alone:
  "(\<forall>(q, z) \<in> set ss. roomId z = rid \<longrightarrow> q = q0) \<Longrightarrow> settle rid w ss (wa, la) = (wa', la') \<Longrightarrow>
   (if q0 = w then la' = la else wa' = wa)"
  by (induction ss arbitrary: wa la) (auto split: if_splits)

lemma onRoomEnd_unrecorded:
  assumes "umap_ok (sessions g)" "\<And>q z. session g q = Some z \<Longrightarrow> roomId z = rid \<Longrightarrow> q = q0"
  shows "out (onRoomEnd rid w g) = out g"
proof -
  have "\<forall>(q, z) \<in> set (sessions g). roomId z = rid \<longrightarrow> q = q0"
    using assms umap_ok_mem [OF assms(1)] by auto
  moreover obtain wa la where st: "settle rid w (sessions g) ([], []) = (wa, la)"
    by fastforce
  ultimately have "if q0 = w then la = [] else wa = []"
    by (rule settle_alone)
  then show ?thesis
    by (auto simp: onRoomEnd_def st Let_def enqueue_def split: if_splits)
qed



subsection \<open>Requeueing after a disconnect\<close>

text \<open>A player who is waiting disconnects: the session is unbound, the match timer stays.\<close>

lemma disconnect_while_matching:
  assumes inv: "lobby_inv [] None {} g" "card (waiting (matchQueue g)) \<le> 1"
    and c: "connToPlayer g c = Some p" and s: "session g p = Some s" "state s = kMatching"
    and i: "scheduled (wheel g) i = Some (t, MatchTimeout p)" and g1: "g1 = onDisconnect c g"
  obtains k where "session g1 p = Some (s\<lparr> conn := None, state := kLobby, expireTimerId := k \<rparr>)" "k \<noteq> 0" "k \<noteq> i"
    "waiting (matchQueue g1) = {}" "scheduled (wheel g1) i = Some (t, MatchTimeout p)"
proof -
  have "p \<in> waiting (matchQueue g)" "finite (waiting (matchQueue g))"
    using session_facts(3) [OF inv(1) s(1)] s(2) lobby_invD(4) [OF inv(1)] mq_inv_finite by (simp_all add: match_ok_def)
  then have wp: "waiting (matchQueue g) = {p}"
    using inv(2) card_le_Suc0_iff_eq [of "waiting (matchQueue g)"] by auto
  define s1 where "s1 = s\<lparr> conn := None, state := kLobby \<rparr>"
  define h1 where "h1 = put_session s1 p g\<lparr> connToPlayer := (connToPlayer g)(c := None), matchQueue := remove (matchQueue g) p \<rparr>"
  obtain k w where add1: "TimerWheel.add (wheel h1) kSessionKeepMs (ExpireSession p) = (k, w)"
    by fastforce
  have g1_eq: "g1 = enqueue (DelOnline (account s))
      (h1\<lparr> wheel := w, sessions := umap_map (\<lambda>q z. if q = p then z\<lparr> expireTimerId := k \<rparr> else z) (sessions h1) \<rparr>)"
    unfolding g1
    by (rule onDisconnect_eq [OF c s(1) _ _ h1_def _ add1]) (simp_all add: s(2) s1_def)
  have w1: "wheel_inv 1 [] (wheel h1)" "kSessionKeepMs \<le> 30000"
    using lobby_invD(1) [OF inv(1)] by (simp_all add: h1_def kSessionKeepMs_def)
  note sched1 = add_sched [OF w1 add1]
  have "scheduled (wheel g1) i = Some (t, MatchTimeout p)" "k \<noteq> i"
    using sched1(2,3) i by (auto simp: g1_eq h1_def)
  moreover have "session g1 p = Some (s1\<lparr> expireTimerId := k \<rparr>)" "waiting (matchQueue g1) = {}"
    using wp by (simp_all add: g1_eq h1_def map_of_umap_map remove_def)
  ultimately show ?thesis
    using that [of k] sched1(7) by (simp add: s1_def)
qed

text \<open>A match request of the only player, with another timer \<open>i\<close> of theirs still scheduled.\<close>

lemma match_request_alone:
  assumes inv: "lobby_inv [] None {} g" and so: "sessionOf g d = Some s" "state s = kLobby" "p = playerId s"
    and alone: "waiting (matchQueue g) = {}" and i: "scheduled (wheel g) i = Some (t, MatchTimeout p)"
  obtains g' j where "onMatch d g = Some g'" "p \<in> waiting (matchQueue g')" "j \<noteq> i" "matchTimer g' p = Some j"
    "scheduled (wheel g') i = Some (t, MatchTimeout p)"
    "scheduled (wheel g') j = Some (nowTick (wheel g') + 300, MatchTimeout p)"
proof -
  obtain q j w h where m: "waiting q = insert p (waiting (matchQueue g))"
      "TimerWheel.add (wheel g) kMatchTimeoutMs (MatchTimeout p) = (j, w)"
      "h = put_session (s\<lparr> state := kMatching \<rparr>) p g\<lparr> matchQueue := q, wheel := w, matchTimer := (matchTimer g)(p \<mapsto> j) \<rparr>"
      "onMatch d g = tryMatch h" "lobby_inv [] None {} h"
    using match_request [OF inv so] by metis
  have q: "mq_inv q" "waiting q = {p}"
    using lobby_invD(4) [OF m(5)] m(1) alone by (simp_all add: match_ok_def m(3))
  obtain q' where q': "popPair q = Some (None, q')" "waiting q' = {p}"
    using mq.pop_small [OF q(1)] q(2) by auto
  have d: "kMatchTimeoutMs \<le> 30000"
    by (simp add: kMatchTimeoutMs_def)
  note sched = add_sched [OF lobby_invD(1) [OF inv] d m(2)]
  have "j \<noteq> i" "scheduled w i = Some (t, MatchTimeout p)"
    using sched(2,3) i by auto
  moreover have "scheduled w j = Some (nowTick w + 300, MatchTimeout p)"
    using sched(2,4) by (simp add: kMatchTimeoutMs_def delay_ticks_def)
  moreover have "onMatch d g = Some (h\<lparr> matchQueue := q' \<rparr>)"
    using q'(1) by (simp add: m(3,4) tryMatch_def)
  ultimately show ?thesis
    using q'(2) that [of "h\<lparr> matchQueue := q' \<rparr>" j] by (simp add: m(3))
qed

text \<open>
  A player who drops out of the match queue by disconnecting, reconnects and asks for a match again
  can be timed out early: \<open>onDisconnect\<close> removes the player from the queue but leaves the match timer
  running, and the next request only overwrites the entry of \<open>matchTimer_\<close>. The old timer stays
  scheduled for its old tick beside the new one, and when it fires it takes the player out of the queue.
\<close>

theorem requeue_times_out_early:
  assumes reach: "gs_ts.reach g" and c: "connToPlayer g c = Some p" and s: "session g p = Some s" "state s = kMatching"
    and i: "scheduled (wheel g) i = Some (t, MatchTimeout p)"
    and g1: "g1 = onDisconnect c g" and g2: "g2 = onReconnect now d p (token s) g1"
  shows "\<exists>g3 j. onMatch d g2 = Some g3 \<and> p \<in> waiting (matchQueue g3) \<and> j \<noteq> i \<and> matchTimer g3 p = Some j \<and>
    scheduled (wheel g3) i = Some (t, MatchTimeout p) \<and>
    scheduled (wheel g3) j = Some (nowTick (wheel g3) + 300, MatchTimeout p) \<and>
    p \<notin> waiting (matchQueue (matchTimedOut p g3))"
proof -
  have inv: "lobby_inv [] None {} g" "card (waiting (matchQueue g)) \<le> 1"
    using reach_inv [OF reach] by (simp_all add: gs_inv_def)
  obtain k where k: "session g1 p = Some (s\<lparr> conn := None, state := kLobby, expireTimerId := k \<rparr>)" "k \<noteq> 0" "k \<noteq> i"
      "waiting (matchQueue g1) = {}" "scheduled (wheel g1) i = Some (t, MatchTimeout p)"
    using disconnect_while_matching [OF inv c s i g1] .
  have pid: "playerId s = p"
    using sess_okD(1) [OF lobby_invD(2) [OF inv(1)] s(1)] .
  define s2 where "s2 = s\<lparr> conn := Some d, state := kLobby, expireTimerId := 0, lastHeartbeatMs := now \<rparr>"
  have fields2: "session g2 p = Some s2" "connToPlayer g2 d = Some p" "wheel g2 = cancel (wheel g1) k" "matchQueue g2 = matchQueue g1"
    using k(2) pid by (simp_all add: g2 onReconnect_def k(1) s2_def Let_def)
  have inv2: "lobby_inv [] None {} g2"
    unfolding g1 g2 by (intro onReconnect_inv onDisconnect_inv inv(1))
  have so: "sessionOf g2 d = Some s2" "state s2 = kLobby" "p = playerId s2"
    using pid by (simp_all add: sessionOf_def fields2 s2_def)
  have "waiting (matchQueue g2) = {}" "scheduled (wheel g2) i = Some (t, MatchTimeout p)"
    using k(3-5) by (simp_all add: fields2(3,4) scheduled_cancel)
  from match_request_alone [OF inv2 so this] obtain g3 j where g3: "onMatch d g2 = Some g3" "p \<in> waiting (matchQueue g3)" "j \<noteq> i" "matchTimer g3 p = Some j"
      "scheduled (wheel g3) i = Some (t, MatchTimeout p)" "scheduled (wheel g3) j = Some (nowTick (wheel g3) + 300, MatchTimeout p)" .
  moreover have "p \<notin> waiting (matchQueue (matchTimedOut p g3))"
    by (simp add: matchTimedOut_def contains_def remove_def Let_def split: option.split)
  ultimately show ?thesis
    by blast
qed

theorem requeue_times_out_early_witness:
  "\<exists>g3. onMatch 30 (onReconnect 5 30 1 (genToken 1 2) (onDisconnect 10 demo4)) = Some g3 \<and> 1 \<in> waiting (matchQueue g3)"
proof -
  have inv: "lobby_inv [] None {} demo4"
    using reach_inv [OF demo6_reach(1)] by (simp add: gs_inv_def)
  obtain s where s: "session demo4 1 = Some s" "state s = kMatching" "token s = genToken 1 2"
    by (simp add: demo4_all)
  have "1 \<in> waiting (matchQueue demo4)"
    by (simp add: demo4_all)
  then obtain i t where "scheduled (wheel demo4) i = Some (t, MatchTimeout 1)"
    using lobby_invD(9) [OF inv] unfolding timeout_ok_def armed_def by blast
  from requeue_times_out_early [OF demo6_reach(1) _ s(1,2) this refl refl, of 10 30 5] s(3) show ?thesis
    by (auto simp: demo4_all)
qed

end
