(* ===== verification/Matching.thy ===== *)
theory Matching
  imports Lobby
begin

text \<open>
  What a match request does, on every branch of \<open>onMatch\<close> and \<open>tryMatch\<close>
  (\<^verbatim>\<open>src/src/game/GameServer.cc\<close>): ignored, left waiting with its time limit, or paired into a new room.
\<close>

subsection \<open>The start of a room\<close>

text \<open>
  The room of the players \<open>a\<close> and \<open>b\<close> has been created between \<open>g\<close> and \<open>g'\<close>: under a fresh number, on the
  loop whose turn it is. On the lobby's own loop it is running and both players have been told;
  on a game thread its start is the last task of that thread's queue.
\<close>

definition battle_starts :: "nat \<Rightarrow> nat \<Rightarrow> nat \<Rightarrow> nat \<Rightarrow> GameServer \<Rightarrow> GameServer \<Rightarrow> bool" where
  "battle_starts a ca b cb g g' \<longleftrightarrow>
     (let rid = nextRoomId g; l = fst (getNextLoop (gamePool g)); r = newRoom rid [(a, Some ca), (b, Some cb)] True
      in rid \<notin> rooms g \<and> roomHeap g rid = None \<and> rooms g' = insert rid (rooms g) \<and> nextRoomId g' = rid + 1 \<and>
        (if l = lobbyLoop g
         then roomHeap g' = (roomHeap g)(rid \<mapsto> (l, r\<lparr> ticker := True \<rparr>)) \<and> loopQ g' = loopQ g \<and>
           out g' = out g @ [ToConn ca kEnterRoom (enterRoom r), ToConn cb kEnterRoom (enterRoom r),
             ToConn ca kStateSnapshot (MStateSnapshot (fullSnapshot r)), ToConn cb kStateSnapshot (MStateSnapshot (fullSnapshot r))]
         else roomHeap g' = (roomHeap g)(rid \<mapsto> (l, r)) \<and> loopQ g' = (loopQ g)(l := loopQ g l @ [(rid, TStart)]) \<and>
           out g' = out g))"

lemma newRoom_conns: "a \<noteq> b \<Longrightarrow> conns (newRoom rid [(a, ca), (b, cb)] e) = [(a, ca), (b, cb)]"
  by (simp add: newRoom_def split: prod.split)

lemma base_loop_kept: "baseLoop (snd (getNextLoop p)) = baseLoop p"
  by (simp add: getNextLoop_def)

lemma paired_starts:
  assumes "lobby_inv P None {} g" "a \<noteq> b" "conn sa = Some ca" "conn sb = Some cb"
  shows "battle_starts a ca b cb g (runInLoop (nextRoomId g) TStart (paired a sa b sb q g))"
proof -
  note fresh = fresh_room [OF lobby_invD(5,6) [OF assms(1)]]
  have *: "fold (room_callback l rid) [SendFrame ca m1 x1, SendFrame cb m2 x2, SendFrame ca m3 x3, SendFrame cb m4 x4] h =
      emit [ToConn ca m1 x1, ToConn cb m2 x2, ToConn ca m3 x3, ToConn cb m4 x4] h" for l rid h m1 m2 m3 m4 x1 x2 x3 x4
    by (simp add: emit_def)
  show ?thesis
    using fresh assms(2-4) lobby_frameD(6) [OF runInLoop_frame [of "paired a sa b sb q g" "nextRoomId g" TStart]]
    by (simp add: battle_starts_def Let_def runInLoop_def runTask_def base_loop_kept start_def broadcast_def send_def
        sendFullSnapshot_def newRoom_conns * [simplified])
qed

lemma paired_session_kept:
  assumes "roomHeap g rid = Some (l, r)" "h = runInLoop rid TStart g"
  shows "sessions h = sessions g"
proof -
  have "\<forall>e \<in> set (snd (start r)). \<not> is_end e"
    by (auto simp: start_def broadcast_def send_def sendFullSnapshot_def is_end_def split: option.splits)
  then obtain os k where "fold (room_callback l rid) (snd (start r)) (g\<lparr> roomHeap := (roomHeap g)(rid \<mapsto> (l, fst (start r))) \<rparr>) =
      emit os (g\<lparr> roomHeap := (roomHeap g)(rid \<mapsto> (l, fst (start r))), loopQ := (loopQ g)(l := loopQ g l @ replicate k (rid, TTickerReset)) \<rparr>)"
    using callbacks_frame [of "snd (start r)" l rid "g\<lparr> roomHeap := (roomHeap g)(rid \<mapsto> (l, fst (start r))) \<rparr>"] by auto
  then show ?thesis
    using assms by (cases "l = lobbyLoop g") (simp_all add: runInLoop_def runTask_def case_prod_unfold)
qed

subsection \<open>The request\<close>

text \<open>The pairing of the players \<open>a\<close> and \<open>b\<close>, seen from a state \<open>g\<close> that differs from \<open>h\<close> in queue and timers only.\<close>

lemma pair_outcome:
  assumes inv: "lobby_inv P None {} h" and pop: "popPair (matchQueue h) = Some (Some (a, b), q)"
    and s: "session h a = Some sa" "session h b = Some sb"
    and same: "nextRoomId h = nextRoomId g" "gamePool h = gamePool g" "rooms h = rooms g" "roomHeap h = roomHeap g"
      "loopQ h = loopQ g" "out h = out g"
  obtains g' ca cb where "tryMatch h = Some g'" "conn sa = Some ca" "conn sb = Some cb" "battle_starts a ca b cb g g'"
    "waiting (matchQueue g') = waiting (matchQueue h) - {a, b}" "matchTimer g' = (matchTimer h)(a := None, b := None)"
    "session g' a = Some (sa\<lparr> state := kInRoom, roomId := nextRoomId g \<rparr>)"
    "session g' b = Some (sb\<lparr> state := kInRoom, roomId := nextRoomId g \<rparr>)"
    "\<And>y. y \<noteq> a \<Longrightarrow> y \<noteq> b \<Longrightarrow> session g' y = session h y"
proof -
  note parts = lobby_invD [OF inv]
  obtain ta tb where t: "session h a = Some ta" "session h b = Some tb"
      and m: "a \<noteq> b" "a \<in> waiting (matchQueue h)" "b \<in> waiting (matchQueue h)" "waiting q = waiting (matchQueue h) - {a, b}"
        "tryMatch h = Some (runInLoop (nextRoomId h) TStart (paired a ta b tb q h))"
    using tryMatch_pair [OF inv pop] .
  have eq: "ta = sa" "tb = sb"
    using s t by simp_all
  note m = m [unfolded eq]
  have "state sa = kMatching"
    by (rule waiting_session [OF parts(4) m(2)]) (use s(1) in simp)
  moreover have "state sb = kMatching"
    by (rule waiting_session [OF parts(4) m(3)]) (use s(2) in simp)
  ultimately obtain ca cb where c: "conn sa = Some ca" "conn sb = Some cb"
    using sess_okD(5) [OF parts(2)] s by blast
  let ?h = "runInLoop (nextRoomId h) TStart (paired a sa b sb q h)"
  have "roomHeap (paired a sa b sb q h) (nextRoomId h) =
      Some (fst (getNextLoop (gamePool h)), newRoom (nextRoomId h) [(a, conn sa), (b, conn sb)] True)"
    by simp
  from paired_session_kept [OF this refl] have "sessions ?h = sessions (paired a sa b sb q h)" .
  moreover have "battle_starts a ca b cb g ?h"
    using paired_starts [OF inv m(1) c, of q] unfolding battle_starts_def same .
  ultimately show ?thesis
    using that [OF m(5) c] m(1,4) same(1) lobby_frameD(2,3) [OF runInLoop_frame [of "paired a sa b sb q h" "nextRoomId h" TStart]]
    by simp
qed

lemma onMatch_conns: "onMatch c g = Some g' \<Longrightarrow> connToPlayer g' = connToPlayer g"
proof -
  have "connToPlayer h' = connToPlayer h" if "tryMatch h = Some h'" for h h'
  proof -
    have "connToPlayer (runInLoop rid TStart k) = connToPlayer k" "connToPlayer (enter rid q k) = connToPlayer k" for rid q k
      using lobby_frameD(1) [OF runInLoop_frame] by (auto simp: enter_def split: option.split)
    then show ?thesis
      using that by (auto simp: tryMatch_def Let_def split: option.splits prod.splits)
  qed
  moreover assume "onMatch c g = Some g'"
  ultimately show ?thesis
    by (fastforce simp: onMatch_def Let_def split: option.splits if_splits prod.splits bool.splits)
qed

lemma match_waits:
  assumes inv: "lobby_inv [] None {} g" and so: "sessionOf g c = Some s" "state s = kLobby" and p_def: "p = playerId s"
    and idle: "waiting (matchQueue g) = {}"
  obtains g' i t where "onMatch c g = Some g'" "waiting (matchQueue g') = {p}" "session g' p = Some (s\<lparr> state := kMatching \<rparr>)"
    "\<And>y. y \<noteq> p \<Longrightarrow> session g' y = session g y"
    "matchTimer g' p = Some i" "scheduled (wheel g') i = Some (t, MatchTimeout p)" "t \<le> nowTick (wheel g') + 300"
proof -
  obtain q i w h where m: "waiting q = {p}" "TimerWheel.add (wheel g) kMatchTimeoutMs (MatchTimeout p) = (i, w)"
      "h = put_session (s\<lparr> state := kMatching \<rparr>) p g\<lparr> matchQueue := q, wheel := w, matchTimer := (matchTimer g)(p \<mapsto> i) \<rparr>"
      "onMatch c g = tryMatch h" "lobby_inv [] None {} h"
    using match_request [OF inv so p_def] idle by metis
  have "mq_inv q"
    using lobby_invD(4) [OF m(5)] by (simp add: match_ok_def m(3))
  from mq.pop_small [OF this] obtain q' where pop: "popPair q = Some (None, q')" "waiting q' = {p}"
    using m(1) by auto
  have "armed None w i (MatchTimeout p)"
    using armed_add(2) [OF lobby_invD(1) [OF inv] _ m(2)] by (simp add: kMatchTimeoutMs_def)
  then obtain t where "scheduled w i = Some (t, MatchTimeout p)" "t \<le> nowTick w + 300"
    by (auto simp: armed_def)
  then show ?thesis
    using that [of "h\<lparr> matchQueue := q' \<rparr>" i t] pop by (simp add: m(4) tryMatch_def) (simp add: m(3))
qed

lemma match_pairs:
  assumes inv: "lobby_inv [] None {} g" and so: "sessionOf g c = Some s" "state s = kLobby" and p_def: "p = playerId s"
    and x: "waiting (matchQueue g) = {x}" and z: "session g x = Some z"
  obtains g' d where "onMatch c g = Some g'" "conn z = Some d" "x \<noteq> p" "battle_starts p c x d g g' \<or> battle_starts x d p c g g'"
    "waiting (matchQueue g') = {}" "matchTimer g' p = None" "matchTimer g' x = None"
    "session g' p = Some (s\<lparr> state := kInRoom, roomId := nextRoomId g \<rparr>)"
    "session g' x = Some (z\<lparr> state := kInRoom, roomId := nextRoomId g \<rparr>)"
    "\<And>y. y \<noteq> p \<Longrightarrow> y \<noteq> x \<Longrightarrow> session g' y = session g y"
proof -
  obtain q i w h where m: "waiting q = {p, x}" "p \<noteq> x"
      "h = put_session (s\<lparr> state := kMatching \<rparr>) p g\<lparr> matchQueue := q, wheel := w, matchTimer := (matchTimer g)(p \<mapsto> i) \<rparr>"
      "onMatch c g = tryMatch h" "lobby_inv [] None {} h"
    using match_request [OF inv so p_def] x by (metis singletonI)
  have mq: "mq_inv q" "2 \<le> card (waiting q)"
    using lobby_invD(4) [OF m(5)] m(1,2) by (simp_all add: match_ok_def m(3))
  from mq.pop_pair [OF this] obtain a b q' where pop: "popPair (matchQueue h) = Some (Some (a, b), q')"
      "a \<in> {p, x}" "b \<in> {p, x}" "a \<noteq> b"
    using m(1) by (auto simp: m(3))
  have same: "nextRoomId h = nextRoomId g" "gamePool h = gamePool g" "rooms h = rooms g" "roomHeap h = roomHeap g"
      "loopQ h = loopQ g" "out h = out g" "waiting (matchQueue h) = {p, x}"
    using m(1) by (simp_all add: m(3) put_session_def)
  have sp: "session h p = Some (s\<lparr> state := kMatching \<rparr>)" and sx: "session h x = Some z" and sc: "conn s = Some c"
    and sy: "\<And>y. y \<noteq> p \<Longrightarrow> session h y = session g y"
    using z m(2) sessionOf_Some(3) [OF inv so(1)] by (simp_all add: m(3))
  consider "a = p" "b = x" | "a = x" "b = p"
    using pop(2-4) by auto
  then show ?thesis
  proof cases
    case 1
    obtain g' ca cb where g': "tryMatch h = Some g'" "conn (s\<lparr> state := kMatching \<rparr>) = Some ca" "conn z = Some cb" "battle_starts p ca x cb g g'"
        "waiting (matchQueue g') = waiting (matchQueue h) - {p, x}" "matchTimer g' = (matchTimer h)(p := None, x := None)"
        "session g' p = Some (s\<lparr> state := kMatching \<rparr>\<lparr> state := kInRoom, roomId := nextRoomId g \<rparr>)"
        "session g' x = Some (z\<lparr> state := kInRoom, roomId := nextRoomId g \<rparr>)"
        "\<And>y. y \<noteq> p \<Longrightarrow> y \<noteq> x \<Longrightarrow> session g' y = session h y"
      using pair_outcome [OF m(5) pop(1) [unfolded 1] sp sx same(1-6)] by blast
    have "ca = c"
      using g'(2) sc by simp
    show ?thesis
      by (rule that [of g' cb]) (use g' \<open>ca = c\<close> m(2,4) same(7) sy in simp_all)
  next
    case 2
    obtain g' ca cb where g': "tryMatch h = Some g'" "conn z = Some ca" "conn (s\<lparr> state := kMatching \<rparr>) = Some cb" "battle_starts x ca p cb g g'"
        "waiting (matchQueue g') = waiting (matchQueue h) - {x, p}" "matchTimer g' = (matchTimer h)(x := None, p := None)"
        "session g' x = Some (z\<lparr> state := kInRoom, roomId := nextRoomId g \<rparr>)"
        "session g' p = Some (s\<lparr> state := kMatching \<rparr>\<lparr> state := kInRoom, roomId := nextRoomId g \<rparr>)"
        "\<And>y. y \<noteq> x \<Longrightarrow> y \<noteq> p \<Longrightarrow> session g' y = session h y"
      using pair_outcome [OF m(5) pop(1) [unfolded 2] sx sp same(1-6)] by blast
    have "cb = c"
      using g'(3) sc by simp
    show ?thesis
      by (rule that [of g' ca]) (use g' \<open>cb = c\<close> m(2,4) same(7) sy in simp_all)
  qed
qed


text \<open>Two players, on connections 10 and 20.\<close>

definition lobby_of_two :: GameServer where
  "lobby_of_two = onLogin 0 (3, 4) 20 ''bob'' demo1"

lemma lobby_of_two_fields:
  "gs_ts.reach lobby_of_two" "connToPlayer lobby_of_two = [10 \<mapsto> 1, 20 \<mapsto> 2]" "matchQueue lobby_of_two = newMatchQueue"
  "\<exists>s. session lobby_of_two 1 = Some s \<and> state s = kLobby \<and> playerId s = 1"
  "\<exists>s. session lobby_of_two 2 = Some s \<and> state s = kLobby \<and> playerId s = 2"
proof -
  have n: "nextPlayerId demo1 = 2"
    by (simp add: demo1_def demo0_def onLogin_def startServer_def scheduleSweep_def Let_def put_session_def enqueue_def)
  show "gs_ts.reach lobby_of_two"
    by (rule gs_ts.reach_step [OF demo_reach(2) gs_request [of 0 "ReqLogin 20 (3, 4) ''bob''"]]) (simp add: lobby_of_two_def)
  show "connToPlayer lobby_of_two = [10 \<mapsto> 1, 20 \<mapsto> 2]" "matchQueue lobby_of_two = newMatchQueue"
      "\<exists>s. session lobby_of_two 1 = Some s \<and> state s = kLobby \<and> playerId s = 1"
      "\<exists>s. session lobby_of_two 2 = Some s \<and> state s = kLobby \<and> playerId s = 2"
    by (simp_all add: lobby_of_two_def onLogin_def Let_def n demo1_fields)
qed


end
