(* ===== verification/Shutdown.thy ===== *)
theory Shutdown
  imports LobbyLimits
begin

text \<open>
  The destructor of the game server (\<^verbatim>\<open>GameServer::~GameServer\<close>): a hand-shake over the lobby and the game
  threads. A task on the lobby stops the wheel's driver, empties the room table and posts to the
  loop of every room a closure that stops the room and counts down; the last one posts a task to the
  lobby that destroys the pool of game threads and releases the main thread.

  \<open>TStop\<close> in a loop's queue stands for that closure, \<open>resetQ\<close> counts the final tasks posted to the
  lobby, \<open>doneCount\<close> the calls of \<^verbatim>\<open>done.set_value()\<close> (a second one would throw). The IO threads keep
  posting requests meanwhile, the rooms keep ticking; the wheel no longer advances.
\<close>

subsection \<open>The destructor\<close>

record Shutdown =
  srv :: GameServer
  remain :: nat
  resetQ :: nat
  poolGone :: bool
  doneCount :: nat

definition resetPool :: "Shutdown \<Rightarrow> Shutdown" where
  "resetPool d = d\<lparr> poolGone := True, doneCount := doneCount d + 1 \<rparr>"

text \<open>\<open>finishOne\<close>, called on loop \<open>l\<close>.\<close>

definition finishOne :: "nat \<Rightarrow> Shutdown \<Rightarrow> Shutdown" where
  "finishOne l d =
     (let d' = d\<lparr> remain := remain d - 1 \<rparr> in
      if remain d = 1
      then (if l = lobbyLoop (srv d) then resetPool d' else d'\<lparr> resetQ := resetQ d' + 1 \<rparr>)
      else d')"

definition stopClosure :: "nat \<Rightarrow> nat \<Rightarrow> Shutdown \<Rightarrow> Shutdown" where
  "stopClosure l rid d = finishOne l (d\<lparr> srv := runTask l rid TStop (srv d) \<rparr>)"

definition stopRoom :: "nat \<Rightarrow> Shutdown \<Rightarrow> Shutdown" where
  "stopRoom rid d = (case roomHeap (srv d) rid of
       None \<Rightarrow> d
     | Some (l, _) \<Rightarrow>
         if l = lobbyLoop (srv d) then stopClosure l rid d
         else d\<lparr> srv := (srv d)\<lparr> loopQ := (loopQ (srv d))(l := loopQ (srv d) l @ [(rid, TStop)]) \<rparr> \<rparr>)"

text \<open>The task the destructor runs on the lobby; \<open>ids\<close> enumerates the room table.\<close>

definition destructor :: "nat list \<Rightarrow> GameServer \<Rightarrow> Shutdown" where
  "destructor ids g =
     (let d = \<lparr> srv = g\<lparr> rooms := {} \<rparr>, remain = length ids, resetQ = 0, poolGone = False, doneCount = 0 \<rparr> in
      if ids = [] then resetPool d else fold stopRoom ids d)"

text \<open>A request that pairs two players asks the pool for a loop.\<close>

definition asks_pool :: "GameServer \<Rightarrow> GameServer \<Rightarrow> bool" where
  "asks_pool g g' \<longleftrightarrow> nextRoomId g' \<noteq> nextRoomId g"

text \<open>What can happen from then on. A request that asks for a loop when the pool is gone is no step: the
  code dereferences a null pointer there. Destroying the pool joins its threads.\<close>

inductive sd_step :: "Shutdown \<Rightarrow> Shutdown \<Rightarrow> bool" where
  sd_request: "lobby_exec now req (srv d) = Some g' \<Longrightarrow> \<not> (poolGone d \<and> asks_pool (srv d) g') \<Longrightarrow>
    sd_step d (d\<lparr> srv := g' \<rparr>)"
| sd_room_end: "roomEnds (srv d) = (rid, w) # q \<Longrightarrow>
    sd_step d (d\<lparr> srv := onRoomEnd rid w ((srv d)\<lparr> roomEnds := q \<rparr>) \<rparr>)"
| sd_room_task: "loopQ (srv d) l = (rid, t) # q \<Longrightarrow> \<not> poolGone d \<or> l = lobbyLoop (srv d) \<Longrightarrow> t \<noteq> TStop \<Longrightarrow>
    sd_step d (d\<lparr> srv := runTask l rid t ((srv d)\<lparr> loopQ := (loopQ (srv d))(l := q) \<rparr>) \<rparr>)"
| sd_stop: "loopQ (srv d) l = (rid, TStop) # q \<Longrightarrow> \<not> poolGone d \<or> l = lobbyLoop (srv d) \<Longrightarrow>
    sd_step d (stopClosure l rid (d\<lparr> srv := (srv d)\<lparr> loopQ := (loopQ (srv d))(l := q) \<rparr> \<rparr>))"
| sd_room_tick: "roomHeap (srv d) rid = Some (l, r) \<Longrightarrow> ticker r \<Longrightarrow> \<not> poolGone d \<or> l = lobbyLoop (srv d) \<Longrightarrow>
    sd_step d (d\<lparr> srv := runTask l rid TTick (srv d) \<rparr>)"
| sd_reset: "0 < resetQ d \<Longrightarrow> sd_step d (resetPool (d\<lparr> resetQ := resetQ d - 1 \<rparr>))"

subsection \<open>What the lobby leaves alone\<close>

text \<open>The rooms \<open>D\<close> are out of the table, and their numbers are taken.\<close>

definition away :: "nat set \<Rightarrow> GameServer \<Rightarrow> bool" where
  "away D g \<longleftrightarrow> D \<inter> rooms g = {} \<and> (\<forall>rid \<in> D. rid < nextRoomId g)"

text \<open>A change that does not touch the rooms \<open>D\<close>, queues no stop closure, and queues nothing but ticker
  resets on the lobby's own loop.\<close>

definition harmless :: "nat set \<Rightarrow> bool \<Rightarrow> nat \<times> room_task \<Rightarrow> bool" where
  "harmless D own x \<longleftrightarrow> fst x \<notin> D \<and> snd x \<noteq> TStop \<and> (own \<longrightarrow> snd x = TTickerReset)"

definition idle :: "nat set \<Rightarrow> GameServer \<Rightarrow> GameServer \<Rightarrow> bool" where
  "idle D g g' \<longleftrightarrow> (\<forall>rid \<in> D. roomHeap g' rid = roomHeap g rid) \<and> lobbyLoop g' = lobbyLoop g \<and>
     (\<forall>l. \<exists>zs. loopQ g' l = loopQ g l @ zs \<and> set zs \<subseteq> {x. harmless D (l = lobbyLoop g) x}) \<and>
     (away D g \<longrightarrow> away D g')"

lemma idle_refl [simp]: "idle D g g"
  by (simp add: idle_def)

lemma idle_away: "idle D g g' \<Longrightarrow> away D g \<Longrightarrow> away D g'"
  by (simp add: idle_def)

lemma idle_trans:
  assumes "idle D g g'" "idle D g' g''"
  shows "idle D g g''"
proof -
  have "\<exists>zs. loopQ g'' l = loopQ g l @ zs \<and> set zs \<subseteq> {x. harmless D (l = lobbyLoop g) x}" for l
  proof -
    obtain zs where "loopQ g' l = loopQ g l @ zs" "set zs \<subseteq> {x. harmless D (l = lobbyLoop g) x}"
      using assms(1) unfolding idle_def by blast
    moreover obtain zs' where "loopQ g'' l = loopQ g' l @ zs'" "set zs' \<subseteq> {x. harmless D (l = lobbyLoop g) x}"
      using assms unfolding idle_def by metis
    ultimately show ?thesis
      by (intro exI [of _ "zs @ zs'"]) auto
  qed
  then show ?thesis
    using assms by (simp add: idle_def)
qed

lemma idle_same:
  "roomHeap g' = roomHeap g \<Longrightarrow> loopQ g' = loopQ g \<Longrightarrow> rooms g' \<subseteq> rooms g \<Longrightarrow> nextRoomId g' = nextRoomId g \<Longrightarrow>
   lobbyLoop g' = lobbyLoop g \<Longrightarrow> idle D g g'"
  by (auto simp: idle_def away_def)

lemma idle_post:
  "rid \<notin> D \<Longrightarrow> t \<noteq> TStop \<Longrightarrow> l \<noteq> lobbyLoop g \<or> t = TTickerReset \<Longrightarrow>
   idle D g (g\<lparr> loopQ := (loopQ g)(l := loopQ g l @ [(rid, t)]) \<rparr>)"
  by (auto simp: idle_def away_def harmless_def)

lemma idle_callback: "rid \<notin> D \<Longrightarrow> idle D g (room_callback l rid e g)"
  by (cases e) (auto simp: idle_post onRoomEnd_def Let_def split: prod.split intro!: idle_same)

lemma idle_callbacks: "rid \<notin> D \<Longrightarrow> idle D g (fold (room_callback l rid) es g)"
  by (induction es arbitrary: g) (auto intro: idle_trans idle_callback)

lemma idle_runTask: "rid \<notin> D \<Longrightarrow> idle D g (runTask l rid t g)"
proof -
  assume rid: "rid \<notin> D"
  then have "idle D g (g\<lparr> roomHeap := (roomHeap g)(rid \<mapsto> x) \<rparr>)" for x
    by (auto simp: idle_def away_def)
  from idle_trans [OF this idle_callbacks [OF rid]] show ?thesis
    by (simp add: runTask_def split: option.split prod.split)
qed

lemma idle_runInLoop: "rid \<notin> D \<Longrightarrow> t \<noteq> TStop \<Longrightarrow> idle D g (runInLoop rid t g)"
  by (auto simp: runInLoop_def idle_runTask idle_post split: option.split)

text \<open>The handlers: their room tasks go to rooms of the table only, or to a new one.\<close>

lemma away_room: "away D g \<Longrightarrow> rid \<in> rooms g \<Longrightarrow> rid \<notin> D"
  by (auto simp: away_def)

lemma idle_put [simp]: "idle D g (put_session s p g)"
  by (rule idle_same) (simp_all add: put_session_def)

lemma idle_enqueue [simp]: "idle D g (enqueue t g)" "idle D g (emit es g)"
  by (rule idle_same; simp)+

lemma idle_login: "idle D g (onLogin now rng c acc g)"
  by (rule idle_same) (simp_all add: onLogin_def Let_def put_session_def)

text \<open>A handler that changes other fields and then posts at most one task to a room of the table.\<close>

lemma idle_then_run:
  assumes "away D g" "t \<noteq> TStop"
    and same: "roomHeap g' = roomHeap g" "loopQ g' = loopQ g" "rooms g' = rooms g" "nextRoomId g' = nextRoomId g" "lobbyLoop g' = lobbyLoop g"
  shows "idle D g (if b \<and> rid \<in> rooms g' then runInLoop rid t g' else g')"
proof -
  have "idle D g g'"
    using same by (intro idle_same) simp_all
  then show ?thesis
    using away_room [OF assms(1), of rid] assms(2) same(3) by (auto intro: idle_trans idle_runInLoop)
qed

lemma idle_reconnect:
  assumes "away D g"
  shows "idle D g (onReconnect now c p tok g)"
proof (cases "session g p")
  case (Some s)
  show ?thesis
  proof (cases "token s \<noteq> tok \<or> conn s \<noteq> None")
    case False
    show ?thesis
      unfolding onReconnect_def Some option.case if_not_P [OF False] Let_def
      by (rule idle_trans [OF idle_then_run idle_enqueue(1)]) (simp_all add: assms put_session_def)
  qed (simp add: onReconnect_def Some)
qed (simp add: onReconnect_def)

lemma idle_input: "away D g \<Longrightarrow> idle D g (onInput c inp g)"
  using away_room by (auto simp: onInput_def intro: idle_runInLoop split: option.split)

lemma idle_heartbeat: "idle D g (onHeartbeat now c hb g)"
  by (rule idle_same) (simp_all add: onHeartbeat_def put_session_def split: option.split)

lemma idle_disconnect:
  assumes "away D g"
  shows "idle D g (onDisconnect c g)"
proof (cases "connToPlayer g c")
  case (Some p)
  let ?g = "g\<lparr> connToPlayer := (connToPlayer g)(c := None) \<rparr>"
  show ?thesis
  proof (cases "session g p")
    case None
    then show ?thesis
      by (auto simp: onDisconnect_def Some intro!: idle_same)
  next
    case s: (Some s)
    define s1 where "s1 = (if state s = kMatching then s\<lparr> conn := None, state := kLobby \<rparr> else s\<lparr> conn := None \<rparr>)"
    define q where "q = (if state s = kMatching then remove (matchQueue g) p else matchQueue g)"
    define g1 where "g1 = put_session s1 p g\<lparr> connToPlayer := (connToPlayer g)(c := None), matchQueue := q \<rparr>"
    define g2 where "g2 = (if state s1 = kInRoom \<and> roomId s1 \<in> rooms g1 then runInLoop (roomId s1) (TDrop p) g1 else g1)"
    obtain i w where add: "TimerWheel.add (wheel g2) kSessionKeepMs (ExpireSession p) = (i, w)"
      by fastforce
    have "idle D g g2"
      unfolding g2_def by (rule idle_then_run) (simp_all add: assms g1_def put_session_def)
    moreover have "idle D g2 (g2\<lparr> wheel := w, sessions := ss \<rparr>)" for ss
      by (rule idle_same) simp_all
    ultimately show ?thesis
      unfolding onDisconnect_eq [OF Some s s1_def q_def g1_def g2_def add]
      using idle_trans idle_enqueue(1) by blast
  qed
qed (simp add: onDisconnect_def)

lemma idle_cancel: "idle D g (cancelMatchTimer p g)"
  by (rule idle_same) (simp_all add: cancelMatchTimer_def split: option.split)

lemma idle_enter: "idle D g (enter rid p g)"
  by (simp add: enter_def split: option.split)

lemma idle_tryMatch:
  assumes "away D g" "tryMatch g = Some g'"
  shows "idle D g g'"
proof -
  obtain r q where pop: "popPair (matchQueue g) = Some (r, q)"
    using assms(2) by (auto simp: tryMatch_def split: option.splits)
  let ?g = "g\<lparr> matchQueue := q \<rparr>"
  have q: "idle D g ?g"
    by (rule idle_same) simp_all
  show ?thesis
  proof (cases "\<exists>a b sa sb. r = Some (a, b) \<and> session g a = Some sa \<and> session g b = Some sb")
    case False
    then have "g' = ?g"
      using assms(2) pop by (auto simp: tryMatch_def Let_def split: option.splits)
    then show ?thesis
      using q by simp
  next
    case True
    then obtain a b sa sb where r: "r = Some (a, b)" "session g a = Some sa" "session g b = Some sb"
      by blast
    define g1 where "g1 = cancelMatchTimer b (cancelMatchTimer a ?g)"
    obtain l pool where lp: "getNextLoop (gamePool g1) = (l, pool)"
      by fastforce
    define rid where "rid = nextRoomId g1"
    define room where "room = newRoom rid [(playerId sa, conn sa), (playerId sb, conn sb)] True"
    define g2 where "g2 = g1\<lparr> nextRoomId := rid + 1, gamePool := pool, rooms := insert rid (rooms g1),
      roomHeap := (roomHeap g1)(rid \<mapsto> (l, room)) \<rparr>"
    have g': "g' = runInLoop rid TStart (enter rid b (enter rid a g2))"
      using assms(2) pop r lp by (simp add: tryMatch_def Let_def g1_def g2_def rid_def room_def)
    have g1: "idle D g g1"
      unfolding g1_def using q idle_cancel idle_trans by blast
    then have away: "away D g1"
      using assms(1) idle_away by blast
    then have rid: "rid \<notin> D"
      by (auto simp: away_def rid_def)
    have "baseLoop pool = baseLoop (gamePool g1)"
      using lp by (auto simp: getNextLoop_def split: if_splits)
    then have "idle D g1 g2"
      using rid away by (auto simp: g2_def idle_def away_def rid_def)
    moreover have "idle D g2 g'"
      unfolding g' by (rule idle_trans [OF idle_enter idle_trans [OF idle_enter idle_runInLoop [OF rid]]]) simp
    ultimately show ?thesis
      using g1 idle_trans by blast
  qed
qed

lemma idle_match:
  assumes "away D g" "onMatch c g = Some g'"
  shows "idle D g g'"
proof (cases "sessionOf g c")
  case (Some s)
  show ?thesis
  proof (cases "state s = kLobby \<and> fst (push (matchQueue g) (playerId s))")
    case True
    obtain q where push: "push (matchQueue g) (playerId s) = (True, q)"
      using True by (metis (full_types) prod.collapse)
    obtain i w where add: "TimerWheel.add (wheel g) kMatchTimeoutMs (MatchTimeout (playerId s)) = (i, w)"
      by fastforce
    define g1 where "g1 = put_session (s\<lparr> state := kMatching \<rparr>) (playerId s) (g\<lparr> matchQueue := q \<rparr>)
      \<lparr> wheel := w, matchTimer := (matchTimer g)(playerId s \<mapsto> i) \<rparr>"
    have 1: "idle D g g1"
      by (rule idle_same) (simp_all add: g1_def put_session_def)
    have "tryMatch g1 = Some g'"
      using assms(2) Some True push add by (simp add: onMatch_def Let_def g1_def put_session_def)
    then show ?thesis
      by (rule idle_trans [OF 1 idle_tryMatch [OF idle_away [OF 1 assms(1)]]])
  next
    case False
    then have "g' = g \<or> g' = g\<lparr> matchQueue := snd (push (matchQueue g) (playerId s)) \<rparr>"
      using assms(2) Some by (auto simp: onMatch_def split: if_splits prod.splits bool.splits)
    then show ?thesis
      by (auto intro: idle_same)
  qed
qed (use assms in \<open>simp add: onMatch_def\<close>)

lemma idle_request: "away D g \<Longrightarrow> lobby_exec now req g = Some g' \<Longrightarrow> idle D g g'"
  by (cases req) (auto simp: idle_login idle_reconnect idle_input idle_heartbeat idle_disconnect intro: idle_match)

subsection \<open>The lobby's own loop\<close>

text \<open>Nothing but ticker resets is ever queued on the lobby's loop: every other room task runs at once there.\<close>

definition calm :: "GameServer \<Rightarrow> bool" where
  "calm g \<longleftrightarrow> (\<forall>x \<in> set (loopQ g (lobbyLoop g)). snd x = TTickerReset)"

lemma idle_calm:
  assumes "idle D g g'" "calm g"
  shows "calm g'"
proof -
  obtain zs where "loopQ g' (lobbyLoop g) = loopQ g (lobbyLoop g) @ zs" "set zs \<subseteq> {x. harmless D True x}"
    using assms(1) unfolding idle_def by metis
  moreover have "lobbyLoop g' = lobbyLoop g"
    using assms(1) by (simp add: idle_def)
  ultimately show ?thesis
    using assms(2) by (auto simp: calm_def harmless_def)
qed

lemma away_none [simp]: "away {} g"
  by (simp add: away_def)

lemma idle_fire: "idle {} g (fire now cb g)"
proof (cases cb)
  case (MatchTimeout p)
  show ?thesis
    by (rule idle_same) (simp_all add: MatchTimeout matchTimedOut_def Let_def put_session_def split: option.split)
next
  case (ExpireSession p)
  have "idle {} g (h\<lparr> sessions := ss \<rparr>)" if "idle {} g h" for h ss
    using idle_trans [OF that idle_same] by simp
  then show ?thesis
    by (auto simp: ExpireSession expireSession_def Let_def idle_runInLoop split: option.split)
next
  case Sweep
  show ?thesis
    by (rule idle_same) (simp_all add: Sweep scheduleSweep_def sweepHeartbeats_def)
qed

interpretation calm_tc: timer_client "run_cb now" "\<lambda>_ _. calm" for now
proof unfold_locales
  fix w cb w' and g g' :: GameServer
  assume "calm g" "run_cb now cb (w, g) = (w', g')"
  moreover have "calm (g\<lparr> wheel := w \<rparr>) = calm g"
    by (simp add: calm_def)
  ultimately show "calm g'"
    using idle_calm [OF idle_fire [of "g\<lparr> wheel := w \<rparr>" now cb]] by (auto simp: run_cb_def Let_def)
qed

lemma step_calm:
  assumes inv: "gs_inv g" and calm: "calm g" and st: "gs_step g g'"
  shows "calm g'"
  using st
proof cases
  case (gs_request now req)
  then show ?thesis
    using idle_calm [OF idle_request [OF away_none]] calm by blast
next
  case (gs_wheel now)
  have w: "wheel_inv 1 [] (wheel g)"
    using inv by (simp add: gs_inv_def lobby_inv_def)
  obtain fired w' h where adv: "advance (run_cb now) 100 (wheel g, g) = (fired, w', h)"
    by (metis prod.exhaust)
  show ?thesis
    using calm_tc.advance_inv [OF w calm adv] by (simp add: gs_wheel advanceWheel_def adv calm_def)
next
  case (gs_room_end rid w q)
  then show ?thesis
    using calm by (simp add: calm_def onRoomEnd_def Let_def split: prod.split)
next
  case (gs_room_task l rid t q)
  have "calm (g\<lparr> loopQ := (loopQ g)(l := q) \<rparr>)"
    using calm gs_room_task(2) by (auto simp: calm_def)
  then show ?thesis
    using idle_calm [OF idle_runTask [of rid "{}"]] gs_room_task(1) by simp
next
  case (gs_room_tick rid l r)
  then show ?thesis
    using idle_calm [OF idle_runTask [of rid "{}"] calm] by simp
qed

lemma reach_calm: "gs_ts.reach g \<Longrightarrow> calm g"
proof (induction rule: gs_ts.reach.induct)
  case (reach_init g)
  then show ?case
    by (auto simp: calm_def startServer_def scheduleSweep_def)
next
  case (reach_step g g')
  then show ?case
    using step_calm reach_inv by blast
qed

subsection \<open>The life of a room during the shutdown\<close>

text \<open>Tasks of room \<open>rid\<close> are queued on loop \<open>l\<close> only.\<close>

definition queued_on :: "nat \<Rightarrow> nat \<Rightarrow> GameServer \<Rightarrow> bool" where
  "queued_on rid l g \<longleftrightarrow> (\<forall>l' t. (rid, t) \<in> set (loopQ g l') \<longrightarrow> l' = l)"

lemma queued_on_frame [simp]: "queued_on rid l (g\<lparr> roomHeap := h \<rparr>) = queued_on rid l g"
  by (simp add: queued_on_def)

text \<open>A room the destructor has not reached yet, one whose stop closure is queued, and a stopped one.\<close>

definition untold :: "nat \<Rightarrow> GameServer \<Rightarrow> bool" where
  "untold rid g \<longleftrightarrow> (\<exists>l r. roomHeap g rid = Some (l, r) \<and> queued_on rid l g \<and> (rid, TStop) \<notin> set (loopQ g l))"

definition pending :: "nat \<Rightarrow> GameServer \<Rightarrow> bool" where
  "pending rid g \<longleftrightarrow> (\<exists>l r xs ys. roomHeap g rid = Some (l, r) \<and> queued_on rid l g \<and>
     loopQ g l = xs @ (rid, TStop) # ys \<and> (rid, TStop) \<notin> set xs \<and> (rid, TStop) \<notin> set ys \<and> (rid, TStart) \<notin> set ys)"

definition stopped :: "nat \<Rightarrow> GameServer \<Rightarrow> bool" where
  "stopped rid g \<longleftrightarrow> (\<exists>l r. roomHeap g rid = Some (l, r) \<and> queued_on rid l g \<and> ended r \<and> \<not> ticker r \<and>
     (rid, TStop) \<notin> set (loopQ g l) \<and> (rid, TStart) \<notin> set (loopQ g l))"

text \<open>A change as seen by one room on loop \<open>l\<close>: the queues grow by tasks that are neither its start nor
  its stop, and its own tasks go to its own loop.\<close>

definition grows :: "nat \<Rightarrow> nat \<Rightarrow> GameServer \<Rightarrow> GameServer \<Rightarrow> bool" where
  "grows rid l g g' \<longleftrightarrow> (\<forall>k. \<exists>zs. loopQ g' k = loopQ g k @ zs \<and>
     (\<forall>t. (rid, t) \<in> set zs \<longrightarrow> k = l \<and> t \<noteq> TStop \<and> t \<noteq> TStart))"

lemma growsD:
  assumes "grows rid l g g'"
  obtains zs where "loopQ g' k = loopQ g k @ zs" "\<And>t. (rid, t) \<in> set zs \<Longrightarrow> k = l \<and> t \<noteq> TStop \<and> t \<noteq> TStart"
  using assms unfolding grows_def by blast

lemma grows_on:
  assumes "grows rid l g g'" "queued_on rid l g"
  shows "queued_on rid l g'"
  unfolding queued_on_def
proof (intro allI impI)
  fix k t
  assume "(rid, t) \<in> set (loopQ g' k)"
  then show "k = l"
    using growsD [OF assms(1), of k] assms(2) unfolding queued_on_def by (metis Un_iff set_append)
qed

lemma grow_untold:
  assumes g: "grows rid l g g'" and "untold rid g" "roomHeap g rid = Some (l, r)" "roomHeap g' rid = Some (l, r')"
  shows "untold rid g'"
proof -
  have u: "queued_on rid l g" "(rid, TStop) \<notin> set (loopQ g l)"
    using assms(2,3) by (auto simp: untold_def)
  obtain zs where "loopQ g' l = loopQ g l @ zs" "\<And>t. (rid, t) \<in> set zs \<Longrightarrow> l = l \<and> t \<noteq> TStop \<and> t \<noteq> TStart"
    using growsD [OF g] by blast
  with u have "(rid, TStop) \<notin> set (loopQ g' l)"
    by auto
  then show ?thesis
    using grows_on [OF g u(1)] assms(4) by (auto simp: untold_def)
qed

lemma grow_pending:
  assumes g: "grows rid l g g'" and "pending rid g" "roomHeap g rid = Some (l, r)" "roomHeap g' rid = Some (l, r')"
  shows "pending rid g'"
proof -
  obtain xs ys where p: "queued_on rid l g" "loopQ g l = xs @ (rid, TStop) # ys" "(rid, TStop) \<notin> set xs"
    "(rid, TStop) \<notin> set ys" "(rid, TStart) \<notin> set ys"
    using assms(2,3) by (auto simp: pending_def)
  obtain zs where "loopQ g' l = loopQ g l @ zs" "\<And>t. (rid, t) \<in> set zs \<Longrightarrow> l = l \<and> t \<noteq> TStop \<and> t \<noteq> TStart"
    using growsD [OF g] by blast
  with p have "loopQ g' l = xs @ (rid, TStop) # (ys @ zs)" "(rid, TStop) \<notin> set (ys @ zs)" "(rid, TStart) \<notin> set (ys @ zs)"
    by auto
  then show ?thesis
    using grows_on [OF g p(1)] assms(4) p(3) unfolding pending_def by blast
qed

lemma grow_stopped:
  assumes g: "grows rid l g g'" and "stopped rid g" "roomHeap g rid = Some (l, r)" "roomHeap g' rid = Some (l, r')"
    and r': "ended r \<Longrightarrow> \<not> ticker r \<Longrightarrow> ended r' \<and> \<not> ticker r'"
  shows "stopped rid g'"
proof -
  have u: "queued_on rid l g" "(rid, TStop) \<notin> set (loopQ g l)" "(rid, TStart) \<notin> set (loopQ g l)" "ended r'" "\<not> ticker r'"
    using assms(2,3) r' by (auto simp: stopped_def)
  obtain zs where "loopQ g' l = loopQ g l @ zs" "\<And>t. (rid, t) \<in> set zs \<Longrightarrow> l = l \<and> t \<noteq> TStop \<and> t \<noteq> TStart"
    using growsD [OF g] by blast
  with u have "(rid, TStop) \<notin> set (loopQ g' l)" "(rid, TStart) \<notin> set (loopQ g' l)"
    by auto
  then show ?thesis
    using grows_on [OF g u(1)] assms(4) u(4,5) by (auto simp: stopped_def)
qed

lemma idle_grows:
  assumes "idle D g g'" "rid \<in> D"
  shows "grows rid l g g'" "roomHeap g' rid = roomHeap g rid"
proof -
  have "\<exists>zs. loopQ g' k = loopQ g k @ zs \<and> (\<forall>t. (rid, t) \<in> set zs \<longrightarrow> k = l \<and> t \<noteq> TStop \<and> t \<noteq> TStart)" for k
  proof -
    obtain zs where "loopQ g' k = loopQ g k @ zs" "set zs \<subseteq> {x. harmless D (k = lobbyLoop g) x}"
      using assms(1) unfolding idle_def by blast
    then show ?thesis
      using assms(2) by (intro exI [of _ zs]) (auto simp: harmless_def)
  qed
  then show "grows rid l g g'"
    by (simp add: grows_def)
  show "roomHeap g' rid = roomHeap g rid"
    using assms by (simp add: idle_def)
qed

text \<open>Popping a task that is not a stop closure.\<close>

abbreviation popped :: "nat \<Rightarrow> (nat \<times> room_task) list \<Rightarrow> GameServer \<Rightarrow> GameServer" where
  "popped l q g \<equiv> g\<lparr> loopQ := (loopQ g)(l := q) \<rparr>"

lemma pop_on: "loopQ g l = x # q \<Longrightarrow> queued_on rid k g \<Longrightarrow> queued_on rid k (popped l q g)"
  unfolding queued_on_def by (auto split: if_splits) (metis list.set_intros(2))

lemma pop_less: "loopQ g l = x # q \<Longrightarrow> y \<notin> set (loopQ g k) \<Longrightarrow> y \<notin> set (loopQ (popped l q g) k)"
  by auto

lemma pop_untold:
  assumes "loopQ g l = x # q" "untold rid g"
  shows "untold rid (popped l q g)"
proof -
  obtain k r where u: "roomHeap g rid = Some (k, r)" "queued_on rid k g" "(rid, TStop) \<notin> set (loopQ g k)"
    using assms(2) by (auto simp: untold_def)
  from pop_on [OF assms(1) u(2)] pop_less [OF assms(1) u(3)] u(1) show ?thesis
    unfolding untold_def by (intro exI [of _ k] exI [of _ r]) simp
qed

lemma pop_stopped:
  assumes "loopQ g l = x # q" "stopped rid g"
  shows "stopped rid (popped l q g)"
proof -
  obtain k r where u: "roomHeap g rid = Some (k, r)" "queued_on rid k g" "(rid, TStop) \<notin> set (loopQ g k)"
    "(rid, TStart) \<notin> set (loopQ g k)" "ended r" "\<not> ticker r"
    using assms(2) by (auto simp: stopped_def)
  from pop_on [OF assms(1) u(2)] pop_less [OF assms(1) u(3)] pop_less [OF assms(1) u(4)] u(1,5,6) show ?thesis
    unfolding stopped_def by (intro exI [of _ k] exI [of _ r]) simp
qed

lemma pop_pending:
  assumes "loopQ g l = (i, t) # q" "(i, t) \<noteq> (rid, TStop)" "pending rid g"
  shows "pending rid (popped l q g)"
proof -
  obtain k r xs ys where p: "roomHeap g rid = Some (k, r)" "queued_on rid k g" "loopQ g k = xs @ (rid, TStop) # ys"
    "(rid, TStop) \<notin> set xs" "(rid, TStop) \<notin> set ys" "(rid, TStart) \<notin> set ys"
    using assms(3) by (auto simp: pending_def)
  have on: "queued_on rid k (popped l q g)"
    by (rule pop_on [OF assms(1) p(2)])
  show ?thesis
  proof (cases "k = l")
    case True
    then have "xs \<noteq> []"
      using p(3) assms(1,2) by auto
    then have "q = tl xs @ (rid, TStop) # ys" "(rid, TStop) \<notin> set (tl xs)"
      using p(3,4) assms(1) True by (auto simp: neq_Nil_conv)
    then show ?thesis
      using on p True unfolding pending_def by fastforce
  next
    case False
    then show ?thesis
      using on p unfolding pending_def by fastforce
  qed
qed

subsection \<open>Room tasks during the shutdown\<close>

lemma grows_refl [simp]: "grows rid l g g"
  by (simp add: grows_def)

lemma grows_trans:
  assumes "grows rid l g g'" "grows rid l g' g''"
  shows "grows rid l g g''"
  unfolding grows_def
proof
  fix k
  obtain zs where z: "loopQ g' k = loopQ g k @ zs" "\<And>t. (rid, t) \<in> set zs \<Longrightarrow> k = l \<and> t \<noteq> TStop \<and> t \<noteq> TStart"
    using growsD [OF assms(1)] by blast
  obtain zs' where "loopQ g'' k = loopQ g' k @ zs'" "\<And>t. (rid, t) \<in> set zs' \<Longrightarrow> k = l \<and> t \<noteq> TStop \<and> t \<noteq> TStart"
    using growsD [OF assms(2)] by blast
  with z show "\<exists>zs. loopQ g'' k = loopQ g k @ zs \<and> (\<forall>t. (rid, t) \<in> set zs \<longrightarrow> k = l \<and> t \<noteq> TStop \<and> t \<noteq> TStart)"
    by (intro exI [of _ "zs @ zs'"]) auto
qed

lemma callback_self:
  "roomHeap (room_callback l rid e g) = roomHeap g \<and> grows rid l g (room_callback l rid e g) \<and> rooms (room_callback l rid e g) \<subseteq> rooms g"
  by (cases e) (auto simp: grows_def onRoomEnd_def Let_def split: prod.split)

lemma callbacks_self:
  "roomHeap (fold (room_callback l rid) es g) = roomHeap g \<and> grows rid l g (fold (room_callback l rid) es g) \<and>
   rooms (fold (room_callback l rid) es g) \<subseteq> rooms g"
proof (induction es arbitrary: g)
  case (Cons e es)
  then show ?case
    using callback_self [of l rid e g] grows_trans by (metis (no_types, lifting) fold_simps(2) order_trans)
qed simp

lemma runTask_self:
  assumes "roomHeap g rid = Some (k, r)" "room_exec (hypotf g) t r = (r', es)"
  shows "roomHeap (runTask l rid t g) rid = Some (l, r')" "grows rid l g (runTask l rid t g)" "rooms (runTask l rid t g) \<subseteq> rooms g"
proof -
  let ?h = "g\<lparr> roomHeap := (roomHeap g)(rid \<mapsto> (l, r')) \<rparr>"
  have run: "runTask l rid t g = fold (room_callback l rid) es ?h"
    using assms by (simp add: runTask_def)
  have "grows rid l g ?h"
    by (simp add: grows_def)
  then show "roomHeap (runTask l rid t g) rid = Some (l, r')" "grows rid l g (runTask l rid t g)" "rooms (runTask l rid t g) \<subseteq> rooms g"
    unfolding run using callbacks_self [of l rid es ?h] grows_trans by auto
qed

lemma stopped_stays:
  "room_exec h t r = (r', es) \<Longrightarrow> t \<noteq> TStart \<Longrightarrow> ended r \<Longrightarrow> \<not> ticker r \<Longrightarrow> ended r' \<and> \<not> ticker r'"
  by (cases t) (auto simp: Room.onInput_def rebind_def dropConn_def forceEnd_def stop_def tickerReset_def Let_def split: if_splits)

text \<open>The state of the server during the shutdown: rooms still to be stopped, stopped, and not yet told.\<close>

definition srv_inv :: "nat set \<Rightarrow> nat set \<Rightarrow> nat set \<Rightarrow> GameServer \<Rightarrow> bool" where
  "srv_inv P S U g \<longleftrightarrow> (\<forall>rid \<in> P. pending rid g) \<and> (\<forall>rid \<in> S. stopped rid g) \<and> (\<forall>rid \<in> U. untold rid g) \<and>
     away (P \<union> S \<union> U) g \<and> (\<forall>l rid. (rid, TStop) \<in> set (loopQ g l) \<longrightarrow> rid \<in> P)"

lemma grow_keeps:
  assumes "\<And>l. grows rid l g g'" "roomHeap g' rid = roomHeap g rid"
  shows "pending rid g \<Longrightarrow> pending rid g'" "stopped rid g \<Longrightarrow> stopped rid g'" "untold rid g \<Longrightarrow> untold rid g'"
proof -
  show "pending rid g'" if p: "pending rid g"
  proof -
    obtain l r where "roomHeap g rid = Some (l, r)"
      using p by (auto simp: pending_def)
    then show ?thesis
      using grow_pending [OF assms(1) p] assms(2) by simp
  qed
  show "stopped rid g'" if p: "stopped rid g"
  proof -
    obtain l r where "roomHeap g rid = Some (l, r)"
      using p by (auto simp: stopped_def)
    then show ?thesis
      using grow_stopped [OF assms(1) p] assms(2) by simp
  qed
  show "untold rid g'" if p: "untold rid g"
  proof -
    obtain l r where "roomHeap g rid = Some (l, r)"
      using p by (auto simp: untold_def)
    then show ?thesis
      using grow_untold [OF assms(1) p] assms(2) by simp
  qed
qed

lemma idle_keeps:
  assumes "idle D g g'" "rid \<in> D"
  shows "pending rid g \<Longrightarrow> pending rid g'" "stopped rid g \<Longrightarrow> stopped rid g'" "untold rid g \<Longrightarrow> untold rid g'"
  using grow_keeps [OF idle_grows [OF assms]] by blast+

lemma idle_no_stop:
  assumes "idle D g g'" "(rid, TStop) \<in> set (loopQ g' l)"
  shows "(rid, TStop) \<in> set (loopQ g l)"
proof -
  obtain zs where "loopQ g' l = loopQ g l @ zs" "set zs \<subseteq> {x. harmless D (l = lobbyLoop g) x}"
    using assms(1) unfolding idle_def by blast
  then show ?thesis
    using assms(2) by (auto simp: harmless_def)
qed

lemma srv_invI:
  "(\<And>rid. rid \<in> P \<Longrightarrow> pending rid g) \<Longrightarrow> (\<And>rid. rid \<in> S \<Longrightarrow> stopped rid g) \<Longrightarrow> (\<And>rid. rid \<in> U \<Longrightarrow> untold rid g) \<Longrightarrow>
   away (P \<union> S \<union> U) g \<Longrightarrow> (\<And>l rid. (rid, TStop) \<in> set (loopQ g l) \<Longrightarrow> rid \<in> P) \<Longrightarrow> srv_inv P S U g"
  by (simp add: srv_inv_def)

lemma srv_invD:
  assumes "srv_inv P S U g"
  shows "rid \<in> P \<Longrightarrow> pending rid g" "rid \<in> S \<Longrightarrow> stopped rid g" "rid \<in> U \<Longrightarrow> untold rid g"
    "away (P \<union> S \<union> U) g" "(rid, TStop) \<in> set (loopQ g l) \<Longrightarrow> rid \<in> P"
  using assms by (auto simp: srv_inv_def)

lemma inv_idle:
  assumes "srv_inv P S U g" "idle (P \<union> S \<union> U) g g'"
  shows "srv_inv P S U g'"
  by (rule srv_invI)
    (use srv_invD [OF assms(1)] idle_keeps [OF assms(2)] idle_away [OF assms(2)] idle_no_stop [OF assms(2)] in blast)+

text \<open>Any task but a stop closure.\<close>

lemma inv_run:
  assumes inv: "srv_inv P S U g" and t: "t \<noteq> TStop" "t = TStart \<Longrightarrow> rid \<notin> S"
    and home: "roomHeap g rid = Some (l, r)"
  shows "srv_inv P S U (runTask l rid t g)"
proof -
  let ?D = "P \<union> S \<union> U" and ?g = "runTask l rid t g"
  obtain r' es where ex: "room_exec (hypotf g) t r = (r', es)"
    by fastforce
  note self = runTask_self [OF home ex, of l]
  have others: "idle (?D - {rid}) g ?g"
    by (rule idle_runTask) simp
  have stop: "(i, TStop) \<in> set (loopQ ?g k) \<Longrightarrow> i \<in> P" for i k
    using idle_no_stop [OF idle_runTask [of rid "{}"]] srv_invD(5) [OF inv] by blast
  have "nextRoomId ?g = nextRoomId g"
    using lobby_frameD(6) [OF runTask_frame] .
  then have away: "away ?D ?g"
    using srv_invD(4) [OF inv] self(3) by (auto simp: away_def)
  show ?thesis
  proof (rule srv_invI [OF _ _ _ away stop])
    fix i
    show "pending i ?g" if "i \<in> P"
      using that idle_keeps(1) [OF others] grow_pending [OF self(2) _ home self(1)] srv_invD(1) [OF inv] by (cases "i = rid") auto
    show "untold i ?g" if "i \<in> U"
      using that idle_keeps(3) [OF others] grow_untold [OF self(2) _ home self(1)] srv_invD(3) [OF inv] by (cases "i = rid") auto
    show "stopped i ?g" if "i \<in> S"
      using that idle_keeps(2) [OF others] grow_stopped [OF self(2) _ home self(1) stopped_stays [OF ex]] t(2)
        srv_invD(2) [OF inv] by (cases "i = rid") auto
  qed
qed

lemma inv_home:
  assumes "srv_inv P S U g" "rid \<in> P \<union> S \<union> U"
  obtains l r where "roomHeap g rid = Some (l, r)" "queued_on rid l g"
  using assms that by (auto simp: srv_inv_def pending_def stopped_def untold_def)

lemma inv_pop:
  assumes "srv_inv P S U g" "loopQ g l = (rid, t) # q" "t \<noteq> TStop"
  shows "srv_inv P S U (popped l q g)"
proof (rule srv_invI)
  show "away (P \<union> S \<union> U) (popped l q g)"
    using srv_invD(4) [OF assms(1)] by (simp add: away_def)
  show "(i, TStop) \<in> set (loopQ (popped l q g) k) \<Longrightarrow> i \<in> P" for i k
    using srv_invD(5) [OF assms(1)] pop_less [OF assms(2)] by blast
qed (use srv_invD [OF assms(1)] pop_pending [OF assms(2)] pop_stopped [OF assms(2)] pop_untold [OF assms(2)] assms(3) in auto)

lemma inv_task:
  assumes inv: "srv_inv P S U g" and q: "loopQ g l = (rid, t) # q" and t: "t \<noteq> TStop"
  shows "srv_inv P S U (runTask l rid t (popped l q g))"
proof (cases "rid \<in> P \<union> S \<union> U")
  case True
  obtain k r where h: "roomHeap g rid = Some (k, r)" "queued_on rid k g"
    using inv_home [OF inv True] .
  then have k: "k = l"
    using q unfolding queued_on_def by (metis list.set_intros(1))
  have "rid \<notin> S" if "t = TStart"
    using srv_invD(2) [OF inv, of rid] h k q that by (auto simp: stopped_def)
  then show ?thesis
    using inv_run [OF inv_pop [OF inv q t] t] h(1) k by auto
next
  case False
  then show ?thesis
    by (rule inv_idle [OF inv_pop [OF inv q t] idle_runTask])
qed

text \<open>A stop closure.\<close>

lemma inv_stop:
  assumes inv: "srv_inv P S U g" and q: "loopQ g l = (rid, TStop) # q"
  shows "rid \<in> P" "srv_inv (P - {rid}) (insert rid S) U (runTask l rid TStop (popped l q g))"
proof -
  let ?p = "popped l q g" and ?g = "runTask l rid TStop (popped l q g)"
  show P: "rid \<in> P"
    using srv_invD(5) [OF inv, of rid l] q by simp
  then obtain k r xs ys where p: "roomHeap g rid = Some (k, r)" "queued_on rid k g" "loopQ g k = xs @ (rid, TStop) # ys"
    "(rid, TStop) \<notin> set xs" "(rid, TStop) \<notin> set ys" "(rid, TStart) \<notin> set ys"
    using srv_invD(1) [OF inv P] unfolding pending_def by blast
  have k: "k = l"
    using p(2) q unfolding queued_on_def by (metis list.set_intros(1))
  have "xs = []"
    using p(3,4) q k by (cases xs) auto
  then have ys: "q = ys"
    using p(3) q k by simp
  have home: "roomHeap ?p rid = Some (l, r)"
    using p(1) k by simp
  have ex: "room_exec (hypotf ?p) TStop r = (stop r, [])"
    by simp
  note self = runTask_self [OF home ex, of l]
  have "queued_on rid l ?p"
    using pop_on [OF q p(2)] k by simp
  then have "stopped rid (?p\<lparr> roomHeap := (roomHeap ?p)(rid \<mapsto> (l, stop r)) \<rparr>)"
    unfolding stopped_def using p(5,6) ys by (intro exI [of _ l] exI [of _ "stop r"]) (simp add: stop_def)
  moreover have run: "?g = ?p\<lparr> roomHeap := (roomHeap ?p)(rid \<mapsto> (l, stop r)) \<rparr>"
    using home by (simp add: runTask_def)
  ultimately have st: "stopped rid ?g"
    by simp
  have others: "idle (P \<union> S \<union> U - {rid}) ?p ?g"
    by (rule idle_runTask) simp
  have out: "rid \<notin> U"
    using srv_invD(3) [OF inv, of rid] p(1,3) by (auto simp: untold_def)
  show "srv_inv (P - {rid}) (insert rid S) U ?g"
  proof (rule srv_invI)
    show "away (P - {rid} \<union> insert rid S \<union> U) ?g"
      using srv_invD(4) [OF inv] P by (auto simp: run away_def)
    show "i \<in> P - {rid}" if i: "(i, TStop) \<in> set (loopQ ?g m)" for i m
    proof -
      have "(i, TStop) \<in> set (loopQ g m)" "i = rid \<Longrightarrow> m = l \<and> (rid, TStop) \<in> set q"
        using i p(2) k q by (auto simp: run queued_on_def split: if_splits)
      then show ?thesis
        using srv_invD(5) [OF inv] p(5) ys by blast
    qed
    show "pending i ?g" if "i \<in> P - {rid}" for i
      using that idle_keeps(1) [OF others, of i] pop_pending [OF q] srv_invD(1) [OF inv] by simp
    show "untold i ?g" if "i \<in> U" for i
      using that idle_keeps(3) [OF others, of i] pop_untold [OF q] srv_invD(3) [OF inv] out by blast
    show "stopped i ?g" if "i \<in> insert rid S" for i
      using that st idle_keeps(2) [OF others, of i] pop_stopped [OF q] srv_invD(2) [OF inv] by (cases "i = rid") auto
  qed
qed

subsection \<open>The hand-shake\<close>

text \<open>The counters: as long as a room is to be stopped nothing is released; afterwards exactly one
  release is posted or has been done.\<close>

definition counters_ok :: "Shutdown \<Rightarrow> bool" where
  "counters_ok d \<longleftrightarrow> (if 0 < remain d then resetQ d = 0 \<and> doneCount d = 0 \<and> \<not> poolGone d
     else resetQ d + doneCount d = 1 \<and> (poolGone d \<longleftrightarrow> doneCount d = 1))"

definition sd_inv :: "nat set \<Rightarrow> nat set \<Rightarrow> Shutdown \<Rightarrow> bool" where
  "sd_inv D U d \<longleftrightarrow> finite D \<and> U \<subseteq> D \<and> (\<exists>P. P \<subseteq> D - U \<and> srv_inv P (D - U - P) U (srv d) \<and> remain d = card P + card U) \<and>
     counters_ok d"

lemma sd_invI:
  "finite D \<Longrightarrow> U \<subseteq> D \<Longrightarrow> P \<subseteq> D - U \<Longrightarrow> srv_inv P (D - U - P) U (srv d) \<Longrightarrow> remain d = card P + card U \<Longrightarrow>
   counters_ok d \<Longrightarrow> sd_inv D U d"
  unfolding sd_inv_def by blast

lemma counters_finish: "counters_ok d \<Longrightarrow> 0 < remain d \<Longrightarrow> counters_ok (finishOne l d)"
  by (auto simp: counters_ok_def finishOne_def resetPool_def Let_def)

lemma finish_fields [simp]: "srv (finishOne l d) = srv d" "remain (finishOne l d) = remain d - 1"
  by (simp_all add: finishOne_def resetPool_def Let_def)

lemma reset_fields [simp]: "srv (resetPool d) = srv d" "remain (resetPool d) = remain d"
  by (simp_all add: resetPool_def)

lemma sd_inv_srv:
  assumes "sd_inv D U d" "\<And>P S. srv_inv P S U (srv d) \<Longrightarrow> srv_inv P S U g"
  shows "sd_inv D U (d\<lparr> srv := g \<rparr>)"
proof -
  obtain P where P: "P \<subseteq> D - U" "srv_inv P (D - U - P) U (srv d)" "remain d = card P + card U"
    using assms(1) by (auto simp: sd_inv_def)
  then have "\<exists>P. P \<subseteq> D - U \<and> srv_inv P (D - U - P) U g \<and> remain d = card P + card U"
    using assms(2) by blast
  then show ?thesis
    using assms(1) by (simp add: sd_inv_def counters_ok_def)
qed

lemma sd_inv_stop:
  assumes inv: "sd_inv D U d" and q: "loopQ (srv d) l = (rid, TStop) # q"
  shows "sd_inv D U (stopClosure l rid (d\<lparr> srv := popped l q (srv d) \<rparr>))"
proof -
  obtain P where P: "P \<subseteq> D - U" "srv_inv P (D - U - P) U (srv d)" "remain d = card P + card U"
    using inv by (auto simp: sd_inv_def)
  have fin: "finite P"
    using P(1) inv by (auto simp: sd_inv_def intro: finite_subset)
  have rid: "rid \<in> P"
    by (rule inv_stop(1) [OF P(2) q])
  then have card: "card P = Suc (card (P - {rid}))"
    by (rule card_Suc_Diff1 [OF fin, symmetric])
  have "D - U - (P - {rid}) = insert rid (D - U - P)"
    using P(1) rid by auto
  then have "srv_inv (P - {rid}) (D - U - (P - {rid})) U (runTask l rid TStop (popped l q (srv d)))"
    using inv_stop(2) [OF P(2) q] by simp
  moreover have "counters_ok (stopClosure l rid (d\<lparr> srv := popped l q (srv d) \<rparr>))"
    unfolding stopClosure_def using inv P(3) card by (intro counters_finish) (simp_all add: sd_inv_def counters_ok_def)
  moreover have "P - {rid} \<subseteq> D - U" "remain (stopClosure l rid (d\<lparr> srv := popped l q (srv d) \<rparr>)) = card (P - {rid}) + card U"
    using P(1,3) card by (auto simp: stopClosure_def)
  moreover have "srv (stopClosure l rid (d\<lparr> srv := popped l q (srv d) \<rparr>)) = runTask l rid TStop (popped l q (srv d))"
    by (simp add: stopClosure_def)
  ultimately show ?thesis
    using inv unfolding sd_inv_def by metis
qed

lemma sd_inv_step:
  assumes inv: "sd_inv D U d" and st: "sd_step d d'" and U: "U = {}"
  shows "sd_inv D U d'"
  using st
proof cases
  case (sd_request now req g')
  have "srv_inv P S U g'" if "srv_inv P S U (srv d)" for P S
    using inv_idle [OF that idle_request [OF srv_invD(4) [OF that] sd_request(2)]] .
  then show ?thesis
    unfolding sd_request(1) by (rule sd_inv_srv [OF inv])
next
  case (sd_room_end rid w q)
  have i: "idle D' g (onRoomEnd rid w (g\<lparr> roomEnds := q \<rparr>))" for D' g
    by (rule idle_same) (auto simp: onRoomEnd_def Let_def split: prod.split)
  show ?thesis
    unfolding sd_room_end(1) by (rule sd_inv_srv [OF inv]) (rule inv_idle [OF _ i])
next
  case (sd_room_task l rid t q)
  show ?thesis
    unfolding sd_room_task(1) by (rule sd_inv_srv [OF inv]) (rule inv_task [OF _ sd_room_task(2,4)])
next
  case (sd_stop l rid q)
  then show ?thesis
    using sd_inv_stop [OF inv] by simp
next
  case (sd_room_tick rid l r)
  show ?thesis
    unfolding sd_room_tick(1) by (rule sd_inv_srv [OF inv]) (rule inv_run [OF _ _ _ sd_room_tick(2)]; simp)
next
  case sd_reset
  then show ?thesis
    using inv by (auto simp: sd_inv_def counters_ok_def resetPool_def split: if_splits)
qed

text \<open>The loop of the destructor over the rooms.\<close>

lemma stop_inline:
  assumes inv: "srv_inv P S (insert rid U) g" and "rid \<notin> P" "rid \<notin> U" "calm g" "roomHeap g rid = Some (lobbyLoop g, r)"
  shows "srv_inv P (insert rid S) U (runTask (lobbyLoop g) rid TStop g)"
proof -
  let ?l = "lobbyLoop g" and ?g = "runTask (lobbyLoop g) rid TStop g"
  have run: "?g = g\<lparr> roomHeap := (roomHeap g)(rid \<mapsto> (?l, stop r)) \<rparr>"
    using assms(5) by (simp add: runTask_def)
  have "(rid, t) \<notin> set (loopQ g ?l)" if "t \<noteq> TTickerReset" for t
    using assms(4) that by (auto simp: calm_def)
  moreover have "queued_on rid ?l g"
    using srv_invD(3) [OF inv, of rid] assms(5) by (auto simp: untold_def)
  ultimately have st: "stopped rid ?g"
    unfolding stopped_def run by (intro exI [of _ ?l] exI [of _ "stop r"]) (simp add: stop_def)
  have others: "idle (P \<union> S \<union> U - {rid}) g ?g"
    by (rule idle_runTask) simp
  show ?thesis
  proof (rule srv_invI)
    show "away (P \<union> insert rid S \<union> U) ?g"
      using srv_invD(4) [OF inv] by (auto simp: run away_def)
    show "i \<in> P" if "(i, TStop) \<in> set (loopQ ?g m)" for i m
      using that srv_invD(5) [OF inv, of i m] by (simp add: run)
    show "pending i ?g" if "i \<in> P" for i
      using that assms(2) idle_keeps(1) [OF others, of i] srv_invD(1) [OF inv] by blast
    show "untold i ?g" if "i \<in> U" for i
      using that assms(3) idle_keeps(3) [OF others, of i] srv_invD(3) [OF inv] by blast
    show "stopped i ?g" if "i \<in> insert rid S" for i
      using that st idle_keeps(2) [OF others, of i] srv_invD(2) [OF inv] by blast
  qed
qed

lemma stop_posted:
  assumes inv: "srv_inv P S (insert rid U) g" and "rid \<notin> P" "rid \<notin> S" "rid \<notin> U" "roomHeap g rid = Some (l, r)"
    and g': "g' = g\<lparr> loopQ := (loopQ g)(l := loopQ g l @ [(rid, TStop)]) \<rparr>"
  shows "srv_inv (insert rid P) S U g'"
proof -
  have u: "queued_on rid l g" "(rid, TStop) \<notin> set (loopQ g l)"
    using srv_invD(3) [OF inv, of rid] assms(5) by (auto simp: untold_def)
  have "queued_on rid l g'"
    using u(1) by (simp add: queued_on_def g')
  then have new: "pending rid g'"
    unfolding pending_def using u(2) assms(5)
    by (intro exI [of _ l] exI [of _ r] exI [of _ "loopQ g l"] exI [of _ "[]"]) (simp add: g')
  have grow: "grows i k g g'" "roomHeap g' i = roomHeap g i" if "i \<noteq> rid" for i k
    using that by (simp_all add: grows_def g')
  show ?thesis
  proof (rule srv_invI)
    show "away (insert rid P \<union> S \<union> U) g'"
      using srv_invD(4) [OF inv] by (simp add: g' away_def)
    show "i \<in> insert rid P" if "(i, TStop) \<in> set (loopQ g' m)" for i m
      using that srv_invD(5) [OF inv, of i m] srv_invD(5) [OF inv, of i l] by (auto simp: g' split: if_splits)
    show "pending i g'" if "i \<in> insert rid P" for i
      using that new grow_keeps(1) [OF grow, of i] srv_invD(1) [OF inv] by (cases "i = rid") auto
    show "untold i g'" if "i \<in> U" for i
      using that assms(4) grow_keeps(3) [OF grow, of i] srv_invD(3) [OF inv] by (cases "i = rid") auto
    show "stopped i g'" if "i \<in> S" for i
      using that assms(3) grow_keeps(2) [OF grow, of i] srv_invD(2) [OF inv] by (cases "i = rid") auto
  qed
qed

lemma stopRoom_here:
  assumes inv: "sd_inv D (insert rid U) d" and rid: "rid \<notin> U" "rid \<notin> P" and calm: "calm (srv d)"
    and P: "P \<subseteq> D - insert rid U" "srv_inv P (D - insert rid U - P) (insert rid U) (srv d)" and D: "finite D" "insert rid U \<subseteq> D"
    and rem: "remain d = Suc (card P + card U)" and h: "roomHeap (srv d) rid = Some (lobbyLoop (srv d), r)"
  shows "sd_inv D U (stopRoom rid d) \<and> calm (srv (stopRoom rid d))"
proof -
  let ?l = "lobbyLoop (srv d)"
  let ?g = "runTask ?l rid TStop (srv d)"
  have "insert rid (D - insert rid U - P) = D - U - P"
    using D(2) rid by auto
  then have "srv_inv P (D - U - P) U ?g"
    using stop_inline [OF P(2) rid(2,1) calm] h by simp
  moreover have "counters_ok (stopClosure ?l rid d)"
    unfolding stopClosure_def using inv rem by (intro counters_finish) (simp_all add: sd_inv_def counters_ok_def)
  moreover have "calm ?g"
    by (rule idle_calm [OF idle_runTask [of rid "{}"] calm]) simp
  moreover have "P \<subseteq> D - U" "remain (stopClosure ?l rid d) = card P + card U" "srv (stopClosure ?l rid d) = ?g"
    using P(1) rem by (auto simp: stopClosure_def)
  moreover have "stopRoom rid d = stopClosure ?l rid d"
    using h by (simp add: stopRoom_def)
  ultimately show ?thesis
    using D sd_invI [of D U P "stopClosure ?l rid d"] by simp
qed

lemma stopRoom_away:
  assumes inv: "sd_inv D (insert rid U) d" and rid: "rid \<notin> U" "rid \<notin> P" "finite P" and calm: "calm (srv d)"
    and P: "P \<subseteq> D - insert rid U" "srv_inv P (D - insert rid U - P) (insert rid U) (srv d)" and D: "finite D" "insert rid U \<subseteq> D"
    and rem: "remain d = Suc (card P + card U)" and h: "roomHeap (srv d) rid = Some (l, r)" "l \<noteq> lobbyLoop (srv d)"
  shows "sd_inv D U (stopRoom rid d) \<and> calm (srv (stopRoom rid d))"
proof -
  let ?g = "(srv d)\<lparr> loopQ := (loopQ (srv d))(l := loopQ (srv d) l @ [(rid, TStop)]) \<rparr>"
  have "rid \<notin> D - insert rid U - P"
    by simp
  from stop_posted [OF P(2) rid(2) this rid(1) h(1) refl] have "srv_inv (insert rid P) (D - insert rid U - P) U ?g" .
  moreover have "D - insert rid U - P = D - U - insert rid P"
    by auto
  moreover have "calm ?g"
    using calm h(2) by (auto simp: calm_def)
  moreover have "insert rid P \<subseteq> D - U" "remain d = card (insert rid P) + card U"
    using P(1) D(2) rid rem by auto
  moreover have "counters_ok (d\<lparr> srv := ?g \<rparr>)"
    using inv by (simp add: sd_inv_def counters_ok_def)
  moreover have "stopRoom rid d = d\<lparr> srv := ?g \<rparr>"
    using h by (simp add: stopRoom_def)
  ultimately show ?thesis
    using D sd_invI [of D U "insert rid P" "d\<lparr> srv := ?g \<rparr>"] by simp
qed

lemma stopRoom_inv:
  assumes inv: "sd_inv D (insert rid U) d" and "rid \<notin> U" and calm: "calm (srv d)"
  shows "sd_inv D U (stopRoom rid d)" "calm (srv (stopRoom rid d))"
proof -
  obtain P where P: "P \<subseteq> D - insert rid U" "srv_inv P (D - insert rid U - P) (insert rid U) (srv d)"
    "remain d = card P + card (insert rid U)" and D: "finite D" "insert rid U \<subseteq> D"
    using inv by (auto simp: sd_inv_def)
  have fin: "finite P" "finite U" "rid \<notin> P"
    using P(1) D by (auto intro: finite_subset)
  have rem: "remain d = Suc (card P + card U)"
    using P(3) fin(2) assms(2) by simp
  obtain l r where h: "roomHeap (srv d) rid = Some (l, r)"
    using inv_home [OF P(2), of rid] by blast
  have "sd_inv D U (stopRoom rid d) \<and> calm (srv (stopRoom rid d))"
    using stopRoom_here [OF inv assms(2) fin(3) calm P(1,2) D rem, of r] stopRoom_away [OF inv assms(2) fin(3,1) calm P(1,2) D rem h] h
    by (cases "l = lobbyLoop (srv d)") simp_all
  then show "sd_inv D U (stopRoom rid d)" "calm (srv (stopRoom rid d))"
    by auto
qed

lemma stopRooms_inv:
  "distinct ids \<Longrightarrow> sd_inv D (set ids) d \<Longrightarrow> calm (srv d) \<Longrightarrow> sd_inv D {} (fold stopRoom ids d)"
proof (induction ids arbitrary: d)
  case (Cons rid ids)
  then show ?case
    using stopRoom_inv [of D rid "set ids" d] by simp
qed simp

lemma destructor_inv:
  assumes "gs_ts.reach g" "distinct ids" "set ids = rooms g"
  shows "sd_inv (rooms g) {} (destructor ids g)"
proof -
  let ?g = "g\<lparr> rooms := {} \<rparr>"
  let ?d = "\<lparr> srv = ?g, remain = length ids, resetQ = 0, poolGone = False, doneCount = 0 \<rparr>"
  have inv: "lobby_inv [] None {} g"
    using reach_inv [OF assms(1)] by (simp add: gs_inv_def)
  have "untold rid ?g" if "rid \<in> rooms g" for rid
  proof -
    have "roomHeap g rid \<noteq> None"
      using lobby_invD(5) [OF inv] that by (simp add: room_ok_def)
    then obtain l r where h: "roomHeap g rid = Some (l, r)"
      by auto
    have "l' = l \<and> t \<noteq> TStop" if "(rid, t) \<in> set (loopQ g l')" for l' t
      using lobby_invD(7) [OF inv] that h unfolding queues_ok_def by (metis option.inject prod.inject)
    then show ?thesis
      unfolding untold_def queued_on_def using h by (intro exI [of _ l] exI [of _ r]) auto
  qed
  moreover have "away (rooms g) ?g"
    using lobby_invD(5) [OF inv] by (auto simp: room_ok_def away_def)
  moreover have "(rid, TStop) \<notin> set (loopQ g l)" for rid l
    using lobby_invD(7) [OF inv] by (auto simp: queues_ok_def)
  ultimately have srv: "srv_inv {} {} (rooms g) ?g"
    by (simp add: srv_inv_def)
  have fin: "finite (rooms g)" "card (rooms g) = length ids"
    using assms(2,3) distinct_card [OF assms(2)] by (metis List.finite_set, simp)
  show ?thesis
  proof (cases "ids = []")
    case True
    then show ?thesis
      using srv assms(3) by (auto simp: destructor_def sd_inv_def counters_ok_def resetPool_def)
  next
    case False
    then have "sd_inv (rooms g) (set ids) ?d"
      using srv fin assms(3) by (auto simp: sd_inv_def counters_ok_def intro!: exI [of _ "{}"])
    moreover have "calm ?g"
      using reach_calm [OF assms(1)] by (simp add: calm_def)
    ultimately show ?thesis
      using stopRooms_inv [OF assms(2), of "rooms g" ?d] False by (simp add: destructor_def)
  qed
qed

subsection \<open>Progress\<close>

text \<open>A loop reaches its next stop closure: the tasks ahead of it only queue behind it.\<close>

lemma drain_one:
  "loopQ (srv d) l = xs @ (rid, TStop) # ys \<Longrightarrow> \<forall>x \<in> set xs. snd x \<noteq> TStop \<Longrightarrow> \<not> poolGone d \<Longrightarrow> sd_inv D {} d \<Longrightarrow>
   \<exists>d'. sd_step\<^sup>*\<^sup>* d d' \<and> sd_inv D {} d' \<and> remain d' = remain d - 1"
proof (induction xs arbitrary: d ys)
  case Nil
  let ?d = "stopClosure l rid (d\<lparr> srv := popped l ys (srv d) \<rparr>)"
  have "sd_step d ?d"
    using sd_stop [of d l rid ys] Nil by simp
  moreover have "remain ?d = remain d - 1"
    by (simp add: stopClosure_def)
  ultimately show ?case
    using sd_inv_step [OF Nil.prems(4)] by blast
next
  case (Cons x xs)
  obtain i t where x: "x = (i, t)"
    by (cases x)
  let ?p = "popped l (xs @ (rid, TStop) # ys) (srv d)"
  let ?d = "d\<lparr> srv := runTask l i t ?p \<rparr>"
  have st: "sd_step d ?d"
    using sd_room_task [of d l i t] Cons.prems x by simp
  obtain zs where "loopQ (runTask l i t ?p) l = loopQ ?p l @ zs"
    using idle_runTask [of i "{}" ?p l t] unfolding idle_def by blast
  then have "loopQ (srv ?d) l = xs @ (rid, TStop) # (ys @ zs)"
    by simp
  from Cons.IH [OF this] Cons.prems(2,3) sd_inv_step [OF Cons.prems(4) st refl]
  obtain d' where "sd_step\<^sup>*\<^sup>* ?d d'" "sd_inv D {} d'" "remain d' = remain d - 1"
    by auto
  then show ?case
    using st by (meson converse_rtranclp_into_rtranclp)
qed

lemma drain:
  assumes "sd_inv D {} d" "0 < remain d"
  shows "\<exists>d'. sd_step\<^sup>*\<^sup>* d d' \<and> sd_inv D {} d' \<and> remain d' = remain d - 1"
proof -
  obtain P where P: "srv_inv P (D - P) {} (srv d)" "remain d = card P"
    using assms(1) by (auto simp: sd_inv_def)
  then obtain rid where "rid \<in> P"
    using assms(2) by (metis card.empty equals0I less_numeral_extra(3))
  then obtain l where "(rid, TStop) \<in> set (loopQ (srv d) l)"
    using srv_invD(1) [OF P(1)] unfolding pending_def by (metis in_set_conv_decomp)
  then obtain xs y ys where q: "loopQ (srv d) l = xs @ y # ys" "snd y = TStop" "\<forall>x \<in> set xs. snd x \<noteq> TStop"
    using split_list_first_prop [of "loopQ (srv d) l" "\<lambda>x. snd x = TStop"] by (metis snd_conv)
  then have "loopQ (srv d) l = xs @ (fst y, TStop) # ys"
    by (metis prod.collapse)
  moreover have "\<not> poolGone d"
    using assms by (simp add: sd_inv_def counters_ok_def)
  ultimately show ?thesis
    using drain_one q(3) assms(1) by blast
qed

lemma shutdown_progress:
  "sd_inv D {} d \<Longrightarrow> \<exists>d'. sd_step\<^sup>*\<^sup>* d d' \<and> doneCount d' = 1"
proof (induction "remain d" arbitrary: d)
  case 0
  then have c: "resetQ d + doneCount d = 1"
    by (simp add: sd_inv_def counters_ok_def)
  show ?case
  proof (cases "doneCount d = 1")
    case False
    then have "0 < resetQ d" "doneCount (resetPool (d\<lparr> resetQ := resetQ d - 1 \<rparr>)) = 1"
      using c by (auto simp: resetPool_def)
    then show ?thesis
      using sd_reset by blast
  qed blast
next
  case (Suc n)
  obtain d' where d': "sd_step\<^sup>*\<^sup>* d d'" "sd_inv D {} d'" "remain d' = n"
    using drain [OF Suc.prems] Suc.hyps(2) by auto
  then show ?case
    using Suc.hyps(1) [of d'] by (meson rtranclp_trans)
qed

lemma sd_run_inv: "sd_step\<^sup>*\<^sup>* d d' \<Longrightarrow> sd_inv D {} d \<Longrightarrow> sd_inv D {} d'"
  by (induction rule: rtranclp_induct) (use sd_inv_step in blast)+




end
