(* ===== verification/Decimal.thy ===== *)
theory Decimal
  imports Prelude
begin

text \<open>
  The decimal conversions of the C library that the program uses: printing with \<^verbatim>\<open>%d\<close>, \<^verbatim>\<open>%u\<close> and \<^verbatim>\<open>std::to_string\<close>,
  reading with \<^verbatim>\<open>std::atoi\<close>; shared by the storage clients, the address text and the command lines.
\<close>

definition digit :: "nat \<Rightarrow> char" where
  "digit d = ''0123456789'' ! d"

fun dec :: "nat \<Rightarrow> string" where
  "dec n = (if n < 10 then [digit n] else dec (n div 10) @ [digit (n mod 10)])"

declare dec.simps [simp del]

definition decInt :: "int \<Rightarrow> string" where
  "decInt i = (if i < 0 then CHR 0x2D # dec (nat (- i)) else dec (nat i))"

text \<open>\<^verbatim>\<open>atoi\<close>: white space, a sign, digits. Overflow, undefined in C, does not wrap here.\<close>

definition digitVal :: "char \<Rightarrow> nat" where
  "digitVal c = of_char c - 48"

definition isDigit :: "char \<Rightarrow> bool" where
  "isDigit c \<longleftrightarrow> (48 :: nat) \<le> of_char c \<and> of_char c \<le> (57 :: nat)"

definition isSpace :: "char \<Rightarrow> bool" where
  "isSpace c \<longleftrightarrow> of_char c = (32 :: nat) \<or> ((9 :: nat) \<le> of_char c \<and> of_char c \<le> (13 :: nat))"

definition digitsVal :: "string \<Rightarrow> int" where
  "digitsVal s = int (foldl (\<lambda>n c. 10 * n + digitVal c) 0 (takeWhile isDigit s))"

definition atoi :: "string \<Rightarrow> int" where
  "atoi s = (case dropWhile isSpace s of
       [] \<Rightarrow> 0
     | c # cs \<Rightarrow> if c = CHR 0x2D then - digitsVal cs else if c = CHR 0x2B then digitsVal cs else digitsVal (c # cs))"

subsection \<open>Reading what was printed\<close>

lemma digit_code: "d < 10 \<Longrightarrow> of_char (digit d) = (48 + d :: nat)"
proof -
  have "\<forall>d \<in> set [0..<10]. of_char (digit d) = (48 + d :: nat)"
    by (simp add: upt_conv_Cons digit_def)
  then show "d < 10 \<Longrightarrow> of_char (digit d) = (48 + d :: nat)"
    by simp
qed

lemma isDigit_digit [simp]: "d < 10 \<Longrightarrow> isDigit (digit d)" "d < 10 \<Longrightarrow> digitVal (digit d) = d"
  by (simp_all add: isDigit_def digitVal_def digit_code)

lemma dec_digits: "list_all isDigit (dec n)" "dec n \<noteq> []"
proof (induction n rule: dec.induct)
  case (1 n)
  show "list_all isDigit (dec n)" "dec n \<noteq> []"
    using 1 by (cases "n < 10"; simp add: dec.simps [of n])+
qed

lemma dec_value: "foldl (\<lambda>n c. 10 * n + digitVal c) 0 (dec n) = n"
proof (induction n rule: dec.induct)
  case (1 n)
  then show ?case
    by (cases "n < 10") (simp_all add: dec.simps [of n])
qed

lemma takeWhile_digits: "list_all isDigit xs \<Longrightarrow> \<not> isDigit c \<Longrightarrow> takeWhile isDigit (xs @ c # ys) = xs"
  "list_all isDigit xs \<Longrightarrow> takeWhile isDigit xs = xs"
  by (simp_all add: list_all_iff takeWhile_eq_all_conv)

lemma digit_not_special: "isDigit c \<Longrightarrow> \<not> isSpace c \<and> c \<noteq> CHR 0x2D \<and> c \<noteq> CHR 0x2B"
  by (auto simp: isDigit_def isSpace_def)

text \<open>\<^verbatim>\<open>atoi\<close> reads back what the printing functions write, negative numbers included.\<close>

lemma atoi_dec: "atoi (dec n) = int n"
proof -
  obtain c cs where c: "dec n = c # cs" "isDigit c"
    using dec_digits [of n] by (cases "dec n") auto
  have "digitsVal (dec n) = int n"
    using dec_digits(1) [of n] by (simp add: digitsVal_def takeWhile_digits dec_value)
  then show ?thesis
    using digit_not_special [OF c(2)] by (simp add: atoi_def c(1))
qed

lemma atoi_decInt: "atoi (decInt i) = i"
proof (cases "i < 0")
  case True
  have "digitsVal (dec (nat (- i))) = - i"
    using dec_digits(1) True by (simp add: digitsVal_def takeWhile_digits dec_value)
  then show ?thesis
    using True by (simp add: decInt_def atoi_def isSpace_def)
qed (simp add: decInt_def atoi_dec)

lemma dec_inject: "dec m = dec n \<longleftrightarrow> m = n"
  using atoi_dec by (metis of_nat_eq_iff)

lemma dec_length:
  assumes "n < 1000"
  shows "length (dec n) \<le> 3"
proof -
  have "n div 10 div 10 < 10"
    using assms by auto
  then show ?thesis
    by (simp add: dec.simps [of n] dec.simps [of "n div 10"] dec.simps [of "n div 10 div 10"])
qed

end
