(* ===== verification/Storage.thy ===== *)
theory Storage
  imports Lobby Decimal
begin

text \<open>
  The storage thread's clients, \<^verbatim>\<open>storage/RedisClient.cc\<close> and \<^verbatim>\<open>storage/MySqlStore.cc\<close>, and the storage tasks of
  \<^verbatim>\<open>game/GameServer.cc\<close> run on them. hiredis and libmysqlclient are parameters: records of the functions
  the code calls, over a state of the server behind them. \<open>rlog\<close> and \<open>mlog\<close> are histories of the commands and
  statements handed to the libraries. None is a null pointer that is dereferenced.
\<close>

subsection \<open>C strings\<close>

text \<open>What a callee sees of \<^verbatim>\<open>s.c_str()\<close>.\<close>

definition cstr :: "string \<Rightarrow> string" where
  "cstr s = takeWhile (\<lambda>c. c \<noteq> CHR 0x00) s"

subsection \<open>Redis\<close>

datatype redisReply = ReplyStatus string | ReplyError string | ReplyInteger int | ReplyNil | ReplyString string
  | ReplyArray "redisReply list"

text \<open>\<open>rConnect\<close> answers None for a null context, or whether the context has an error; \<open>rCommand\<close> gets the
  arguments the format string expands to and answers None for a null reply.\<close>

record 'r Hiredis =
  rConnect :: "string \<Rightarrow> int \<Rightarrow> 'r \<Rightarrow> bool option \<times> 'r"
  rCommand :: "string list \<Rightarrow> 'r \<Rightarrow> redisReply option \<times> 'r"
  rFree :: "'r \<Rightarrow> 'r"

record 'r RedisClient =
  rctx :: bool
  rsrv :: 'r
  rlog :: "string list list"

definition redisConnect :: "'r Hiredis \<Rightarrow> string \<Rightarrow> int \<Rightarrow> 'r RedisClient \<Rightarrow> bool \<times> 'r RedisClient" where
  "redisConnect lib host port c =
     (case rConnect lib (cstr host) port (if rctx c then rFree lib (rsrv c) else rsrv c) of
        (None, s) \<Rightarrow> (False, c\<lparr> rctx := False, rsrv := s \<rparr>)
      | (Some err, s) \<Rightarrow> (\<not> err, c\<lparr> rctx := True, rsrv := s \<rparr>))"

definition redisDestroy :: "'r Hiredis \<Rightarrow> 'r RedisClient \<Rightarrow> 'r" where
  "redisDestroy lib c = (if rctx c then rFree lib (rsrv c) else rsrv c)"

definition redisCommand :: "'r Hiredis \<Rightarrow> string list \<Rightarrow> 'r RedisClient \<Rightarrow> (redisReply option \<times> 'r RedisClient) option" where
  "redisCommand lib args c =
     (if \<not> rctx c then None
      else case rCommand lib args (rsrv c) of (r, s) \<Rightarrow> Some (r, c\<lparr> rsrv := s, rlog := rlog c @ [args] \<rparr>))"

definition ping :: "'r Hiredis \<Rightarrow> 'r RedisClient \<Rightarrow> (bool \<times> 'r RedisClient) option" where
  "ping lib c =
     (if \<not> rctx c then Some (False, c)
      else case redisCommand lib [''PING''] c of
             None \<Rightarrow> None
           | Some (r, c) \<Rightarrow> Some (case r of Some (ReplyStatus _) \<Rightarrow> True | _ \<Rightarrow> False, c))"

text \<open>\<open>delta\<close> is the text that \<^verbatim>\<open>%f\<close> makes of the increment.\<close>

definition zincrby :: "'r Hiredis \<Rightarrow> string \<Rightarrow> string \<Rightarrow> string \<Rightarrow> 'r RedisClient \<Rightarrow> (bool \<times> 'r RedisClient) option" where
  "zincrby lib key mem delta c =
     (case redisCommand lib [''ZINCRBY'', cstr key, delta, cstr mem] c of
        None \<Rightarrow> None
      | Some (r, c) \<Rightarrow> Some (case r of None \<Rightarrow> False | Some (ReplyError _) \<Rightarrow> False | Some _ \<Rightarrow> True, c))"

text \<open>The field \<^verbatim>\<open>str\<close> of a reply; None is a null pointer.\<close>

fun replyStr :: "redisReply \<Rightarrow> string option" where
  "replyStr (ReplyStatus s) = Some s"
| "replyStr (ReplyError s) = Some s"
| "replyStr (ReplyString s) = Some s"
| "replyStr _ = None"

text \<open>The loop over the array, two elements at a time; \<open>atof\<close> is the C function.\<close>

fun pairUp :: "(string \<Rightarrow> 'd) \<Rightarrow> redisReply list \<Rightarrow> (string \<times> 'd) list option" where
  "pairUp atof (x # y # rs) =
     (case (replyStr x, replyStr y) of
        (Some m, Some s) \<Rightarrow> map_option ((#) (cstr m, atof (cstr s))) (pairUp atof rs)
      | _ \<Rightarrow> None)"
| "pairUp atof _ = Some []"

definition ztopN :: "'r Hiredis \<Rightarrow> (string \<Rightarrow> 'd) \<Rightarrow> string \<Rightarrow> int \<Rightarrow> 'r RedisClient \<Rightarrow> ((string \<times> 'd) list \<times> 'r RedisClient) option" where
  "ztopN lib atof key n c =
     (case redisCommand lib [''ZREVRANGE'', cstr key, ''0'', decInt (n - 1), ''WITHSCORES''] c of
        None \<Rightarrow> None
      | Some (Some (ReplyArray rs), c) \<Rightarrow> map_option (\<lambda>out. (out, c)) (pairUp atof rs)
      | Some (_, c) \<Rightarrow> Some ([], c))"

definition redisSet :: "'r Hiredis \<Rightarrow> string \<Rightarrow> string \<Rightarrow> 'r RedisClient \<Rightarrow> (bool \<times> 'r RedisClient) option" where
  "redisSet lib key val c =
     (case redisCommand lib [''SET'', cstr key, cstr val] c of
        None \<Rightarrow> None
      | Some (r, c) \<Rightarrow> Some (case r of Some (ReplyStatus _) \<Rightarrow> True | _ \<Rightarrow> False, c))"

definition del :: "'r Hiredis \<Rightarrow> string \<Rightarrow> 'r RedisClient \<Rightarrow> (bool \<times> 'r RedisClient) option" where
  "del lib key c =
     (case redisCommand lib [''DEL'', cstr key] c of
        None \<Rightarrow> None
      | Some (r, c) \<Rightarrow> Some (case r of Some (ReplyInteger _) \<Rightarrow> True | _ \<Rightarrow> False, c))"

definition exists :: "'r Hiredis \<Rightarrow> string \<Rightarrow> 'r RedisClient \<Rightarrow> (bool \<times> 'r RedisClient) option" where
  "exists lib key c =
     (case redisCommand lib [''EXISTS'', cstr key] c of
        None \<Rightarrow> None
      | Some (r, c) \<Rightarrow> Some (r = Some (ReplyInteger 1), c))"

subsection \<open>MySQL\<close>

text \<open>\<open>mQuery\<close> is whether \<^verbatim>\<open>mysql_query\<close> answered 0; \<open>mResult\<close> the rows of \<^verbatim>\<open>mysql_store_result\<close> (None for a null
  result, a field None for a null column). The character set of the connection is fixed, so
  \<open>mEscape\<close> has no state.\<close>

record 'm MySqlLib =
  mConnect :: "string \<Rightarrow> string \<Rightarrow> string \<Rightarrow> string \<Rightarrow> 'm \<Rightarrow> bool \<times> 'm"
  mQuery :: "string \<Rightarrow> 'm \<Rightarrow> bool \<times> 'm"
  mResult :: "'m \<Rightarrow> string option list list option \<times> 'm"
  mEscape :: "string \<Rightarrow> string"
  mClose :: "'m \<Rightarrow> 'm"

record 'm MySqlStore =
  mconn :: bool
  msrv :: 'm
  mlog :: "string list"

definition mysqlConnect :: "'m MySqlLib \<Rightarrow> string \<Rightarrow> string \<Rightarrow> string \<Rightarrow> string \<Rightarrow> 'm MySqlStore \<Rightarrow> bool \<times> 'm MySqlStore" where
  "mysqlConnect lib host user pass db c =
     (case mConnect lib (cstr host) (cstr user) (cstr pass) (cstr db) (if mconn c then mClose lib (msrv c) else msrv c) of
        (False, s) \<Rightarrow> (False, c\<lparr> mconn := False, msrv := mClose lib s \<rparr>)
      | (True, s) \<Rightarrow> (True, c\<lparr> mconn := True, msrv := s \<rparr>))"

definition mysqlDestroy :: "'m MySqlLib \<Rightarrow> 'm MySqlStore \<Rightarrow> 'm" where
  "mysqlDestroy lib c = (if mconn c then mClose lib (msrv c) else msrv c)"

text \<open>The library reads the connection, so a null one is undefined.\<close>

definition escape :: "'m MySqlLib \<Rightarrow> string \<Rightarrow> 'm MySqlStore \<Rightarrow> string option" where
  "escape lib s c = (if mconn c then Some (mEscape lib s) else None)"

definition exec :: "'m MySqlLib \<Rightarrow> string \<Rightarrow> 'm MySqlStore \<Rightarrow> bool \<times> 'm MySqlStore" where
  "exec lib sql c =
     (if \<not> mconn c then (False, c)
      else case mQuery lib (cstr sql) (msrv c) of (ok, s) \<Rightarrow> (ok, c\<lparr> msrv := s, mlog := mlog c @ [cstr sql] \<rparr>))"

definition schemaSql :: string where
  "schemaSql = ''CREATE TABLE IF NOT EXISTS players (  account VARCHAR(64) PRIMARY KEY,  wins INT NOT NULL DEFAULT 0,'' @
     ''  losses INT NOT NULL DEFAULT 0,  updated_at TIMESTAMP DEFAULT CURRENT_TIMESTAMP     ON UPDATE CURRENT_TIMESTAMP)''"

definition ensureSchema :: "'m MySqlLib \<Rightarrow> 'm MySqlStore \<Rightarrow> bool \<times> 'm MySqlStore" where
  "ensureSchema lib c = exec lib schemaSql c"

definition winPrefix :: string where
  "winPrefix = ''INSERT INTO players(account, wins) VALUES('' @ [CHR 0x27]"

definition winSuffix :: string where
  "winSuffix = '', 1) ON DUPLICATE KEY UPDATE wins = wins + 1''"

definition lossPrefix :: string where
  "lossPrefix = ''INSERT INTO players(account, losses) VALUES('' @ [CHR 0x27]"

definition lossSuffix :: string where
  "lossSuffix = '', 1) ON DUPLICATE KEY UPDATE losses = losses + 1''"

definition recordResult :: "'m MySqlLib \<Rightarrow> string \<Rightarrow> string \<Rightarrow> 'm MySqlStore \<Rightarrow> (bool \<times> 'm MySqlStore) option" where
  "recordResult lib winnerAcc loserAcc c =
     (case escape lib winnerAcc c of
        None \<Rightarrow> None
      | Some w \<Rightarrow>
          let (ok, c) = exec lib (winPrefix @ w @ CHR 0x27 # winSuffix) c in
          (case escape lib loserAcc c of
             None \<Rightarrow> None
           | Some l \<Rightarrow>
               let (ok', c) = exec lib (lossPrefix @ l @ CHR 0x27 # lossSuffix) c in
               Some (ok' \<and> ok, c)))"

definition getRecord :: "'m MySqlLib \<Rightarrow> string \<Rightarrow> 'm MySqlStore \<Rightarrow> ((int \<times> int) option \<times> 'm MySqlStore) option" where
  "getRecord lib acc c =
     (case escape lib acc c of
        None \<Rightarrow> None
      | Some a \<Rightarrow>
          let (ok, c) = exec lib (''SELECT wins, losses FROM players WHERE account='' @ CHR 0x27 # a @ [CHR 0x27]) c in
          if \<not> ok then Some (None, c)
          else (case mResult lib (msrv c) of
                  (None, s) \<Rightarrow> Some (None, c\<lparr> msrv := s \<rparr>)
                | (Some [], s) \<Rightarrow> Some (None, c\<lparr> msrv := s \<rparr>)
                | (Some (row # _), s) \<Rightarrow>
                    (case row of
                       Some w # Some l # _ \<Rightarrow> Some (Some (atoi w, atoi l), c\<lparr> msrv := s \<rparr>)
                     | _ \<Rightarrow> None)))"

definition removeAccount :: "'m MySqlLib \<Rightarrow> string \<Rightarrow> 'm MySqlStore \<Rightarrow> (bool \<times> 'm MySqlStore) option" where
  "removeAccount lib acc c =
     (case escape lib acc c of
        None \<Rightarrow> None
      | Some a \<Rightarrow> Some (exec lib (''DELETE FROM players WHERE account='' @ CHR 0x27 # a @ [CHR 0x27]) c))"

subsection \<open>The storage tasks of the game server\<close>

record StorageOptions =
  enabled :: bool
  redisHost :: string
  redisPort :: int
  mysqlHost :: string
  mysqlUser :: string
  mysqlPass :: string
  mysqlDb :: string
  leaderboardKey :: string

record ('r, 'm) Stores =
  redis :: "'r RedisClient"
  mysql :: "'m MySqlStore"
  storageReady :: bool

definition newStores :: "'r \<Rightarrow> 'm \<Rightarrow> ('r, 'm) Stores" where
  "newStores r m = \<lparr> redis = \<lparr> rctx = False, rsrv = r, rlog = [] \<rparr>, mysql = \<lparr> mconn = False, msrv = m, mlog = [] \<rparr>, storageReady = False \<rparr>"

definition connectTask :: "'r Hiredis \<Rightarrow> 'm MySqlLib \<Rightarrow> StorageOptions \<Rightarrow> ('r, 'm) Stores \<Rightarrow> ('r, 'm) Stores option" where
  "connectTask rl ml opt s =
     (let (up, r) = redisConnect rl (redisHost opt) (redisPort opt) (redis s) in
      if \<not> up then Some (s\<lparr> redis := r, storageReady := False \<rparr>)
      else case ping rl r of
        None \<Rightarrow> None
      | Some (False, r) \<Rightarrow> Some (s\<lparr> redis := r, storageReady := False \<rparr>)
      | Some (True, r) \<Rightarrow>
          let (up, m) = mysqlConnect ml (mysqlHost opt) (mysqlUser opt) (mysqlPass opt) (mysqlDb opt) (mysql s) in
          if \<not> up then Some (s\<lparr> redis := r, mysql := m, storageReady := False \<rparr>)
          else let (ok, m) = ensureSchema ml m in Some (s\<lparr> redis := r, mysql := m, storageReady := ok \<rparr>))"

fun storeTask :: "'r Hiredis \<Rightarrow> 'm MySqlLib \<Rightarrow> (string \<Rightarrow> nat) \<Rightarrow> StorageOptions \<Rightarrow> storage_task \<Rightarrow> ('r, 'm) Stores \<Rightarrow>
    (lobby_effect list \<times> ('r, 'm) Stores) option" where
  "storeTask rl ml atof opt ConnectStores s = map_option (Pair []) (connectTask rl ml opt s)"
| "storeTask rl ml atof opt (SetOnline acc) s =
     (if storageReady s
      then map_option (\<lambda>(_, r). ([], s\<lparr> redis := r \<rparr>)) (redisSet rl (''online:'' @ acc) ''1'' (redis s)) else Some ([], s))"
| "storeTask rl ml atof opt (DelOnline acc) s =
     (if storageReady s then map_option (\<lambda>(_, r). ([], s\<lparr> redis := r \<rparr>)) (del rl (''online:'' @ acc) (redis s)) else Some ([], s))"
| "storeTask rl ml atof opt (RecordResult w l) s =
     (if \<not> storageReady s then Some ([], s)
      else case recordResult ml w l (mysql s) of
        None \<Rightarrow> None
      | Some (_, m) \<Rightarrow>
          (case zincrby rl (leaderboardKey opt) w ''1.000000'' (redis s) of
             None \<Rightarrow> None
           | Some (_, r) \<Rightarrow> Some ([], s\<lparr> mysql := m, redis := r \<rparr>)))"
| "storeTask rl ml atof opt (TopN c n) s =
     (if \<not> storageReady s then Some ([ToConn c kLeaderboardResp (MLeaderboardResp [])], s)
      else case ztopN rl atof (leaderboardKey opt) n (redis s) of
        None \<Rightarrow> None
      | Some (es, r) \<Rightarrow> Some ([ToConn c kLeaderboardResp (MLeaderboardResp es)], s\<lparr> redis := r \<rparr>))"

fun storeTasks :: "'r Hiredis \<Rightarrow> 'm MySqlLib \<Rightarrow> (string \<Rightarrow> nat) \<Rightarrow> StorageOptions \<Rightarrow> storage_task list \<Rightarrow> ('r, 'm) Stores \<Rightarrow>
    (lobby_effect list \<times> ('r, 'm) Stores) option" where
  "storeTasks rl ml atof opt [] s = Some ([], s)"
| "storeTasks rl ml atof opt (t # ts) s =
     (case storeTask rl ml atof opt t s of
        None \<Rightarrow> None
      | Some (es, s) \<Rightarrow>
          (case storeTasks rl ml atof opt ts s of
             None \<Rightarrow> None
           | Some (es', s) \<Rightarrow> Some (es @ es', s)))"

subsection \<open>The clients do what the server's model asks of the stores\<close>

text \<open>What an operation of the server's model (\<open>storage_exec\<close>) puts on the two connections.\<close>

fun redisOf :: "store_op \<Rightarrow> string list list" where
  "redisOf (RedisSet k v) = [[''SET'', cstr k, cstr v]]"
| "redisOf (RedisDel k) = [[''DEL'', cstr k]]"
| "redisOf (RedisZincrby k m d) = [[''ZINCRBY'', cstr k, decInt d @ ''.000000'', cstr m]]"
| "redisOf (MysqlRecordResult w l) = []"

fun mysqlOf :: "'m MySqlLib \<Rightarrow> store_op \<Rightarrow> string list" where
  "mysqlOf ml (MysqlRecordResult w l) =
     [cstr (winPrefix @ mEscape ml w @ CHR 0x27 # winSuffix), cstr (lossPrefix @ mEscape ml l @ CHR 0x27 # lossSuffix)]"
| "mysqlOf ml _ = []"

definition isWrite :: "string list \<Rightarrow> bool" where
  "isWrite args \<longleftrightarrow> hd args \<noteq> ''PING'' \<and> hd args \<noteq> ''ZREVRANGE''"

text \<open>Documented of \<^verbatim>\<open>ZREVRANGE\<close>: an array in its reply holds bulk strings.\<close>

fun isString :: "redisReply \<Rightarrow> bool" where
  "isString (ReplyString _) = True"
| "isString _ = False"

definition zrange_strings :: "'r Hiredis \<Rightarrow> bool" where
  "zrange_strings rl \<longleftrightarrow> (\<forall>args s rs. hd args = ''ZREVRANGE'' \<longrightarrow> fst (rCommand rl args s) = Some (ReplyArray rs) \<longrightarrow> list_all isString rs)"

definition stores_ok :: "('r, 'm) Stores \<Rightarrow> bool" where
  "stores_ok s \<longleftrightarrow> (storageReady s \<longrightarrow> rctx (redis s) \<and> mconn (mysql s))"

lemma pairUp_strings: "list_all isString rs \<Longrightarrow> \<exists>out. pairUp atof rs = Some out"
proof (induction atof rs rule: pairUp.induct)
  case (1 atof x y rs)
  then show ?case
    by (cases x; cases y) auto
qed simp_all

lemma redisCommand_ready:
  "rctx c \<Longrightarrow> \<exists>r c'. redisCommand lib args c = Some (r, c') \<and> r = fst (rCommand lib args (rsrv c)) \<and> rctx c' \<and> rlog c' = rlog c @ [args]"
  by (simp add: redisCommand_def split: prod.split)

lemma connectTask_ok:
  "\<exists>s'. connectTask rl ml opt (newStores r m) = Some s' \<and> stores_ok s' \<and> filter isWrite (rlog (redis s')) = [] \<and>
     (mlog (mysql s') = [] \<or> mlog (mysql s') = [cstr schemaSql])"
  by (auto simp: connectTask_def newStores_def redisConnect_def ping_def redisCommand_def mysqlConnect_def ensureSchema_def exec_def
    stores_ok_def isWrite_def Let_def split: prod.splits option.splits bool.splits redisReply.splits)

text \<open>A task of a connected server leaves exactly the operations of the model; the answer to a
  leaderboard request goes to its connection.\<close>

definition answers :: "storage_task \<Rightarrow> nat list" where
  "answers t = (case t of TopN c n \<Rightarrow> [c] | _ \<Rightarrow> [])"

fun answered :: "lobby_effect \<Rightarrow> nat option" where
  "answered (ToConn c mid msg) = (if mid = kLeaderboardResp then Some c else None)"
| "answered _ = None"

definition task_done :: "'m MySqlLib \<Rightarrow> store_op list \<Rightarrow> storage_task \<Rightarrow> ('r, 'm) Stores \<Rightarrow> lobby_effect list \<Rightarrow> ('r, 'm) Stores \<Rightarrow> bool" where
  "task_done ml ops t s es s' \<longleftrightarrow> stores_ok s' \<and> storageReady s' = storageReady s \<and>
     filter isWrite (rlog (redis s')) = filter isWrite (rlog (redis s)) @ concat (map redisOf ops) \<and>
     mlog (mysql s') = mlog (mysql s) @ concat (map (mysqlOf ml) ops) \<and> map answered es = map Some (answers t)"

lemma decInt_1: "decInt 1 @ ''.000000'' = ''1.000000''"
  by (simp add: decInt_def dec.simps digit_def)

lemma recordResult_ready:
  "mconn c \<Longrightarrow> \<exists>ok c'. recordResult ml w l c = Some (ok, c') \<and> mconn c' \<and> mlog c' = mlog c @ mysqlOf ml (MysqlRecordResult w l)"
  by (auto simp: recordResult_def escape_def exec_def Let_def split: prod.split)

lemma ztopN_ready:
  assumes "zrange_strings rl" and "rctx c"
  shows "\<exists>out c'. ztopN rl atof key n c = Some (out, c') \<and> rctx c' \<and> filter isWrite (rlog c') = filter isWrite (rlog c)"
proof -
  let ?args = "[''ZREVRANGE'', cstr key, ''0'', decInt (n - 1), ''WITHSCORES'']"
  obtain r c' where r: "redisCommand rl ?args c = Some (r, c')" "r = fst (rCommand rl ?args (rsrv c))"
    "rctx c'" "rlog c' = rlog c @ [?args]"
    using redisCommand_ready [OF assms(2)] by blast
  have out: "\<exists>out. pairUp atof rs = Some out" if "r = Some (ReplyArray rs)" for rs
    using assms(1) that r(2) pairUp_strings [of rs atof] unfolding zrange_strings_def by (metis list.sel(1))
  have "\<exists>out. ztopN rl atof key n c = Some (out, c')"
  proof (cases "\<exists>rs. r = Some (ReplyArray rs)")
    case True
    then show ?thesis
      using out r(1) by (fastforce simp: ztopN_def)
  next
    case False
    then have "ztopN rl atof key n c = Some ([], c')"
      using r(1) by (auto simp: ztopN_def split: option.split redisReply.split)
    then show ?thesis
      by blast
  qed
  moreover have "filter isWrite (rlog c') = filter isWrite (rlog c)"
    using r(4) by (simp add: isWrite_def)
  ultimately show ?thesis
    using r(3) by blast
qed

lemma storeTask_refines:
  assumes "stores_ok s" and "zrange_strings rl" and "t \<noteq> ConnectStores"
  shows "\<exists>es s'. storeTask rl ml atof opt t s = Some (es, s') \<and>
    task_done ml (fst (storage_exec (leaderboardKey opt) (storageReady s) q t)) t s es s'"
proof (cases "storageReady s")
  case False
  then show ?thesis
    using assms by (cases t) (auto simp: task_done_def answers_def)
next
  case ready: True
  then have up: "rctx (redis s)" "mconn (mysql s)"
    using assms(1) by (simp_all add: stores_ok_def)
  note cmd = redisCommand_ready [OF up(1), of rl]
  show ?thesis
  proof (cases t)
    case ConnectStores
    then show ?thesis
      using assms(3) by simp
  next
    case (SetOnline acc)
    then show ?thesis
      using ready up cmd [of "[''SET'', cstr (''online:'' @ acc), cstr ''1'']"]
      by (auto simp: task_done_def redisSet_def stores_ok_def answers_def isWrite_def)
  next
    case (DelOnline acc)
    then show ?thesis
      using ready up cmd [of "[''DEL'', cstr (''online:'' @ acc)]"]
      by (auto simp: task_done_def del_def stores_ok_def answers_def isWrite_def)
  next
    case (RecordResult w l)
    then show ?thesis
      using ready recordResult_ready [OF up(2), of ml w l] cmd [of "[''ZINCRBY'', cstr (leaderboardKey opt), ''1.000000'', cstr w]"]
      by (auto simp: task_done_def zincrby_def stores_ok_def answers_def isWrite_def decInt_1)
  next
    case (TopN c n)
    obtain out c' where "ztopN rl atof (leaderboardKey opt) n (redis s) = Some (out, c')" "rctx c'"
      "filter isWrite (rlog c') = filter isWrite (rlog (redis s))"
      using ztopN_ready [OF assms(2) up(1)] by blast
    then show ?thesis
      using TopN ready up by (auto simp: task_done_def stores_ok_def answers_def isWrite_def)
  qed
qed

definition opsOf :: "StorageOptions \<Rightarrow> bool \<Rightarrow> storage_task list \<Rightarrow> store_op list" where
  "opsOf opt ready ts = concat (map (\<lambda>t. fst (storage_exec (leaderboardKey opt) ready (\<lambda>_ _. []) t)) ts)"

lemma storeTasks_refines:
  assumes "zrange_strings rl" and "stores_ok s" and "ConnectStores \<notin> set ts"
  shows "\<exists>es s'. storeTasks rl ml atof opt ts s = Some (es, s') \<and> storageReady s' = storageReady s \<and>
    filter isWrite (rlog (redis s')) = filter isWrite (rlog (redis s)) @ concat (map redisOf (opsOf opt (storageReady s) ts)) \<and>
    mlog (mysql s') = mlog (mysql s) @ concat (map (mysqlOf ml) (opsOf opt (storageReady s) ts)) \<and>
    map answered es = map Some (concat (map answers ts))"
  using assms(2,3)
proof (induction ts arbitrary: s)
  case (Cons u us)
  obtain es s1 where 1: "storeTask rl ml atof opt u s = Some (es, s1)"
    "task_done ml (opsOf opt (storageReady s) [u]) u s es s1"
    using storeTask_refines [OF Cons.prems(1) assms(1), of u ml atof opt "\<lambda>_ _. []"] Cons.prems(2) by (auto simp: opsOf_def)
  then have ok: "stores_ok s1" "storageReady s1 = storageReady s"
    by (simp_all add: task_done_def)
  have "opsOf opt (storageReady s) (u # us) = opsOf opt (storageReady s) [u] @ opsOf opt (storageReady s) us"
    by (simp add: opsOf_def)
  then show ?case
    using Cons.IH [OF ok(1)] Cons.prems(2) 1 ok(2) by (auto simp: task_done_def)
qed (simp add: opsOf_def)

lemma storage_run:
  assumes "zrange_strings rl" and "ConnectStores \<notin> set ts"
  shows "\<exists>es s pre. storeTasks rl ml atof opt (ConnectStores # ts) (newStores r m) = Some (es, s) \<and>
    filter isWrite (rlog (redis s)) = concat (map redisOf (opsOf opt (storageReady s) ts)) \<and>
    mlog (mysql s) = pre @ concat (map (mysqlOf ml) (opsOf opt (storageReady s) ts)) \<and> set pre \<subseteq> {cstr schemaSql} \<and>
    map answered es = map Some (concat (map answers ts))"
proof -
  obtain s where s: "connectTask rl ml opt (newStores r m) = Some s" "stores_ok s" "filter isWrite (rlog (redis s)) = []"
    "mlog (mysql s) = [] \<or> mlog (mysql s) = [cstr schemaSql]"
    using connectTask_ok [of rl ml opt r m] by auto
  obtain es s' where "storeTasks rl ml atof opt ts s = Some (es, s')" "storageReady s' = storageReady s"
    "filter isWrite (rlog (redis s')) = concat (map redisOf (opsOf opt (storageReady s) ts))"
    "mlog (mysql s') = mlog (mysql s) @ concat (map (mysqlOf ml) (opsOf opt (storageReady s) ts))"
    "map answered es = map Some (concat (map answers ts))"
    using storeTasks_refines [OF assms(1) s(2) assms(2), of ml atof opt] s(3) by auto
  moreover have "set (mlog (mysql s)) \<subseteq> {cstr schemaSql}"
    using s(4) by auto
  ultimately show ?thesis
    using s(1) by (intro exI [of _ es] exI [of _ s'] exI [of _ "mlog (mysql s)"]) simp
qed

text \<open>
  C16. The storage thread does what the server's model asks of the stores. Whatever Redis and MySQL answer, the
  connection task and any later tasks run through without touching a null connection. When the stores did
  not come up, nothing is written; when they did, the commands and statements sent are those
  of the tasks' operations, in order, even after failures; and every leaderboard request is
  answered once, on its connection, in order.
\<close>

theorem storage_thread_refines:
  assumes "zrange_strings rl" and "ConnectStores \<notin> set ts"
  shows "\<exists>es s pre. storeTasks rl ml atof opt (ConnectStores # ts) (newStores r m) = Some (es, s) \<and>
    filter isWrite (rlog (redis s)) = concat (map redisOf (opsOf opt (storageReady s) ts)) \<and>
    mlog (mysql s) = pre @ concat (map (mysqlOf ml) (opsOf opt (storageReady s) ts)) \<and> set pre \<subseteq> {cstr schemaSql} \<and>
    map answered es = map Some (concat (map answers ts))"
  using assms by (rule storage_run)

definition demo_redis :: "nat Hiredis" where
  "demo_redis = \<lparr> rConnect = (\<lambda>_ _ n. (Some False, n)),
     rCommand = (\<lambda>args n. (Some (if args = [''PING''] then ReplyStatus ''PONG''
        else if hd args = ''ZREVRANGE'' then ReplyArray [ReplyString ''ann'', ReplyString ''1''] else ReplyError ''busy''), n + 1)),
     rFree = id \<rparr>"

text \<open>The escapes of the manual, and the reading of a literal that undoes them.\<close>

fun demo_escape :: "string \<Rightarrow> string" where
  "demo_escape [] = []"
| "demo_escape (c # s) =
     (if c = CHR 0x00 then [CHR 0x5C, CHR 0x30] else if c = CHR 0x5C \<or> c = CHR 0x27 then [CHR 0x5C, c] else [c]) @ demo_escape s"

fun demo_lit :: "string \<Rightarrow> (string \<times> string) option" where
  "demo_lit [] = None"
| "demo_lit (c # s) =
     (if c = CHR 0x27 then Some ([], s)
      else if c = CHR 0x5C then
        (case s of [] \<Rightarrow> None | d # t \<Rightarrow> map_option (apfst ((#) (if d = CHR 0x30 then CHR 0x00 else d))) (demo_lit t))
      else map_option (apfst ((#) c)) (demo_lit s))"

definition demo_mysql :: "nat MySqlLib" where
  "demo_mysql = \<lparr> mConnect = (\<lambda>_ _ _ _ n. (True, n)), mQuery = (\<lambda>_ n. (n \<noteq> 1, n + 1)), mResult = (\<lambda>n. (None, n)),
     mEscape = demo_escape, mClose = id \<rparr>"

definition demo_store_opt :: StorageOptions where
  "demo_store_opt = \<lparr> enabled = True, redisHost = ''h'', redisPort = 6379, mysqlHost = ''h'', mysqlUser = ''u'', mysqlPass = ''p'', mysqlDb = ''d'',
     leaderboardKey = ''lb'' \<rparr>"

lemma demo_stores:
  "map_option (\<lambda>(es, s). (es, storageReady s)) (storeTasks demo_redis demo_mysql length demo_store_opt
     [ConnectStores, RecordResult ''ann'' ''bob'', TopN 7 10] (newStores 0 0)) =
   Some ([ToConn 7 kLeaderboardResp (MLeaderboardResp [(''ann'', 1)])], True)"
  by (simp add: demo_redis_def demo_mysql_def connectTask_def redisConnect_def ping_def redisCommand_def mysqlConnect_def
    ensureSchema_def exec_def newStores_def recordResult_def escape_def zincrby_def ztopN_def cstr_def Let_def)

lemma demo_zrange: "zrange_strings demo_redis"
  by (auto simp: zrange_strings_def demo_redis_def split: if_splits)

theorem storage_thread_refines_witness:
  "\<exists>es s. storeTasks demo_redis demo_mysql length demo_store_opt [ConnectStores, RecordResult ''ann'' ''bob'', TopN 7 10] (newStores 0 0) = Some (es, s) \<and>
     filter isWrite (rlog (redis s)) = [[''ZINCRBY'', ''lb'', ''1.000000'', ''ann'']] \<and>
     es = [ToConn 7 kLeaderboardResp (MLeaderboardResp [(''ann'', 1)])]"
proof -
  obtain es s where "storeTasks demo_redis demo_mysql length demo_store_opt [ConnectStores, RecordResult ''ann'' ''bob'', TopN 7 10] (newStores 0 0) = Some (es, s)"
    "storageReady s" "es = [ToConn 7 kLeaderboardResp (MLeaderboardResp [(''ann'', 1)])]"
    using demo_stores by auto
  then show ?thesis
    using storage_thread_refines [OF demo_zrange, of "[RecordResult ''ann'' ''bob'', TopN 7 10]" demo_mysql length demo_store_opt 0 0] decInt_1
    by (auto simp: opsOf_def demo_store_opt_def cstr_def)
qed

subsection \<open>Statements\<close>

text \<open>What the manual promises of \<^verbatim>\<open>mysql_real_escape_string\<close>: the result has no null byte, and the server's
  reading \<open>lit\<close> of a quoted literal finds the string again and stops at the quote behind it.\<close>

definition escapes :: "(string \<Rightarrow> (string \<times> string) option) \<Rightarrow> 'm MySqlLib \<Rightarrow> bool" where
  "escapes lit ml \<longleftrightarrow> (\<forall>a rest. CHR 0x00 \<notin> set (mEscape ml a) \<and> lit (mEscape ml a @ CHR 0x27 # rest) = Some (a, rest))"

lemma cstr_whole: "CHR 0x00 \<notin> set s \<Longrightarrow> cstr s = s"
  by (auto simp: cstr_def takeWhile_eq_all_conv)

lemma no_null: "CHR 0x00 \<notin> set winPrefix" "CHR 0x00 \<notin> set winSuffix" "CHR 0x00 \<notin> set lossPrefix" "CHR 0x00 \<notin> set lossSuffix"
  by (simp_all add: winPrefix_def winSuffix_def lossPrefix_def lossSuffix_def)

text \<open>
  C23. No account can change the statements that record a result. A connected store sends exactly two, the second
  even when the first fails; each is the fixed text with one literal in it, which the server reads as exactly
  the account, null bytes and quotes included, followed by the fixed rest; the result is true exactly when
  both succeed.
\<close>

theorem record_statements_quoted:
  assumes "escapes lit ml" and "mconn c"
  shows "\<exists>ok c' e1 e2. recordResult ml w l c = Some (ok, c') \<and> mlog c' = mlog c @ [winPrefix @ e1, lossPrefix @ e2] \<and>
    lit e1 = Some (w, winSuffix) \<and> lit e2 = Some (l, lossSuffix) \<and>
    (case mQuery ml (winPrefix @ e1) (msrv c) of (ok1, s) \<Rightarrow> ok \<longleftrightarrow> ok1 \<and> fst (mQuery ml (lossPrefix @ e2) s))"
proof -
  let ?e = "\<lambda>a suffix. mEscape ml a @ CHR 0x27 # suffix"
  have e: "CHR 0x00 \<notin> set (mEscape ml a)" "lit (?e a suffix) = Some (a, suffix)" for a suffix
    using assms(1) by (simp_all add: escapes_def)
  let ?s1 = "winPrefix @ ?e w winSuffix" and ?s2 = "lossPrefix @ ?e l lossSuffix"
  have c: "cstr ?s1 = ?s1" "cstr ?s2 = ?s2"
    using e(1) no_null by (auto intro!: cstr_whole)
  obtain ok1 s ok2 s' where q: "mQuery ml ?s1 (msrv c) = (ok1, s)" "mQuery ml ?s2 s = (ok2, s')"
    by fastforce
  have "recordResult ml w l c = Some (ok2 \<and> ok1, c\<lparr> msrv := s', mlog := mlog c @ [?s1, ?s2] \<rparr>)"
    using assms(2) c q by (simp add: recordResult_def escape_def exec_def Let_def)
  then show ?thesis
    using q e(2) by (intro exI [of _ "ok2 \<and> ok1"] exI [of _ "c\<lparr> msrv := s', mlog := mlog c @ [?s1, ?s2] \<rparr>"]
        exI [of _ "?e w winSuffix"] exI [of _ "?e l lossSuffix"]) auto
qed

lemma demo_escapes: "escapes demo_lit demo_mysql"
proof -
  have "CHR 0x00 \<notin> set (demo_escape a) \<and> demo_lit (demo_escape a @ CHR 0x27 # rest) = Some (a, rest)" for a rest
    by (induction a) auto
  then show ?thesis
    by (simp add: escapes_def demo_mysql_def)
qed

theorem record_statements_quoted_witness:
  "\<exists>c' e1 e2. recordResult demo_mysql (''o'' @ [CHR 0x27, CHR 0x00]) ''bob'' \<lparr> mconn = True, msrv = 1, mlog = [] \<rparr> = Some (False, c') \<and>
     mlog c' = [winPrefix @ e1, lossPrefix @ e2] \<and> demo_lit e1 = Some (''o'' @ [CHR 0x27, CHR 0x00], winSuffix)"
  using record_statements_quoted [OF demo_escapes, of "\<lparr> mconn = True, msrv = 1, mlog = [] \<rparr>" "''o'' @ [CHR 0x27, CHR 0x00]" "''bob''"]
  by (auto simp: demo_mysql_def)

text \<open>
  Accounts that agree up to a null byte share a Redis identity although they are different accounts in
  MySQL: the score of one is added to the other's and the online marks are the same key, while the
  statements recording the result differ.
\<close>

theorem null_byte_accounts_share_score:
  assumes "cstr a = cstr b" "a \<noteq> b" "escapes lit ml" "mconn m"
  shows "zincrby rl key a d c = zincrby rl key b d c \<and> redisSet rl (''online:'' @ a) v c = redisSet rl (''online:'' @ b) v c \<and>
    map_option (mlog \<circ> snd) (recordResult ml a l m) \<noteq> map_option (mlog \<circ> snd) (recordResult ml b l m)"
proof -
  have "cstr (''online:'' @ x) = ''online:'' @ cstr x" for x
    by (simp add: cstr_def)
  moreover have "mEscape ml a \<noteq> mEscape ml b"
    using assms(2,3) unfolding escapes_def by (metis Pair_inject option.inject)
  moreover have "cstr (winPrefix @ mEscape ml x @ CHR 0x27 # winSuffix) = winPrefix @ mEscape ml x @ CHR 0x27 # winSuffix" for x
    using assms(3) no_null by (auto simp: escapes_def intro!: cstr_whole)
  ultimately show ?thesis
    using assms(1) recordResult_ready [OF assms(4), of ml a l] recordResult_ready [OF assms(4), of ml b l]
    by (auto simp: zincrby_def redisSet_def)
qed

theorem null_byte_accounts_share_score_witness:
  "zincrby demo_redis ''lb'' (''ann'' @ [CHR 0x00]) ''1.000000'' \<lparr> rctx = True, rsrv = 0, rlog = [] \<rparr> =
     zincrby demo_redis ''lb'' ''ann'' ''1.000000'' \<lparr> rctx = True, rsrv = 0, rlog = [] \<rparr>"
  by (rule null_byte_accounts_share_score [where lit = demo_lit and ml = demo_mysql and
      m = "\<lparr> mconn = True, msrv = 0, mlog = [] \<rparr>", THEN conjunct1]) (simp_all add: cstr_def demo_escapes)

end
