(* ===== verification/Persist.thy ===== *)
theory Persist
  imports Storage AsyncWriter
begin

text \<open>
  From the lobby to the stores. The lobby only ever appends to what it hands to the storage thread, after the
  connection task that \<open>start\<close> enqueues first and nothing else ever repeats; the writer runs it in
  order; the clients put it on their connections.
\<close>

subsection \<open>What the lobby enqueues\<close>

definition logs :: "GameServer \<Rightarrow> GameServer \<Rightarrow> bool" where
  "logs g g' \<longleftrightarrow> (\<exists>es. out g' = out g @ es \<and> Enqueue ConnectStores \<notin> set es) \<and> writerOn g' = writerOn g"

lemma logs_same: "out g' = out g \<Longrightarrow> writerOn g' = writerOn g \<Longrightarrow> logs g g'"
  by (simp add: logs_def)

lemma logs_refl [simp]: "logs g g"
  by (simp add: logs_same)

lemma logs_trans:
  assumes "logs g g'" "logs g' g''"
  shows "logs g g''"
proof -
  obtain es es' where "out g' = out g @ es" "out g'' = (out g @ es) @ es'" "Enqueue ConnectStores \<notin> set (es @ es')"
    using assms unfolding logs_def by auto
  then show ?thesis
    using assms unfolding logs_def by (metis append_assoc)
qed

lemma logs_emit: "Enqueue ConnectStores \<notin> set es \<Longrightarrow> logs g (emit es g)"
  by (auto simp: logs_def emit_def)

lemma logs_enqueue: "t \<noteq> ConnectStores \<Longrightarrow> logs g (GameServer.enqueue t g)"
  by (simp add: GameServer.enqueue_def logs_emit)

lemma logs_roomEnd: "logs g (onRoomEnd rid w g)"
proof -
  let ?g = "g\<lparr> rooms := rooms g - {rid}, sessions := umap_map (\<lambda>_. release rid) (sessions g) \<rparr>"
  have 1: "logs g ?g"
    by (simp add: logs_same)
  have "logs g (GameServer.enqueue (RecordResult a b) ?g)" for a b
    by (rule logs_trans [OF 1 logs_enqueue]) simp
  with 1 show ?thesis
    unfolding onRoomEnd_def Let_def by (auto split: prod.split)
qed

lemma logs_callback: "logs g (room_callback l rid e g)"
  by (cases e) (auto intro!: logs_emit logs_roomEnd logs_same)

lemma logs_callbacks: "logs g (fold (room_callback l rid) es g)"
  by (induction es arbitrary: g) (auto intro: logs_trans logs_callback)

lemma logs_runTask: "logs g (runTask l rid t g)"
  unfolding runTask_def by (auto split: option.split prod.split intro: logs_trans [OF logs_same logs_callbacks])

lemma logs_runInLoop: "logs g (runInLoop rid t g)"
  unfolding runInLoop_def by (auto split: option.split intro: logs_runTask logs_same)

text \<open>Fields changed, then at most one room task.\<close>

lemma logs_then_run: "logs g h \<Longrightarrow> logs g (if b then runInLoop rid t h else h)"
  by (auto intro: logs_trans logs_runInLoop)

lemma logs_login: "logs g (onLogin now rng c acc g)"
  unfolding onLogin_def Let_def
  by (rule logs_trans [OF logs_trans [OF logs_same logs_emit] logs_enqueue]) (simp_all add: put_session_def)

lemma logs_reconnect: "logs g (onReconnect now c p tok g)"
proof (cases "session g p")
  case (Some s)
  show ?thesis
  proof (cases "token s \<noteq> tok \<or> conn s \<noteq> None")
    case False
    show ?thesis
      unfolding onReconnect_def Some option.case if_not_P [OF False] Let_def
      by (rule logs_trans [OF logs_then_run [OF logs_trans [OF logs_same logs_emit]] logs_enqueue]) (simp_all add: put_session_def)
  qed (simp add: onReconnect_def Some logs_emit)
qed (simp add: onReconnect_def logs_emit)

lemma logs_input: "logs g (onInput c inp g)"
  by (auto simp: onInput_def intro: logs_runInLoop split: option.split)

lemma logs_heartbeat: "logs g (onHeartbeat now c hb g)"
  unfolding onHeartbeat_def by (rule logs_trans [OF logs_same logs_emit]) (simp_all add: put_session_def split: option.split)

lemma logs_disconnect: "logs g (onDisconnect c g)"
proof (cases "connToPlayer g c")
  case (Some p)
  show ?thesis
  proof (cases "session g p")
    case None
    then show ?thesis
      by (auto simp: onDisconnect_def Some intro!: logs_same)
  next
    case s: (Some s)
    define s1 where "s1 = (if state s = kMatching then s\<lparr> conn := None, state := kLobby \<rparr> else s\<lparr> conn := None \<rparr>)"
    define q where "q = (if state s = kMatching then remove (matchQueue g) p else matchQueue g)"
    define g1 where "g1 = put_session s1 p g\<lparr> connToPlayer := (connToPlayer g)(c := None), matchQueue := q \<rparr>"
    define g2 where "g2 = (if state s1 = kInRoom \<and> roomId s1 \<in> rooms g1 then runInLoop (roomId s1) (TDrop p) g1 else g1)"
    obtain i w where add: "TimerWheel.add (wheel g2) kSessionKeepMs (ExpireSession p) = (i, w)"
      by fastforce
    have "logs g g2"
      unfolding g2_def by (intro logs_then_run logs_same) (simp_all add: g1_def put_session_def)
    moreover have "logs g2 (g2\<lparr> wheel := w, sessions := ss \<rparr>)" for ss
      by (simp add: logs_same)
    moreover have "logs h (GameServer.enqueue (DelOnline a) h)" for a h
      by (simp add: logs_enqueue)
    ultimately show ?thesis
      unfolding onDisconnect_eq [OF Some s s1_def q_def g1_def g2_def add] using logs_trans by blast
  qed
qed (simp add: onDisconnect_def)

lemma same_cancel: "out (cancelMatchTimer p g) = out g" "writerOn (cancelMatchTimer p g) = writerOn g"
  by (simp_all add: cancelMatchTimer_def split: option.split)

lemma same_enter: "out (enter rid p g) = out g" "writerOn (enter rid p g) = writerOn g"
  by (simp_all add: enter_def put_session_def split: option.split)

lemma logs_tryMatch:
  assumes "tryMatch g = Some g'"
  shows "logs g g'"
proof -
  have "\<exists>h rid. (g' = h \<or> g' = runInLoop rid TStart h) \<and> out h = out g \<and> writerOn h = writerOn g"
    using assms unfolding tryMatch_def Let_def
    by (auto simp: same_cancel same_enter split: option.splits prod.splits)
  then show ?thesis
    using logs_same logs_runInLoop logs_trans by metis
qed

lemma logs_match:
  assumes "onMatch c g = Some g'"
  shows "logs g g'"
proof (cases "sessionOf g c")
  case (Some s)
  have "g' = g \<or> (\<exists>q. g' = g\<lparr> matchQueue := q \<rparr>) \<or> (\<exists>h. tryMatch h = Some g' \<and> out h = out g \<and> writerOn h = writerOn g)"
    using assms Some unfolding onMatch_def Let_def
    by (auto simp: put_session_def split: if_splits prod.splits bool.splits)
  then show ?thesis
  proof (elim disjE exE conjE)
    fix h
    assume "tryMatch h = Some g'" "out h = out g" "writerOn h = writerOn g"
    then show ?thesis
      using logs_trans [OF logs_same logs_tryMatch] by blast
  qed (auto intro: logs_same)
qed (use assms in \<open>simp add: onMatch_def\<close>)

lemma logs_request: "lobby_exec now req g = Some g' \<Longrightarrow> logs g g'"
  by (cases req) (auto simp: logs_login logs_reconnect logs_input logs_heartbeat logs_disconnect intro: logs_match)

lemma logs_fire: "logs g (fire now cb g)"
proof (cases cb)
  case (MatchTimeout p)
  show ?thesis
    by (auto simp: MatchTimeout matchTimedOut_def Let_def put_session_def emit_def logs_def split: option.split)
next
  case (ExpireSession p)
  have "logs g (h\<lparr> sessions := ss \<rparr>)" if "logs g h" for h ss
    using that by (simp add: logs_def)
  then show ?thesis
    by (auto simp: ExpireSession expireSession_def Let_def logs_runInLoop split: option.split)
next
  case Sweep
  have "Enqueue ConnectStores \<notin> set (concat (map (\<lambda>(_, s). case conn s of
         None \<Rightarrow> []
       | Some c \<Rightarrow> if kHeartbeatTimeoutMs < u64_minus now (lastHeartbeatMs s) then [ShutdownConn c] else []) ss))" for ss
    by (auto split: option.splits if_splits)
  then have "logs g (sweepHeartbeats now g)"
    unfolding sweepHeartbeats_def by (rule logs_emit)
  moreover have "logs h (scheduleSweep h)" for h
    by (simp add: logs_same scheduleSweep_def)
  ultimately show ?thesis
    unfolding Sweep fire.simps using logs_trans by blast
qed

subsection \<open>The connection task comes first and once\<close>

fun storageTask :: "lobby_effect \<Rightarrow> storage_task option" where
  "storageTask (Enqueue t) = Some t"
| "storageTask _ = None"

definition storageTasks :: "GameServer \<Rightarrow> storage_task list" where
  "storageTasks g = List.map_filter storageTask (out g)"

definition once :: "GameServer \<Rightarrow> bool" where
  "once g \<longleftrightarrow> (writerOn g \<longrightarrow> (\<exists>es. out g = Enqueue ConnectStores # es \<and> Enqueue ConnectStores \<notin> set es))"

lemma logs_once:
  assumes "logs g g'" "once g"
  shows "once g'"
proof -
  obtain zs where "out g' = out g @ zs" "Enqueue ConnectStores \<notin> set zs" "writerOn g' = writerOn g"
    using assms(1) unfolding logs_def by blast
  then show ?thesis
    using assms(2) by (auto simp: once_def)
qed

lemma once_wheel [simp]: "once (g\<lparr> wheel := w \<rparr>) = once g"
  by (simp add: once_def)

interpretation once_tc: timer_client "run_cb now" "\<lambda>_ _. once" for now
proof unfold_locales
  fix w cb w' and g g' :: GameServer
  assume "once g" "run_cb now cb (w, g) = (w', g')"
  then show "once g'"
    using logs_once [OF logs_fire [of "g\<lparr> wheel := w \<rparr>" now cb]] by (auto simp: run_cb_def Let_def)
qed

lemma step_once:
  assumes inv: "gs_inv g" and once: "once g" and st: "gs_step g g'"
  shows "once g'"
  using st
proof cases
  case (gs_request now req)
  then show ?thesis
    using logs_once [OF logs_request] once by blast
next
  case (gs_wheel now)
  have w: "wheel_inv 1 [] (wheel g)"
    using inv by (simp add: gs_inv_def lobby_inv_def)
  obtain fired w' h where adv: "advance (run_cb now) 100 (wheel g, g) = (fired, w', h)"
    by (metis prod.exhaust)
  show ?thesis
    using once_tc.advance_inv [OF w once adv] by (simp add: gs_wheel advanceWheel_def adv)
next
  case (gs_room_end rid w q)
  have "logs g (onRoomEnd rid w (g\<lparr> roomEnds := q \<rparr>))"
    by (rule logs_trans [OF logs_same logs_roomEnd]) simp_all
  then show ?thesis
    using gs_room_end(1) logs_once once by blast
next
  case (gs_room_task l rid t q)
  have "logs g (runTask l rid t (g\<lparr> loopQ := (loopQ g)(l := q) \<rparr>))"
    by (rule logs_trans [OF logs_same logs_runTask]) simp_all
  then show ?thesis
    using gs_room_task(1) logs_once once by blast
next
  case (gs_room_tick rid l r)
  then show ?thesis
    using logs_once [OF logs_runTask once] by simp
qed

lemma reach_once: "gs_ts.reach g \<Longrightarrow> once g"
proof (induction rule: gs_ts.reach.induct)
  case (reach_init g)
  then show ?case
    by (auto simp: once_def startServer_def scheduleSweep_def)
next
  case (reach_step g g')
  then show ?case
    using step_once reach_inv by blast
qed

lemma storageTasks_once:
  assumes "gs_ts.reach g" "writerOn g"
  shows "\<exists>ts. storageTasks g = ConnectStores # ts \<and> ConnectStores \<notin> set ts"
proof -
  obtain es where es: "out g = Enqueue ConnectStores # es" "Enqueue ConnectStores \<notin> set es"
    using reach_once [OF assms(1)] assms(2) by (auto simp: once_def)
  have "ConnectStores \<notin> set (List.map_filter storageTask xs)" if "Enqueue ConnectStores \<notin> set xs" for xs
    using that
  proof (induction xs)
    case (Cons x xs)
    then show ?case
      by (cases x) (auto simp: List.map_filter_simps)
  qed (simp add: List.map_filter_simps)
  with es show ?thesis
    by (simp add: storageTasks_def List.map_filter_simps)
qed

subsection \<open>Flushed to the stores\<close>

definition isQuery :: "storage_task \<Rightarrow> bool" where
  "isQuery t \<longleftrightarrow> (case t of TopN _ _ \<Rightarrow> True | _ \<Rightarrow> False)"

lemma opsOf_queries: "opsOf opt ready (filter (\<lambda>t. \<not> isQuery t) ts) = opsOf opt ready ts"
proof (induction ts)
  case (Cons t ts)
  then show ?case
    by (cases t) (simp_all add: opsOf_def isQuery_def)
qed (simp add: opsOf_def)

lemma opsOf_connect: "opsOf opt ready (ConnectStores # ts) = opsOf opt ready ts"
  by (simp add: opsOf_def)

text \<open>The writer's queue holds what the lobby has enqueued, with leaderboard queries of the IO threads in
  between, after the connection task.\<close>

definition carries :: "storage_task AsyncWriter \<Rightarrow> GameServer \<Rightarrow> bool" where
  "carries w g \<longleftrightarrow> filter (\<lambda>t. \<not> isQuery t) (hist w) = storageTasks g \<and> (\<exists>ts. hist w = ConnectStores # ts)"

lemma carries_hist:
  assumes "carries w g" "gs_ts.reach g" "writerOn g"
  obtains ts where "hist w = ConnectStores # ts" "ConnectStores \<notin> set ts" "\<And>opt b. opsOf opt b ts = opsOf opt b (storageTasks g)"
proof -
  obtain ts where ts: "hist w = ConnectStores # ts"
    using assms(1) by (auto simp: carries_def)
  obtain us where us: "storageTasks g = ConnectStores # us" "ConnectStores \<notin> set us"
    using storageTasks_once [OF assms(2,3)] by blast
  have "filter (\<lambda>t. \<not> isQuery t) ts = us"
    using assms(1) ts us(1) by (simp add: carries_def isQuery_def)
  then have "ConnectStores \<notin> set ts" "opsOf opt b ts = opsOf opt b us" for opt b
    using us(2) opsOf_queries [of opt b ts] by (auto simp: isQuery_def)
  then show thesis
    using that ts by (simp add: us(1) opsOf_connect)
qed

text \<open>A login on a server that stores, and the writer that has been given its tasks.\<close>

definition demo_login :: GameServer where
  "demo_login = onLogin 0 (1, 2) 10 ''ann'' (startServer hypot_exact 0 True)"

definition demo_writer :: "storage_task AsyncWriter" where
  "demo_writer = request_stop (AsyncWriter.enqueue (SetOnline ''ann'') (AsyncWriter.enqueue (TopN 3 10) (AsyncWriter.enqueue ConnectStores newWriter)))"

lemma demo_login_reach: "gs_ts.reach demo_login" "writerOn demo_login" "storageTasks demo_login = [ConnectStores, SetOnline ''ann'']"
proof -
  have "gs_step (startServer hypot_exact 0 True) demo_login"
    unfolding demo_login_def by (rule gs_request [of 0 "ReqLogin 10 (1, 2) ''ann''"]) simp
  then show "gs_ts.reach demo_login"
    using gs_ts.reach_step [OF gs_ts.reach_init] by blast
  have "out (startServer hypot_exact 0 True) = [Enqueue ConnectStores]" "writerOn (startServer hypot_exact 0 True)"
    by (simp_all add: startServer_def scheduleSweep_def)
  then show "writerOn demo_login" "storageTasks demo_login = [ConnectStores, SetOnline ''ann'']"
    by (simp_all add: demo_login_def onLogin_def Let_def put_session_def GameServer.enqueue_def emit_def storageTasks_def List.map_filter_simps)
qed

lemma demo_writer_reach: "writer_ts.reach demo_writer" "stopFlag demo_writer" "pc demo_writer \<noteq> Exited" "carries demo_writer demo_login"
  unfolding demo_writer_def
  by (intro writer_ts.reach_step [OF _ stop_step] writer_ts.reach_step [OF _ enqueue_step] writer_ts.reach_init refl)
     (simp_all add: request_stop_def AsyncWriter.enqueue_def newWriter_def carries_def demo_login_reach(3) isQuery_def)

end
