(* ===== verification/ServerStop.thy ===== *)
theory ServerStop
  imports TcpServer
begin

text \<open>
  The destructor of \<^verbatim>\<open>TcpServer\<close>: every connection of the table is sent \<open>connectDestroyed\<close> on its own loop, at once
  when that is the base loop. The loops then run what is in their queues; the acceptor, the base
  loop and the connections' events are over.
\<close>

subsection \<open>The destructor and the loops' last tasks\<close>

definition destroyOne :: "nat \<Rightarrow> TcpServer \<Rightarrow> TcpServer" where
  "destroyOne k srv = (case connHeap srv k of
       None \<Rightarrow> srv
     | Some (l, _) \<Rightarrow> if l = mainLoop srv then run_io (Destroy k) srv else queueInLoop l (Destroy k) srv)"

text \<open>\<open>ids\<close> enumerates the connection table.\<close>

definition serverDestructor :: "nat list \<Rightarrow> TcpServer \<Rightarrow> TcpServer" where
  "serverDestructor ids srv = fold destroyOne ids srv"

definition drainLoop :: "nat \<Rightarrow> TcpServer \<Rightarrow> TcpServer" where
  "drainLoop l srv = fold run_io (ioQ srv l) (srv\<lparr> ioQ := (ioQ srv)(l := []) \<rparr>)"

subsection \<open>What the tasks do to one connection\<close>

text \<open>The effect of a queued task on connection \<open>k\<close>.\<close>

fun on_conn :: "nat \<Rightarrow> io_task \<Rightarrow> TcpConnection \<Rightarrow> TcpConnection" where
  "on_conn k (Establish j) c = (if j = k then fst (connectEstablished c :: TcpConnection \<times> codec_event conn_effect list) else c)"
| "on_conn k (Destroy j) c = (if j = k then fst (connectDestroyed c :: TcpConnection \<times> codec_event conn_effect list) else c)"

lemma run_io_heap: "connHeap srv k = Some (l, c) \<Longrightarrow> connHeap (run_io t srv) k = Some (l, on_conn k t c)"
  by (cases t) (auto simp: put_conn_def split: option.split)

lemma run_io_frame [simp]: "ioQ (run_io t srv) = ioQ srv" "threadPool (run_io t srv) = threadPool srv"
  by (cases t; auto simp: put_conn_def split: option.split)+

lemma fold_run_io_heap:
  "connHeap srv k = Some (l, c) \<Longrightarrow> connHeap (fold run_io ts srv) k = Some (l, fold (on_conn k) ts c)"
  by (induction ts arbitrary: srv c) (auto simp: run_io_heap)

lemma fold_on_conn_idle: "Establish k \<notin> set ts \<Longrightarrow> Destroy k \<notin> set ts \<Longrightarrow> fold (on_conn k) ts c = c"
proof (induction ts arbitrary: c)
  case (Cons t ts)
  then show ?case
    by (cases t) auto
qed simp

text \<open>Taken out of the poller for good; a second destruction changes nothing of it.\<close>

definition unregistered :: "TcpConnection \<Rightarrow> bool" where
  "unregistered c \<longleftrightarrow> interest (poller c) (fd (channel c)) = None \<and> index (channel c) \<noteq> kAdded \<and> state c \<in> {kDisconnecting, kDisconnected}"

definition consistent :: "TcpConnection \<Rightarrow> bool" where
  "consistent c \<longleftrightarrow> (interest (poller c) (fd (channel c)) \<noteq> None \<longleftrightarrow> index (channel c) = kAdded) \<and> state c \<noteq> kConnecting"

lemma disable_consistent:
  assumes "consistent c"
  shows "consistent (on_channel disableAll (c\<lparr> state := kDisconnected \<rparr>)) \<and> state (on_channel disableAll (c\<lparr> state := kDisconnected \<rparr>)) = kDisconnected"
proof -
  let ?ch = "(channel c)\<lparr> events := 0 \<rparr>"
  obtain ch p where u: "updateChannel ?ch (poller c) = (ch, p)"
    by fastforce
  have "interest (poller c) (fd ?ch) \<noteq> None \<longleftrightarrow> index ?ch = kAdded"
    using assms by (simp add: consistent_def)
  from updateChannel_spec [OF this u] show ?thesis
    by (simp add: on_channel_def disableAll_def u consistent_def)
qed

lemma destroy_unregisters:
  assumes "consistent c" "connectDestroyed c = (c', es :: codec_event conn_effect list)"
  shows "unregistered c' \<and> consistent c'"
proof -
  define c1 where "c1 = (if state c = kConnected then on_channel disableAll (c\<lparr> state := kDisconnected \<rparr>) else c)"
  have c': "c' = on_channel removeChannel c1"
    using assms(2) by (auto simp: connectDestroyed_def c1_def Let_def split: if_splits)
  have c1: "interest (poller c1) (fd (channel c1)) \<noteq> None \<longleftrightarrow> index (channel c1) = kAdded" "state c1 \<in> {kDisconnecting, kDisconnected}"
    using assms(1) disable_consistent [of c] by (auto simp: c1_def consistent_def) (metis conn_state.exhaust)+
  obtain ch p where rm: "removeChannel (channel c1) (poller c1) = (ch, p)"
    by fastforce
  show ?thesis
    using removeChannel_spec [OF c1(1) rm] c1(2) by (auto simp: c' on_channel_def rm unregistered_def consistent_def)
qed

lemma destroyed_in_the_end:
  "consistent c \<Longrightarrow> Establish k \<notin> set ts \<Longrightarrow> Destroy k \<in> set ts \<or> unregistered c \<Longrightarrow> unregistered (fold (on_conn k) ts c)"
proof (induction ts arbitrary: c)
  case (Cons t ts)
  show ?case
  proof (cases "t = Destroy k")
    case True
    obtain c' es where d: "connectDestroyed c = (c', es :: codec_event conn_effect list)"
      by fastforce
    then show ?thesis
      using Cons.IH [of c'] destroy_unregisters [OF Cons.prems(1) d] Cons.prems(2) True by simp
  next
    case False
    then have "on_conn k t c = c"
      using Cons.prems(2) by (cases t) auto
    then show ?thesis
      using Cons False by auto
  qed
qed simp

subsection \<open>The queues after the destructor\<close>

text \<open>What connection \<open>k\<close> on loop \<open>l\<close> gets to see until its loop is done, in order.\<close>

definition tasksFor :: "nat \<Rightarrow> nat list \<Rightarrow> TcpServer \<Rightarrow> io_task list" where
  "tasksFor l ids srv =
     (if l = mainLoop srv then map Destroy ids @ ioQ srv l
      else ioQ srv l @ map Destroy (filter (\<lambda>j. \<exists>c. connHeap srv j = Some (l, c)) ids))"

lemma destroyOne_frame: "threadPool (destroyOne j srv) = threadPool srv"
  by (simp add: destroyOne_def queueInLoop_def put_conn_def split: option.split prod.split)

lemma destroyOne_loops: "(\<exists>c. connHeap (destroyOne j srv) i = Some (l, c)) \<longleftrightarrow> (\<exists>c. connHeap srv i = Some (l, c))"
  by (auto simp: destroyOne_def queueInLoop_def put_conn_def split: option.splits prod.splits if_splits)

lemma destroyOne_heap:
  assumes "connHeap srv k = Some (l, c)"
  shows "connHeap (destroyOne j srv) k = Some (l, if l = mainLoop srv then on_conn k (Destroy j) c else c)"
proof (cases "j = k")
  case True
  then show ?thesis
    using assms by (auto simp: destroyOne_def queueInLoop_def put_conn_def)
next
  case False
  then show ?thesis
    using assms run_io_heap [OF assms, of "Destroy j"] by (auto simp: destroyOne_def queueInLoop_def split: option.split)
qed

lemma destroyOne_queue:
  "ioQ (destroyOne j srv) l =
     ioQ srv l @ (if l \<noteq> mainLoop srv \<and> (\<exists>c. connHeap srv j = Some (l, c)) then [Destroy j] else [])"
  by (auto simp: destroyOne_def queueInLoop_def put_conn_def split: option.split)

lemma destroyOne_tasks:
  assumes "connHeap srv k = Some (l, c)" "connHeap (destroyOne j srv) k = Some (l, c')"
  shows "fold (on_conn k) (tasksFor l ids (destroyOne j srv)) c' = fold (on_conn k) (tasksFor l (j # ids) srv) c"
proof -
  have "c' = (if l = mainLoop srv then on_conn k (Destroy j) c else c)"
    using assms(2) destroyOne_heap [OF assms(1), of j] by (simp split: if_splits)
  then show ?thesis
    by (cases "l = mainLoop srv") (simp_all add: tasksFor_def destroyOne_frame destroyOne_queue destroyOne_loops)
qed

lemma destructor_then_drain:
  "connHeap srv k = Some (l, c) \<Longrightarrow>
   connHeap (drainLoop l (serverDestructor ids srv)) k = Some (l, fold (on_conn k) (tasksFor l ids srv) c)"
proof (induction ids arbitrary: srv c)
  case Nil
  then show ?case
    by (simp add: serverDestructor_def drainLoop_def tasksFor_def fold_run_io_heap)
next
  case (Cons j ids)
  obtain c' where c': "connHeap (destroyOne j srv) k = Some (l, c')"
    using destroyOne_heap [OF Cons.prems] by simp
  have "serverDestructor (j # ids) srv = serverDestructor ids (destroyOne j srv)"
    by (simp add: serverDestructor_def)
  then show ?case
    using Cons.IH [OF c'] destroyOne_tasks [OF Cons.prems c'] by simp
qed

subsection \<open>Connections of the base loop are brought up at once\<close>

definition no_late_start :: "TcpServer \<Rightarrow> bool" where
  "no_late_start srv \<longleftrightarrow> (\<forall>k. Establish k \<notin> set (ioQ srv (mainLoop srv)))"

lemma accept_no_late: "acceptLoop rs srv = Some srv' \<Longrightarrow> no_late_start srv \<Longrightarrow> no_late_start srv'"
proof (induction rs srv rule: acceptLoop.induct)
  case (2 sockfd rs srv)
  have "no_late_start (serverNewConnection sockfd srv)"
    using "2.prems"(2)
    by (auto simp: no_late_start_def serverNewConnection_def getNextLoop_def queueInLoop_def put_conn_def Let_def split: option.split if_splits)
  then show ?case
    using 2 by simp
qed auto

lemma removal_no_late: "no_late_start srv \<Longrightarrow> no_late_start (removeInBase k srv)" "no_late_start srv \<Longrightarrow> no_late_start (removeConnection l k srv)"
  by (auto simp: no_late_start_def removeConnection_def removeInBase_def queueInLoop_def Let_def split: option.split)

lemma effects_no_late: "no_late_start srv \<Longrightarrow> no_late_start (conn_effects l k es srv)"
  by (induction l k es srv rule: conn_effects.induct) (auto intro: removal_no_late)

lemma step_no_late:
  assumes "srv_step srv srv'" "no_late_start srv"
  shows "no_late_start srv'"
  using assms
proof cases
  case (srv_io l t q)
  then show ?thesis
    using assms(2) by (auto simp: no_late_start_def)
next
  case (srv_base k q)
  have "no_late_start (srv\<lparr> baseQ := q \<rparr>)"
    using assms(2) by (simp add: no_late_start_def)
  then show ?thesis
    using srv_base removal_no_late by simp
next
  case (srv_conn k l c op)
  have "no_late_start (put_conn k x srv)" for x
    using assms(2) by (simp add: no_late_start_def put_conn_def)
  then show ?thesis
    using srv_conn by (auto simp: runConn_def intro: effects_no_late split: option.splits)
qed (use accept_no_late assms in blast)

lemma reach_no_late: "srv_ts.reach srv \<Longrightarrow> no_late_start srv"
proof (rule srv_ts.reach_invariant [of no_late_start])
  show "no_late_start s'" if "no_late_start s" "srv_step s s'" for s s'
    using step_no_late that by blast
qed (auto simp: no_late_start_def newServer_def)

subsection \<open>The result\<close>

lemma consistent_inv: "conn_inv c \<Longrightarrow> consistent c"
  by (simp add: conn_inv_def reg_inv_def consistent_def)

lemma unregistered_inv: "conn_inv c \<Longrightarrow> state c = kDisconnected \<Longrightarrow> interest (poller c) (fd (channel c)) = None \<Longrightarrow> unregistered c"
  by (simp add: conn_inv_def reg_inv_def unregistered_def split: if_splits)

text \<open>A connection that is still to be brought up: the one task does it, and the destruction follows.\<close>

lemma started_then_destroyed:
  assumes "count_list ts (Establish k) = 1" "Destroy k \<notin> set ts" "Establish k \<notin> set us" "Destroy k \<in> set us"
  shows "unregistered (fold (on_conn k) (ts @ us) (newConnection s newPoller))"
proof -
  obtain xs ys where ts: "ts = xs @ Establish k # ys" "Establish k \<notin> set xs"
    using assms(1) split_list_first [of "Establish k" ts] by (metis count_list_0_iff zero_neq_one)
  then have "Establish k \<notin> set ys"
    using assms(1) by (simp add: count_list_0_iff)
  moreover have "fold (on_conn k) xs (newConnection s newPoller) = newConnection s newPoller"
    using ts assms(2) by (intro fold_on_conn_idle) auto
  moreover have "fst (connectEstablished (newConnection s newPoller) :: TcpConnection \<times> codec_event conn_effect list) = established s"
    by (simp add: established_def)
  ultimately show ?thesis
    using destroyed_in_the_end [OF consistent_inv [OF established_inv], of k "ys @ us" s] ts(1) assms(3,4) by simp
qed

text \<open>
  C22. The destructor of the TCP server takes every connection out of its poller. From every reachable state,
  whatever connections are being brought up, are open, half closed or on their way out of the table,
  once the loop of a connection has run its queue the connection is closed or half closed and its
  descriptor is not watched any more.
\<close>

theorem server_destructor_unregisters:
  assumes "srv_ts.reach srv" "set ids = connections srv" "connHeap srv k = Some (l, c)"
  shows "\<exists>c'. connHeap (drainLoop l (serverDestructor ids srv)) k = Some (l, c') \<and>
    interest (poller c') (fd (channel c')) = None \<and> state c' \<in> {kDisconnecting, kDisconnected}"
proof -
  have L: "life_of k l c srv"
    using reach_life [OF assms(1)] assms(3) lifeD by blast
  have "unregistered (fold (on_conn k) (tasksFor l ids srv) c)"
  proof (cases "state c = kConnecting")
    case True
    then obtain s where c: "c = newConnection s newPoller"
      using L by (auto simp: life_of_def conn_inv_def)
    have n: "count_list (ioQ srv l) (Establish k) = 1" and k: "k \<in> connections srv" "Destroy k \<notin> set (ioQ srv l)"
      using L True unfolding life_of_def by auto
    then have "l \<noteq> mainLoop srv"
      using reach_no_late [OF assms(1)] unfolding no_late_start_def by (metis count_list_0_iff zero_neq_one)
    moreover define us where "us = map Destroy (filter (\<lambda>j. \<exists>c. connHeap srv j = Some (l, c)) ids)"
    ultimately have "tasksFor l ids srv = ioQ srv l @ us"
      by (simp add: tasksFor_def)
    moreover have "Establish k \<notin> set us" "Destroy k \<in> set us"
      using k(1) assms(2,3) by (auto simp: us_def)
    ultimately show ?thesis
      using started_then_destroyed [OF n k(2)] c by simp
  next
    case False
    then have inv: "conn_inv c" and none: "Establish k \<notin> set (ioQ srv l)"
      using L unfolding life_of_def by (auto simp: newConnection_def count_list_0_iff)
    have "Destroy k \<in> set (tasksFor l ids srv) \<or> unregistered c"
      using L unregistered_inv [OF inv] assms(2,3) by (auto simp: life_of_def tasksFor_def)
    moreover have "Establish k \<notin> set (tasksFor l ids srv)"
      using none by (auto simp: tasksFor_def)
    ultimately show ?thesis
      using destroyed_in_the_end [OF consistent_inv [OF inv]] by blast
  qed
  then show ?thesis
    using destructor_then_drain [OF assms(3)] by (auto simp: unregistered_def)
qed

theorem server_destructor_unregisters_witness:
  "\<exists>c'. connHeap (drainLoop 1 (serverDestructor [1] demo_open)) 1 = Some (1, c') \<and>
     interest (poller c') (fd (channel c')) = None \<and> state c' \<in> {kDisconnecting, kDisconnected}"
proof -
  have "connections demo_open = {1}"
    by (simp add: demo_open_def demo_server_def serverNewConnection_def newServer_def getNextLoop_def newPool_def
        put_conn_def queueInLoop_def Let_def)
  then show ?thesis
    using server_destructor_unregisters [OF demo_open_reachable _ demo_open_conn] by simp
qed

end
