(* ===== verification/Sockets.thy ===== *)
theory Sockets
  imports ProtobufCodec Decimal
begin

text \<open>
  The wrappers of the socket calls: \<^verbatim>\<open>net/InetAddress.cc\<close> and \<^verbatim>\<open>net/Socket.cc\<close>. An address is its bytes in network order.
  The kernel's side is a table from open descriptors to what the code has asked of them; the
  results of system calls are arguments, None is \<^verbatim>\<open>std::abort\<close>.
\<close>

subsection \<open>Addresses\<close>

record sockaddr_in =
  sin_family :: nat
  sin_port :: "byte list"
  sin_addr :: "byte list"

definition AF_INET :: nat where
  "AF_INET = 2"

definition decVal :: "string \<Rightarrow> nat" where
  "decVal ds = foldl (\<lambda>n c. 10 * n + digitVal c) 0 ds"

text \<open>\<^verbatim>\<open>inet_pton\<close> for IPv4: decimal octets of one to three digits, at most 255, without superfluous zeros, with
  single dots between them and nothing else.\<close>

definition octet :: "string \<Rightarrow> byte option" where
  "octet ds = (if ds = [] \<or> 3 < length ds \<or> (1 < length ds \<and> hd ds = CHR 0x30) \<or> 255 < decVal ds then None
     else Some (byte_of (decVal ds)))"

fun octets :: "nat \<Rightarrow> string \<Rightarrow> byte list option" where
  "octets 0 s = None"
| "octets (Suc k) s =
     (case octet (takeWhile isDigit s) of
        None \<Rightarrow> None
      | Some b \<Rightarrow>
          (case dropWhile isDigit s of
             [] \<Rightarrow> if k = 0 then Some [b] else None
           | c # r \<Rightarrow> if k \<noteq> 0 \<and> c = CHR 0x2E then map_option (Cons b) (octets k r) else None))"

definition inet_pton :: "string \<Rightarrow> byte list option" where
  "inet_pton s = octets 4 s"

fun dotted :: "byte list \<Rightarrow> string" where
  "dotted [] = []"
| "dotted [b] = dec (unat b)"
| "dotted (b # bs) = dec (unat b) @ CHR 0x2E # dotted bs"

definition inet_ntop :: "byte list \<Rightarrow> string" where
  "inet_ntop a = dotted a"

text \<open>The result of \<^verbatim>\<open>inet_pton\<close> is not looked at: a text it refuses leaves the address zero.\<close>

definition newInetAddress :: "nat \<Rightarrow> string \<Rightarrow> sockaddr_in" where
  "newInetAddress port ip = \<lparr> sin_family = AF_INET, sin_port = htons_bytes (u16 port),
     sin_addr = (case inet_pton ip of None \<Rightarrow> [0, 0, 0, 0] | Some a \<Rightarrow> a) \<rparr>"

definition toIpPort :: "sockaddr_in \<Rightarrow> string" where
  "toIpPort a = inet_ntop (sin_addr a) @ CHR 0x3A # dec (be_nat (sin_port a))"

subsection \<open>The text of an address\<close>

lemma digit_char:
  assumes "isDigit c"
  shows "digitVal c < 10" "digit (digitVal c) = c" "c \<noteq> CHR 0x30 \<Longrightarrow> 0 < digitVal c"
proof -
  have code: "of_char c = 48 + digitVal c" and small: "digitVal c < 10"
    using assms by (auto simp: isDigit_def digitVal_def)
  then have "(of_char (digit (digitVal c)) :: nat) = of_char c"
    by (simp add: digit_code)
  then show "digit (digitVal c) = c"
    by (simp only: of_char_eq_iff)
  have "(of_char c :: nat) \<noteq> of_char (CHR 0x30)" if "c \<noteq> CHR 0x30"
    using that by (simp only: of_char_eq_iff not_False_eq_True)
  then show "c \<noteq> CHR 0x30 \<Longrightarrow> 0 < digitVal c"
    using code by (cases "digitVal c") simp_all
qed (use assms in \<open>auto simp: isDigit_def digitVal_def\<close>)

lemma dec_decVal:
  assumes "list_all isDigit ds" "ds \<noteq> []" "length ds = 1 \<or> hd ds \<noteq> CHR 0x30"
  shows "dec (decVal ds) = ds \<and> (hd ds \<noteq> CHR 0x30 \<longrightarrow> 0 < decVal ds)"
  using assms
proof (induction ds rule: rev_induct)
  case (snoc c ds)
  have c: "digitVal c < 10" "digit (digitVal c) = c" "c \<noteq> CHR 0x30 \<Longrightarrow> 0 < digitVal c"
    using digit_char [of c] snoc.prems(1) by simp_all
  show ?case
  proof (cases "ds = []")
    case True
    then show ?thesis
      using c by (simp add: decVal_def dec.simps [of "digitVal c"])
  next
    case False
    then have IH: "dec (decVal ds) = ds" "0 < decVal ds"
      using snoc by (auto simp: hd_append)
    have v: "decVal (ds @ [c]) = 10 * decVal ds + digitVal c"
      by (simp add: decVal_def)
    then have "(decVal (ds @ [c])) div 10 = decVal ds" "decVal (ds @ [c]) mod 10 = digitVal c" "\<not> decVal (ds @ [c]) < 10"
      using c(1) IH(2) by simp_all
    then have "dec (decVal (ds @ [c])) = dec (decVal ds) @ [digit (digitVal c)]"
      by (subst dec.simps) simp
    then show ?thesis
      using IH c(2) v by simp
  qed
qed simp

lemma dec_head: "hd (dec n) = CHR 0x30 \<longleftrightarrow> n = 0"
proof (induction n rule: dec.induct)
  case (1 n)
  show ?case
  proof (cases "n < 10")
    case True
    have "\<forall>d \<in> set [0..<10]. digit d = CHR 0x30 \<longleftrightarrow> d = 0"
      by (simp add: upt_conv_Cons digit_def)
    then show ?thesis
      using True by (simp add: dec.simps [of n])
  next
    case False
    then show ?thesis
      using 1 dec_digits(2) [of "n div 10"] by (simp add: dec.simps [of n])
  qed
qed

lemma octet_dec: "octet (dec (unat b)) = Some b"
proof -
  have "length (dec (unat b)) \<le> 3"
    using unat_byte_less [of b] by (intro dec_length) (simp del: unat_byte_less)
  moreover have "unat b = 0 \<Longrightarrow> length (dec (unat b)) = 1"
    by (simp add: dec.simps)
  moreover have "unat b \<le> 255" "byte_of (unat b) = b"
    using unat_byte_less [of b] by (simp_all add: byte_of_def del: unat_byte_less)
  ultimately show ?thesis
    using dec_digits(2) [of "unat b"] dec_head [of "unat b"] dec_value [of "unat b"]
    by (auto simp: octet_def decVal_def)
qed

lemma octet_text:
  assumes "octet ds = Some b" "list_all isDigit ds"
  shows "dec (unat b) = ds"
proof -
  have "ds \<noteq> []" "length ds = 1 \<or> hd ds \<noteq> CHR 0x30" "decVal ds \<le> 255" "b = byte_of (decVal ds)"
    using assms(1) by (auto simp: octet_def split: if_splits) (metis One_nat_def Suc_lessI length_greater_0_conv)
  then show ?thesis
    using dec_decVal [OF assms(2)] by simp
qed

lemma octets_dotted: "a \<noteq> [] \<Longrightarrow> octets (length a) (dotted a) = Some a"
proof (induction a rule: dotted.induct)
  case (2 b)
  then show ?case
    using dec_digits(1) [of "unat b"] by (simp add: takeWhile_digits octet_dec dropWhile_eq_Nil_conv [THEN iffD2] list_all_iff)
next
  case (3 b c bs)
  have d: "\<not> isDigit CHR 0x2E"
    by (simp add: isDigit_def)
  have "takeWhile isDigit (dotted (b # c # bs)) = dec (unat b)" "dropWhile isDigit (dotted (b # c # bs)) = CHR 0x2E # dotted (c # bs)"
    using dec_digits(1) [of "unat b"] d by (simp_all add: takeWhile_digits list_all_iff dropWhile_append2)
  then show ?case
    using 3 by (simp add: octet_dec)
qed simp

lemma octets_text: "octets k s = Some a \<Longrightarrow> length a = k \<and> a \<noteq> [] \<and> dotted a = s"
proof (induction k arbitrary: s a)
  case (Suc k)
  let ?ds = "takeWhile isDigit s"
  obtain b where b: "octet ?ds = Some b"
    using Suc.prems by (auto split: option.splits)
  have "list_all isDigit ?ds"
    by (auto simp: list_all_iff dest: set_takeWhileD)
  note shown = octet_text [OF b this]
  show ?case
  proof (cases "dropWhile isDigit s")
    case Nil
    then have "?ds = s"
      using takeWhile_dropWhile_id [of isDigit s] by simp
    moreover have "k = 0" "a = [b]"
      using Suc.prems unfolding octets.simps b Nil by (simp_all split: if_splits)
    ultimately have "?ds = s" "k = 0" "a = [b]"
      by blast+
    then show ?thesis
      using shown by simp
  next
    case (Cons c r)
    then obtain bs where a: "c = CHR 0x2E" "octets k r = Some bs" "a = b # bs"
      using Suc.prems b by (auto split: if_splits)
    have "s = ?ds @ c # r"
      using Cons takeWhile_dropWhile_id [of isDigit s] by simp
    then show ?thesis
      using Suc.IH [OF a(2)] a shown by (cases bs) simp_all
  qed
qed simp

text \<open>
  The text of an address is exact. An address built from the text of an IPv4 address prints as that
  text and its port; any other text is silently taken for \<^verbatim>\<open>0.0.0.0\<close>, every local address, since the
  constructor does not look at the result of \<^verbatim>\<open>inet_pton\<close>.
\<close>

lemma address_text_eq:
  "toIpPort (newInetAddress port ip) =
     (if \<exists>a. length a = 4 \<and> ip = dotted a then ip else ''0.0.0.0'') @ '':'' @ dec (u16 port)"
proof -
  have port: "be_nat (htons_bytes (u16 port)) = u16 port"
    by (rule be_nat_htons) (simp add: u16_def)
  have zero: "dec 0 = ''0''"
    by (simp add: dec.simps digit_def)
  show ?thesis
  proof (cases "inet_pton ip")
    case None
    then have bad: "\<not> (\<exists>a. length a = 4 \<and> ip = dotted a)"
      unfolding inet_pton_def using octets_dotted by (metis list.size(3) option.distinct(1) zero_neq_numeral)
    show ?thesis
      unfolding if_not_P [OF bad] using None port zero by (simp add: toIpPort_def newInetAddress_def inet_ntop_def)
  next
    case (Some a)
    then have a: "length a = 4" "dotted a = ip"
      using octets_text [of 4 ip a] unfolding inet_pton_def by blast+
    then have "\<exists>a. length a = 4 \<and> ip = dotted a"
      by blast
    then show ?thesis
      using Some port a(2) by (simp add: toIpPort_def newInetAddress_def inet_ntop_def)
  qed
qed

text \<open>The buffers of \<open>toIpPort\<close> are large enough: an IPv4 address has at most 15 characters.\<close>

lemma dotted_length: "a \<noteq> [] \<Longrightarrow> length (dotted a) \<le> 4 * length a - 1"
proof (induction a rule: dotted.induct)
  case (2 b)
  then show ?case
    using dec_length [of "unat b"] unat_byte_less [of b] by (simp del: unat_byte_less)
next
  case (3 b c bs)
  then show ?case
    using dec_length [of "unat b"] unat_byte_less [of b] by (simp del: unat_byte_less)
qed simp

subsection \<open>Sockets\<close>

text \<open>What the kernel keeps of an open descriptor.\<close>

record KSock =
  reuseAddr :: bool
  noDelay :: bool
  boundTo :: "sockaddr_in option"
  listening :: bool

type_synonym kernel = "nat \<rightharpoonup> KSock"

definition newKSock :: KSock where
  "newKSock = \<lparr> reuseAddr = False, noDelay = False, boundTo = None, listening = False \<rparr>"

definition on_sock :: "(KSock \<Rightarrow> KSock) \<Rightarrow> nat \<Rightarrow> kernel \<Rightarrow> kernel" where
  "on_sock g f k = (case k f of None \<Rightarrow> k | Some s \<Rightarrow> k(f \<mapsto> g s))"

definition createNonblockingSocket :: "nat option \<Rightarrow> kernel \<Rightarrow> (nat \<times> kernel) option" where
  "createNonblockingSocket sock k = (case sock of None \<Rightarrow> None | Some f \<Rightarrow> Some (f, k(f \<mapsto> newKSock)))"

definition closeSocket :: "nat \<Rightarrow> kernel \<Rightarrow> kernel" where
  "closeSocket f k = k(f := None)"

definition bindAddress :: "bool \<Rightarrow> nat \<Rightarrow> sockaddr_in \<Rightarrow> kernel \<Rightarrow> kernel option" where
  "bindAddress ok f a k = (if ok then Some (on_sock (\<lambda>s. s\<lparr> boundTo := Some a \<rparr>) f k) else None)"

definition listenSocket :: "bool \<Rightarrow> nat \<Rightarrow> kernel \<Rightarrow> kernel option" where
  "listenSocket ok f k = (if ok then Some (on_sock (\<lambda>s. s\<lparr> listening := True \<rparr>) f k) else None)"

text \<open>\<open>accept\<close> fills in the caller's address and answers the new descriptor, or -1.\<close>

definition accept :: "(nat \<times> sockaddr_in) option \<Rightarrow> sockaddr_in \<Rightarrow> kernel \<Rightarrow> int \<times> sockaddr_in \<times> kernel" where
  "accept r peer k = (case r of None \<Rightarrow> (-1, peer, k) | Some (f, a) \<Rightarrow> (int f, a, k(f \<mapsto> newKSock)))"

text \<open>The results of \<^verbatim>\<open>setsockopt\<close> are not looked at.\<close>

definition setReuseAddr :: "bool \<Rightarrow> bool \<Rightarrow> nat \<Rightarrow> kernel \<Rightarrow> kernel" where
  "setReuseAddr ok on f k = (if ok then on_sock (\<lambda>s. s\<lparr> reuseAddr := on \<rparr>) f k else k)"

definition setNoDelay :: "bool \<Rightarrow> bool \<Rightarrow> nat \<Rightarrow> kernel \<Rightarrow> kernel" where
  "setNoDelay ok on f k = (if ok then on_sock (\<lambda>s. s\<lparr> noDelay := on \<rparr>) f k else k)"

lemmas socket_ops = createNonblockingSocket_def closeSocket_def bindAddress_def listenSocket_def accept_def
  setReuseAddr_def setNoDelay_def on_sock_def

end
