(* ===== verification/Watchers.thy ===== *)
theory Watchers
  imports Channel Sockets
begin

text \<open>
  The objects that own one descriptor of a loop's poller besides the connections: the listening socket
  (\<^verbatim>\<open>net/Acceptor.cc\<close>), the periodic timer (\<^verbatim>\<open>timer/PeriodicTimer.cc\<close>) and the loop itself with its wake-up
  descriptor (constructor and destructor of \<^verbatim>\<open>net/EventLoop.cc\<close>). Results of system calls are arguments; None is
  \<^verbatim>\<open>std::abort\<close>. \<open>descriptor_owner\<close> is what all three promise to the poller: starting watches the descriptor,
  stopping forgets it.
\<close>

subsection \<open>The contract\<close>

definition in_step :: "Channel \<Rightarrow> Poller \<Rightarrow> bool" where
  "in_step ch p \<longleftrightarrow> (interest p (fd ch) \<noteq> None \<longleftrightarrow> index ch = kAdded)"

locale descriptor_owner =
  fixes chan :: "'o \<Rightarrow> Channel"
    and start :: "'o \<Rightarrow> Poller \<Rightarrow> 'o \<times> Poller"
    and stop :: "'o \<Rightarrow> Poller \<Rightarrow> Poller"
  assumes start_watches: "in_step (chan ow) p \<Longrightarrow> start ow p = (ow', p') \<Longrightarrow>
      fd (chan ow') = fd (chan ow) \<and> index (chan ow') = kAdded \<and> ctl_errors p' = ctl_errors p \<and>
      (\<exists>m. bit m 0 \<and> interest p' = (interest p)(fd (chan ow) \<mapsto> m))"
    and stop_forgets: "in_step (chan ow) p \<Longrightarrow>
      interest (stop ow p) = (interest p)(fd (chan ow) := None) \<and> ctl_errors (stop ow p) = ctl_errors p"
begin

lemma started_in_step: "in_step (chan ow) p \<Longrightarrow> start ow p = (ow', p') \<Longrightarrow> in_step (chan ow') p'"
  using start_watches [of ow p ow' p'] by (auto simp: in_step_def)

text \<open>Stopping gives the interest list back as it was.\<close>

lemma start_stop:
  assumes "in_step (chan ow) p" "interest p (fd (chan ow)) = None" "start ow p = (ow', p')"
  shows "interest (stop ow' p') = interest p \<and> ctl_errors (stop ow' p') = ctl_errors p"
proof -
  have "fd (chan ow') = fd (chan ow)" "ctl_errors p' = ctl_errors p" and "\<exists>m. interest p' = (interest p)(fd (chan ow) \<mapsto> m)"
    using start_watches [OF assms(1,3)] by auto
  then show ?thesis
    using stop_forgets [OF started_in_step [OF assms(1,3)]] assms(2) by (auto simp: fun_upd_idem)
qed

text \<open>Whatever happened to other descriptors in between, only its own is affected by stopping.\<close>

lemma stop_others:
  "in_step (chan ow) p \<Longrightarrow> f \<noteq> fd (chan ow) \<Longrightarrow> interest (stop ow p) f = interest p f"
  using stop_forgets by simp

end

subsection \<open>The acceptor\<close>

record Acceptor =
  acceptFd :: nat
  acceptChannel :: Channel

definition newAcceptor :: "nat option \<Rightarrow> bool \<Rightarrow> bool \<Rightarrow> sockaddr_in \<Rightarrow> kernel \<Rightarrow> (Acceptor \<times> kernel) option" where
  "newAcceptor sock optOk bindOk listenAddr k =
     (case createNonblockingSocket sock k of
        None \<Rightarrow> None
      | Some (f, k) \<Rightarrow>
          (case bindAddress bindOk f listenAddr (setReuseAddr optOk True f k) of
             None \<Rightarrow> None
           | Some k \<Rightarrow> Some (\<lparr> acceptFd = f, acceptChannel = (newChannel f)\<lparr> readCb := True \<rparr> \<rparr>, k)))"

definition watchAccept :: "Acceptor \<Rightarrow> Poller \<Rightarrow> Acceptor \<times> Poller" where
  "watchAccept a p = (case enableReading (acceptChannel a) p of (ch, p) \<Rightarrow> (a\<lparr> acceptChannel := ch \<rparr>, p))"

definition listen :: "bool \<Rightarrow> Acceptor \<Rightarrow> Poller \<Rightarrow> kernel \<Rightarrow> (Acceptor \<times> Poller \<times> kernel) option" where
  "listen ok a p k =
     (case listenSocket ok (acceptFd a) k of
        None \<Rightarrow> None
      | Some k \<Rightarrow> (case watchAccept a p of (a, p) \<Rightarrow> Some (a, p, k)))"

definition unwatch :: "Channel \<Rightarrow> Poller \<Rightarrow> Poller" where
  "unwatch ch p = (case disableAll ch p of (ch, p) \<Rightarrow> snd (removeChannel ch p))"

definition closeAcceptor :: "Acceptor \<Rightarrow> Poller \<Rightarrow> Poller" where
  "closeAcceptor a p = unwatch (acceptChannel a) p"

text \<open>The destructor's body and then that of its member \<open>acceptSocket_\<close>.\<close>

definition destroyAcceptor :: "Acceptor \<Rightarrow> Poller \<Rightarrow> kernel \<Rightarrow> Poller \<times> kernel" where
  "destroyAcceptor a p k = (closeAcceptor a p, closeSocket (acceptFd a) k)"

lemma enableReading_watches:
  assumes "in_step ch p" "enableReading ch p = (ch', p')"
  shows "fd ch' = fd ch \<and> index ch' = kAdded \<and> ctl_errors p' = ctl_errors p \<and> (\<exists>m. bit m 0 \<and> interest p' = (interest p)(fd ch \<mapsto> m))"
proof -
  let ?e = "events ch OR (EPOLLIN OR EPOLLPRI OR EPOLLET)"
  have b: "bit ?e 0"
    by (simp add: bit_or_iff epoll_bits)
  then have "?e \<noteq> 0"
    by force
  then show ?thesis
    using updateChannel_spec [of p "ch\<lparr> events := ?e \<rparr>" ch' p'] assms b
    by (cases "index ch'") (auto simp: in_step_def enableReading_def)
qed

lemma unwatch_forgets:
  assumes "in_step ch p"
  shows "interest (unwatch ch p) = (interest p)(fd ch := None) \<and> ctl_errors (unwatch ch p) = ctl_errors p"
proof -
  obtain ch' p' where d: "disableAll ch p = (ch', p')"
    by fastforce
  obtain ch'' p'' where r: "removeChannel ch' p' = (ch'', p'')"
    by fastforce
  have u: "fd ch' = fd ch" "ctl_errors p' = ctl_errors p" "interest p' = (interest p)(fd ch := (if index ch' = kAdded then Some 0 else None))"
    using updateChannel_spec [of p "ch\<lparr> events := 0 \<rparr>" ch' p'] assms d by (auto simp: in_step_def disableAll_def)
  then show ?thesis
    using removeChannel_spec [OF _ r] by (simp add: unwatch_def d r)
qed

interpretation acc: descriptor_owner acceptChannel watchAccept closeAcceptor
proof unfold_locales
  fix ow p ow' p'
  assume st: "in_step (acceptChannel ow) p" and w: "watchAccept ow p = (ow', p')"
  obtain ch where e: "enableReading (acceptChannel ow) p = (ch, p')" and ow': "ow' = ow\<lparr> acceptChannel := ch \<rparr>"
    using w by (auto simp: watchAccept_def split: prod.splits)
  show "fd (acceptChannel ow') = fd (acceptChannel ow) \<and> index (acceptChannel ow') = kAdded \<and> ctl_errors p' = ctl_errors p \<and>
      (\<exists>m. bit m 0 \<and> interest p' = (interest p)(fd (acceptChannel ow) \<mapsto> m))"
    using enableReading_watches [OF st e] by (simp add: ow')
qed (simp_all add: closeAcceptor_def unwatch_forgets)

subsection \<open>The periodic timer\<close>

text \<open>\<open>due\<close> is the kernel's count of expirations since the last \<^verbatim>\<open>read\<close>; \<open>calls\<close> and \<open>missed\<close> are histories: the
  calls of the callback, and the expirations it was not called for.\<close>

record PeriodicTimer =
  timerFd :: nat
  timerChannel :: Channel
  it_interval :: "nat \<times> nat"
  it_value :: "nat \<times> nat"
  due :: nat
  calls :: nat
  missed :: nat

definition timespec :: "nat \<Rightarrow> nat \<times> nat" where
  "timespec intervalMs = (intervalMs div 1000, (intervalMs mod 1000) * 1000000)"

definition setupTimer :: "nat option \<Rightarrow> nat \<Rightarrow> PeriodicTimer option" where
  "setupTimer tfd intervalMs = (case tfd of
       None \<Rightarrow> None
     | Some f \<Rightarrow> Some \<lparr> timerFd = f, timerChannel = (newChannel f)\<lparr> readCb := True \<rparr>, it_interval = timespec intervalMs,
         it_value = timespec intervalMs, due = 0, calls = 0, missed = 0 \<rparr>)"

definition watchTimer :: "PeriodicTimer \<Rightarrow> Poller \<Rightarrow> PeriodicTimer \<times> Poller" where
  "watchTimer t p = (case enableReading (timerChannel t) p of (ch, p) \<Rightarrow> (t\<lparr> timerChannel := ch \<rparr>, p))"

definition newPeriodicTimer :: "nat option \<Rightarrow> nat \<Rightarrow> Poller \<Rightarrow> (PeriodicTimer \<times> Poller) option" where
  "newPeriodicTimer tfd intervalMs p = map_option (\<lambda>t. watchTimer t p) (setupTimer tfd intervalMs)"

definition closeTimer :: "PeriodicTimer \<Rightarrow> Poller \<Rightarrow> Poller" where
  "closeTimer t p = unwatch (timerChannel t) p"

definition handleRead :: "PeriodicTimer \<Rightarrow> PeriodicTimer" where
  "handleRead t = t\<lparr> due := 0, calls := calls t + 1, missed := missed t + (due t - 1) \<rparr>"

text \<open>The kernel and the loop: a period passes, or the loop handles the readable descriptor.\<close>

datatype timer_ev = Period | Handle

fun timer_step :: "timer_ev \<Rightarrow> PeriodicTimer \<Rightarrow> PeriodicTimer" where
  "timer_step Period t = t\<lparr> due := due t + 1 \<rparr>"
| "timer_step Handle t = (if due t = 0 then t else handleRead t)"

interpretation tmr: descriptor_owner timerChannel watchTimer closeTimer
proof unfold_locales
  fix ow p ow' p'
  assume st: "in_step (timerChannel ow) p" and w: "watchTimer ow p = (ow', p')"
  obtain ch where e: "enableReading (timerChannel ow) p = (ch, p')" and ow': "ow' = ow\<lparr> timerChannel := ch \<rparr>"
    using w by (auto simp: watchTimer_def split: prod.splits)
  show "fd (timerChannel ow') = fd (timerChannel ow) \<and> index (timerChannel ow') = kAdded \<and> ctl_errors p' = ctl_errors p \<and>
      (\<exists>m. bit m 0 \<and> interest p' = (interest p)(fd (timerChannel ow) \<mapsto> m))"
    using enableReading_watches [OF st e] by (simp add: ow')
qed (simp_all add: closeTimer_def unwatch_forgets)

subsection \<open>The loop's own descriptor\<close>

record LoopWatch =
  wakeupFd :: nat
  wakeupChannel :: Channel

definition setupLoop :: "nat option \<Rightarrow> LoopWatch option" where
  "setupLoop efd = (case efd of
       None \<Rightarrow> None
     | Some f \<Rightarrow> Some \<lparr> wakeupFd = f, wakeupChannel = (newChannel f)\<lparr> readCb := True \<rparr> \<rparr>)"

definition watchWakeup :: "LoopWatch \<Rightarrow> Poller \<Rightarrow> LoopWatch \<times> Poller" where
  "watchWakeup l p = (case enableReading (wakeupChannel l) p of (ch, p) \<Rightarrow> (l\<lparr> wakeupChannel := ch \<rparr>, p))"

text \<open>The constructor of \<^verbatim>\<open>EventLoop\<close> with its fresh poller, and its destructor.\<close>

definition newLoop :: "nat option \<Rightarrow> (LoopWatch \<times> Poller) option" where
  "newLoop efd = map_option (\<lambda>l. watchWakeup l newPoller) (setupLoop efd)"

definition destroyLoop :: "LoopWatch \<Rightarrow> Poller \<Rightarrow> Poller" where
  "destroyLoop l p = unwatch (wakeupChannel l) p"

interpretation wkp: descriptor_owner wakeupChannel watchWakeup destroyLoop
proof unfold_locales
  fix ow p ow' p'
  assume st: "in_step (wakeupChannel ow) p" and w: "watchWakeup ow p = (ow', p')"
  obtain ch where e: "enableReading (wakeupChannel ow) p = (ch, p')" and ow': "ow' = ow\<lparr> wakeupChannel := ch \<rparr>"
    using w by (auto simp: watchWakeup_def split: prod.splits)
  show "fd (wakeupChannel ow') = fd (wakeupChannel ow) \<and> index (wakeupChannel ow') = kAdded \<and> ctl_errors p' = ctl_errors p \<and>
      (\<exists>m. bit m 0 \<and> interest p' = (interest p)(fd (wakeupChannel ow) \<mapsto> m))"
    using enableReading_watches [OF st e] by (simp add: ow')
qed (simp_all add: destroyLoop_def unwatch_forgets)

subsection \<open>What holds of them\<close>

lemma timespec_exact:
  "fst (timespec ms) * 1000000000 + snd (timespec ms) = ms * 1000000" "snd (timespec ms) < 1000000000"
proof -
  have "fst (timespec ms) * 1000000000 + snd (timespec ms) = (ms div 1000 * 1000 + ms mod 1000) * 1000000"
    unfolding timespec_def fst_conv snd_conv add_mult_distrib mult.assoc by simp
  then show "fst (timespec ms) * 1000000000 + snd (timespec ms) = ms * 1000000"
    by (simp only: div_mult_mod_eq)
qed (simp add: timespec_def)

text \<open>Every period is either called for, still due, or missed: a loop that stalls over several periods calls
  back once for all of them, so what the callback counts falls behind the clock and never catches up.\<close>

lemma timer_run_counts:
  "calls (fold timer_step evs t) + due (fold timer_step evs t) + missed (fold timer_step evs t) =
   calls t + due t + missed t + count_list evs Period"
proof (induction evs arbitrary: t)
  case (Cons e evs)
  then show ?case
    by (cases e) (simp_all add: handleRead_def)
qed simp

lemma stalled_timer_misses_periods:
  assumes "0 < n"
  shows "calls (fold timer_step (replicate n Period @ [Handle]) t) = calls t + 1 \<and>
    missed (fold timer_step (replicate n Period @ [Handle]) t) = missed t + (due t + n - 1)"
proof -
  have "fold timer_step (replicate n Period) t = t\<lparr> due := due t + n \<rparr>" for n
    by (induction n arbitrary: t) auto
  then show ?thesis
    using assms by (simp add: handleRead_def)
qed

text \<open>An object whose descriptor is new to the poller is in step with it, before it starts and after.\<close>

lemma new_in_step: "index ch = kNew \<Longrightarrow> interest p (fd ch) = None \<Longrightarrow> in_step ch p"
  by (simp add: in_step_def)

lemma in_step_frame: "in_step ch p \<Longrightarrow> interest p' (fd ch) = interest p (fd ch) \<Longrightarrow> in_step ch p'"
  by (simp add: in_step_def)

text \<open>An acceptor that listens and a timer that runs on one poller, closed in either order, leave the interest
  list of the poller as it was.\<close>

lemma watchers_leave_no_trace:
  assumes "newAcceptor (Some f) True True addr k = Some (a, k1)" "setupTimer (Some g) ms = Some t" "f \<noteq> g"
    "interest p f = None" "interest p g = None" "listen True a p k1 = Some (a', p1, k2)" "watchTimer t p1 = (t', p2)"
  shows "interest (closeTimer t' (closeAcceptor a' p2)) = interest p \<and> interest (closeAcceptor a' (closeTimer t' p2)) = interest p"
proof -
  have a: "fd (acceptChannel a) = f" "in_step (acceptChannel a) p" and t: "fd (timerChannel t) = g" "index (timerChannel t) = kNew"
    using assms(1,2,4) by (auto simp: newAcceptor_def socket_ops setupTimer_def newChannel_def in_step_def)
  have w: "watchAccept a p = (a', p1)"
    using assms(6) by (auto simp: listen_def socket_ops split: prod.splits)
  obtain m where m: "interest p1 = (interest p)(f \<mapsto> m)" "fd (acceptChannel a') = f" "index (acceptChannel a') = kAdded"
    using acc.start_watches [OF a(2) w] a(1) by auto
  have t1: "in_step (timerChannel t) p1"
    using t m(1) assms(3,5) by (simp add: in_step_def)
  obtain m' where m': "interest p2 = (interest p1)(g \<mapsto> m')" "fd (timerChannel t') = g" "index (timerChannel t') = kAdded"
    using tmr.start_watches [OF t1 assms(7)] t(1) by auto
  have s: "in_step (acceptChannel a') p2" "in_step (timerChannel t') p2"
    using m m' assms(3) by (simp_all add: in_step_def)
  then have "in_step (timerChannel t') (closeAcceptor a' p2)" "in_step (acceptChannel a') (closeTimer t' p2)"
    using acc.stop_others [OF s(1), of g] tmr.stop_others [OF s(2), of f] m(2) m'(2) assms(3) by (simp_all add: in_step_def)
  then show ?thesis
    using acc.stop_forgets [OF s(1)] tmr.stop_forgets [OF s(2)] acc.stop_forgets [of a' "closeTimer t' p2"]
      tmr.stop_forgets [of t' "closeAcceptor a' p2"] m m' assms(3,4,5) by (auto simp: fun_eq_iff)
qed

text \<open>
  The reactor of a server is set up and taken down cleanly. When its system calls succeed, the
  constructor of the loop and then the acceptor, which asks for address reuse before it binds, leave
  exactly their two descriptors watched and the socket bound to the address and listening; destroying
  the acceptor and then the loop leaves the poller watching nothing and the socket closed.
\<close>

theorem reactor_setup_teardown:
  assumes fg: "f \<noteq> g" and loop: "newLoop (Some g) = Some (lp, p0)"
    and acc: "newAcceptor (Some f) True True addr k = Some (a, k1)" "listen True a p0 k1 = Some (a', p1, k2)"
    and gone: "destroyAcceptor a' p1 k2 = (p2, k3)"
  shows "dom (interest p1) = {f, g} \<and>
    k2 = k(f \<mapsto> \<lparr> reuseAddr = True, noDelay = False, boundTo = Some addr, listening = True \<rparr>) \<and>
    interest (destroyLoop lp p2) = Map.empty \<and> k3 = k(f := None)"
proof -
  define l0 where "l0 = \<lparr> wakeupFd = g, wakeupChannel = (newChannel g)\<lparr> readCb := True \<rparr> \<rparr>"
  have w: "watchWakeup l0 newPoller = (lp, p0)"
    using loop by (simp add: newLoop_def setupLoop_def l0_def)
  have l0: "in_step (wakeupChannel l0) newPoller" "fd (wakeupChannel l0) = g"
    by (rule new_in_step) (simp_all add: l0_def newChannel_def newPoller_def)
  obtain m where m: "interest p0 = [g \<mapsto> m]" "fd (wakeupChannel lp) = g"
    using wkp.start_watches [OF l0(1) w] l0(2) by (auto simp: newPoller_def)
  have a: "acceptFd a = f" "fd (acceptChannel a) = f" "index (acceptChannel a) = kNew"
      "k1 = k(f \<mapsto> \<lparr> reuseAddr = True, noDelay = False, boundTo = Some addr, listening = False \<rparr>)"
    using acc(1) by (auto simp: newAcceptor_def socket_ops newKSock_def newChannel_def)
  have st: "in_step (acceptChannel a) p0"
    using a fg m(1) by (intro new_in_step) simp_all
  have w': "watchAccept a p0 = (a', p1)" and k2: "k2 = k(f \<mapsto> \<lparr> reuseAddr = True, noDelay = False, boundTo = Some addr, listening = True \<rparr>)"
    using acc(2) a(1,4) by (auto simp: listen_def socket_ops split: prod.splits)
  obtain m' where m': "interest p1 = [g \<mapsto> m, f \<mapsto> m']" "fd (acceptChannel a') = f" "acceptFd a' = f"
    using acc.start_watches [OF st w'] a(1,2) m(1) w' by (auto simp: watchAccept_def split: prod.splits)
  have p2: "p2 = closeAcceptor a' p1" "k3 = k(f := None)"
    using gone m'(3) k2 by (auto simp: destroyAcceptor_def closeSocket_def)
  have i2: "interest p2 = [g \<mapsto> m]"
    using acc.stop_forgets [OF acc.started_in_step [OF st w']] m'(1,2) p2(1) fg by auto
  have "in_step (wakeupChannel lp) p2"
    using in_step_frame [OF wkp.started_in_step [OF l0(1) w]] i2 m by simp
  then have "interest (destroyLoop lp p2) = Map.empty"
    using wkp.stop_forgets i2 m(2) by auto
  then show ?thesis
    using m'(1) k2 p2(2) by auto
qed

theorem reactor_setup_teardown_witness:
  "\<exists>lp p0 a k1 a' p1 k2. newLoop (Some 3) = Some (lp, p0) \<and>
     newAcceptor (Some 4) True True (newInetAddress 9100 ''0.0.0.0'') Map.empty = Some (a, k1) \<and>
     listen True a p0 k1 = Some (a', p1, k2) \<and> dom (interest p1) = {4, 3} \<and>
     interest (destroyLoop lp (fst (destroyAcceptor a' p1 k2))) = Map.empty"
proof -
  obtain lp p0 where 1: "newLoop (Some 3) = Some (lp, p0)"
    by (cases "watchWakeup \<lparr> wakeupFd = 3, wakeupChannel = (newChannel 3)\<lparr> readCb := True \<rparr> \<rparr> newPoller")
       (simp add: newLoop_def setupLoop_def)
  obtain a k1 where 2: "newAcceptor (Some 4) True True (newInetAddress 9100 ''0.0.0.0'') Map.empty = Some (a, k1)"
    by (simp add: newAcceptor_def socket_ops)
  obtain a' p1 k2 where 3: "listen True a p0 k1 = Some (a', p1, k2)"
    by (cases "watchAccept a p0") (simp add: listen_def socket_ops)
  obtain p2 k3 where 4: "destroyAcceptor a' p1 k2 = (p2, k3)"
    by fastforce
  show ?thesis
    using reactor_setup_teardown [OF _ 1 2 3 4] 1 2 3 4 by auto
qed

end
