(* ===== verification/Delivery.thy ===== *)
theory Delivery
  imports TcpConnection "HOL-Library.Sublist"
begin

text \<open>
  What the peer of a connection receives: the codec on one side, the connection with its output buffer in
  between, and a codec fed with the bytes of the wire on the other side (\<^verbatim>\<open>src/src/net/TcpConnection.cc\<close>,
  \<^verbatim>\<open>src/src/proto/ProtobufCodec.cc\<close>).
\<close>

subsection \<open>The bytes handed to a connection\<close>

fun sends :: "conn_op list \<Rightarrow> byte list list" where
  "sends [] = []"
| "sends (CSend msg w # ops) = msg # sends ops"
| "sends (op # ops) = sends ops"

lemma sendInLoop_sent:
  assumes "sendInLoop msg w c = Some (c', es)" "state c \<noteq> kDisconnected"
  shows "sent c' = sent c @ msg \<and> state c' \<in> {state c, kDisconnected} \<and> inputBuffer c' = inputBuffer c"
  using assms by (auto simp: sendInLoop_def Let_def handleError_def handleClose_def queueRest_def split: if_splits write_result.splits)

text \<open>An operation that sends nothing, and does not open a closed connection.\<close>

definition quiet :: "TcpConnection \<Rightarrow> TcpConnection \<Rightarrow> bool" where
  "quiet c c' \<longleftrightarrow> sent c' = sent c \<and> (state c = kDisconnected \<longrightarrow> state c' = kDisconnected)"

lemma quiet_refl [simp]: "quiet c c"
  by (simp add: quiet_def)

lemma quiet_trans: "quiet c c1 \<Longrightarrow> quiet c1 c2 \<Longrightarrow> quiet c c2"
  by (simp add: quiet_def)

lemma quiet_close: "handleClose c = (c', es) \<Longrightarrow> quiet c c'"
  by (auto simp: quiet_def handleClose_def Let_def)

lemma quiet_shutdown: "quiet c (fst (shutdown c))" "shutdownInLoop c = (c', es) \<Longrightarrow> quiet c c'"
  by (auto simp: quiet_def shutdown_def shutdownInLoop_def split: if_splits)

lemma quiet_write:
  assumes "conn_inv c" "handleWrite ws c = Some (c', es)"
  shows "quiet c c'"
proof (cases "isWriting (channel c)")
  case True
  then have st: "state c \<noteq> kDisconnected"
    using assms(1) by (simp add: conn_inv_def out_inv_def)
  obtain c1 e where l: "write_loop ws c = Some (c1, e)"
    using assms(2) True by (auto simp: handleWrite_def split: option.splits)
  have "sent c1 = sent c"
    using write_loop_inv [OF l] assms(1) st by (simp add: conn_inv_def out_inv_def)
  then show ?thesis
    using assms(2) True l st
    by (cases e) (auto simp: quiet_def handleWrite_def handleError_def handleClose_def shutdownInLoop_def Let_def split: if_splits)
qed (use assms in \<open>simp add: handleWrite_def\<close>)

subsection \<open>Callbacks that do not send\<close>

locale quiet_callback = message_callback +
  assumes mcb_quiet: "conn_inv c \<Longrightarrow> quiet c (fst (mcb c))"
begin

lemma quiet_read:
  assumes "conn_inv c" "handleRead (Some mcb) rs c = Some (c', es)"
  shows "quiet c c'"
proof -
  obtain b e where r: "read_loop rs (inputBuffer c) = Some (b, e)"
    using assms(2) by (auto simp: handleRead_def split: option.splits)
  define c1 where "c1 = c\<lparr> inputBuffer := b \<rparr>"
  have c1: "quiet c c1" "conn_inv c1"
    using conn_inv_input [OF assms(1) read_loop_inv [OF r]] assms(1) by (simp_all add: c1_def quiet_def conn_inv_def out_inv_def)
  define c2 where "c2 = (if 0 < readableBytes b then fst (mcb c1) else c1)"
  have c2: "quiet c c2"
    using quiet_trans [OF c1(1) mcb_quiet [OF c1(2)]] c1(1) by (simp add: c2_def)
  have "handleClose c1 = (c', es) \<or> c' = c2 \<or> c' = fst (handleClose c2 :: TcpConnection \<times> 'a conn_effect list)"
    using assms(2) r
    by (auto simp: handleRead_def handleError_def c1_def c2_def Let_def case_prod_unfold split: if_splits)
  then show ?thesis
    using c1(1) c2 quiet_close quiet_trans by (metis prod.collapse)
qed

lemma quiet_callbacks:
  "conn_inv c \<Longrightarrow> run_callbacks (Some mcb) rs ws cbs c = Some (c', es) \<Longrightarrow> quiet c c'"
proof (induction cbs arbitrary: c es)
  case (Cons cb cbs)
  obtain c1 es1 es2 where 1: "(case cb of ReadCb \<Rightarrow> handleRead (Some mcb) rs c | WriteCb \<Rightarrow> handleWrite ws c
      | CloseCb \<Rightarrow> Some (handleClose c) | ErrorCb \<Rightarrow> Some (handleError c)) = Some (c1, es1)"
    "run_callbacks (Some mcb) rs ws cbs c1 = Some (c', es2)"
    using Cons.prems(2) by (auto split: option.splits)
  have "quiet c c1" "conn_inv c1"
    using 1(1) Cons.prems(1)
    by (cases cb; auto simp: handleError_def intro: quiet_read quiet_write quiet_close read_inv conn_inv_write conn_inv_close)+
  then show ?case
    using Cons.IH 1(2) quiet_trans by blast
qed simp

lemma run_sent:
  assumes "conn_inv c" "conn_run (Some mcb) ops c = Some (c', es)"
  shows "\<exists>xs ys. sends ops = xs @ ys \<and> sent c' = sent c @ concat xs \<and>
    (state c' \<noteq> kDisconnected \<longrightarrow> ys = []) \<and> (state c = kDisconnected \<longrightarrow> xs = [] \<and> state c' = kDisconnected)"
  using assms
proof (induction ops arbitrary: c es)
  case (Cons op ops)
  obtain c1 es1 es2 where 1: "conn_exec (Some mcb) op c = Some (c1, es1)" "conn_run (Some mcb) ops c1 = Some (c', es2)"
    using Cons.prems(2) by (auto split: option.splits)
  obtain xs ys where IH: "sends ops = xs @ ys" "sent c' = sent c1 @ concat xs" "state c' \<noteq> kDisconnected \<Longrightarrow> ys = []"
      "state c1 = kDisconnected \<Longrightarrow> xs = [] \<and> state c' = kDisconnected"
    using Cons.IH [OF exec_inv [OF Cons.prems(1) 1(1)] 1(2)] by blast
  show ?case
  proof (cases "\<exists>msg w. op = CSend msg w")
    case True
    then obtain msg w where op: "op = CSend msg w"
      by blast
    show ?thesis
    proof (cases "state c = kDisconnected")
      case True
      then have "c1 = c"
        using 1(1) by (simp add: op sendInLoop_def)
      then show ?thesis
        using IH True by (intro exI [of _ "[]"] exI [of _ "msg # ys"]) (simp add: op)
    next
      case False
      then show ?thesis
        using IH sendInLoop_sent [OF 1(1) [unfolded op conn_exec.simps]]
        by (intro exI [of _ "msg # xs"] exI [of _ ys]) (simp add: op)
    qed
  next
    case False
    then have "sends (op # ops) = sends ops" "quiet c c1"
      using 1(1) Cons.prems(1) quiet_shutdown
      by (cases op; auto simp: channel_event_def intro: quiet_callbacks)+
    then show ?thesis
      using IH by (intro exI [of _ xs] exI [of _ ys]) (auto simp: quiet_def)
  qed
qed simp

end

lemma codec_callback_quiet: "quiet c (fst (codec_callback c))"
  by (auto simp: codec_callback_def quiet_def shutdown_def shutdownInLoop_def Let_def split: option.split prod.split)

interpretation codec_quiet: quiet_callback codec_callback
  by unfold_locales (rule codec_callback_quiet)

subsection \<open>Prefixes of a stream of frames\<close>

text \<open>A prefix of a well-formed stream holds a prefix of its frames.\<close>

lemma split_frames_prefix:
  assumes "split_frames (xs @ ys) = (fs, rest, False)"
  obtains gs r where "split_frames xs = (gs, r, False)" "prefix gs fs"
proof -
  obtain gs r bad where g: "split_frames xs = (gs, r, bad)"
    by (metis prod_cases3)
  have nb: "\<not> bad"
    using split_frames_append_bad [of xs gs r ys] g assms by (cases bad) auto
  obtain hs r' bad' where "split_frames (r @ ys) = (hs, r', bad')"
    by (metis prod_cases3)
  then have "fs = gs @ hs"
    using split_frames_append [of xs gs r ys] g nb assms by simp
  then show ?thesis
    using that g nb by simp
qed

lemma prefix_take: "prefix xs ys \<Longrightarrow> xs = take (length xs) ys"
  by (auto simp: prefix_def)

text \<open>However a prefix of the stream is cut up, the receiver sees a prefix of the messages.\<close>

lemma feed_prefix:
  assumes "\<forall>(i, m) \<in> set ms. i < 2 ^ 16 \<and> kIdLen + length (ser m) \<le> kMaxFrameLen"
    and "concat chunks @ rest = concat (map (\<lambda>(i, m). encode ser i m) ms)"
  obtains n b where "feed conn newBuffer chunks = Some (map (\<lambda>(i, m). RawMessage i (ser m)) (take n ms), b)"
    "rest = [] \<Longrightarrow> take n ms = ms \<and> content b = []"
proof -
  let ?fs = "map (\<lambda>(i, m). (i, ser m)) ms"
  have all: "split_frames (concat chunks @ rest) = (?fs, [], False)"
    using split_frames_messages [OF assms(1)] assms(2) by simp
  obtain gs r where g: "split_frames (concat chunks) = (gs, r, False)" "prefix gs ?fs"
    using split_frames_prefix [OF all] .
  have idle: "split_frames (content newBuffer) = ([], content newBuffer, False)"
    by (simp add: newBuffer_ok split_frames.simps)
  have "split_frames (content newBuffer @ concat chunks) = (gs, r, False)"
    using g(1) by (simp add: newBuffer_ok)
  from feed_stream [OF conjunct1 [OF newBuffer_ok] idle this, of conn] obtain b where
      b: "feed conn newBuffer chunks = Some (map (\<lambda>(i, d). RawMessage i d) gs, b)" "content b = r"
    by blast
  have "map (\<lambda>(i, d). RawMessage i d) gs = map (\<lambda>(i, m). RawMessage i (ser m)) (take (length gs) ms)"
    by (subst prefix_take [OF g(2)]) (simp add: take_map [symmetric] case_prod_unfold comp_def)
  moreover have "take (length gs) ms = ms \<and> content b = []" if "rest = []"
    using all g(1) b(2) that by auto
  ultimately show ?thesis
    using that b(1) by metis
qed

subsection \<open>Delivery\<close>

text \<open>What is on the wire is a prefix of what was handed to the connection, and all of it once the output has drained.\<close>

lemma wire_prefix:
  assumes "conn_run (Some codec_callback) ops (established f) = Some (c, es)"
  obtains rest where "concat (sends ops) = wire c @ rest"
    "state c \<noteq> kDisconnected \<Longrightarrow> content (outputBuffer c) = [] \<Longrightarrow> rest = []"
proof -
  obtain xs ys where s: "sends ops = xs @ ys" "TcpConnection.sent c = concat xs" "state c \<noteq> kDisconnected \<Longrightarrow> ys = []"
    using codec_quiet.run_sent [OF established_inv assms] by (auto simp: established_fields)
  have inv: "out_inv c"
    using codec_mcb.run_inv [OF established_inv assms] by (simp add: conn_inv_def)
  then obtain tail where t: "concat xs = wire c @ tail"
    using s(2) by (auto simp: out_inv_def)
  have "tail = []" if "state c \<noteq> kDisconnected" "content (outputBuffer c) = []"
    using inv s(2) t that by (simp add: out_inv_def)
  then show ?thesis
    using that [of "tail @ concat ys"] s(1,3) t by simp
qed

text \<open>
  C7. Messages arrive as they were sent. The server hands encoded messages to a connection, in between any
  events, partial writes, errors and shutdowns; the network delivers a part of the wire's bytes in pieces
  of any size. The peer's codec delivers a prefix of these messages in order, with their numbers
  and bodies, and reports no framing error; when the connection is open, its output buffer has drained and all of the
  wire has been delivered, it has delivered them all and keeps no bytes.
\<close>

theorem messages_arrive_in_order:
  assumes wf: "\<forall>(i, m) \<in> set ms. i < 2 ^ 16 \<and> kIdLen + length (ser m) \<le> kMaxFrameLen"
    and run: "conn_run (Some codec_callback) ops (established f) = Some (c, es)"
    and sent: "sends ops = map (\<lambda>(i, m). encode ser i m) ms"
    and net: "concat chunks @ flight = wire c"
  shows "\<exists>n b. feed conn newBuffer chunks = Some (map (\<lambda>(i, m). RawMessage i (ser m)) (take n ms), b) \<and>
    (state c \<noteq> kDisconnected \<and> content (outputBuffer c) = [] \<and> flight = [] \<longrightarrow> take n ms = ms \<and> content b = [])"
proof -
  obtain rest where r: "concat (sends ops) = wire c @ rest"
      "state c \<noteq> kDisconnected \<Longrightarrow> content (outputBuffer c) = [] \<Longrightarrow> rest = []"
    using wire_prefix [OF run] by blast
  have "concat chunks @ (flight @ rest) = concat (map (\<lambda>(i, m). encode ser i m) ms)"
    using net r(1) sent by simp
  from feed_prefix [OF wf this] obtain n b where
    "feed conn newBuffer chunks = Some (map (\<lambda>(i, m). RawMessage i (ser m)) (take n ms), b)"
    "flight @ rest = [] \<longrightarrow> take n ms = ms \<and> content b = []"
    by blast
  then show ?thesis
    using r(2) by blast
qed

theorem messages_arrive_in_order_witness:
  "\<exists>c es n b. conn_run (Some codec_callback) [CSend (encode id 2 [7, 8]) (Wrote 8)] (established 5) = Some (c, es) \<and>
     feed (Some ()) newBuffer [[0, 0, 0], [4, 0, 2, 7, 8]] = Some (map (\<lambda>(i, m). RawMessage i m) (take n [(2, [7, 8])]), b) \<and>
     take n [(2, [7, 8 :: byte])] = [(2 :: nat, [7, 8])] \<and> content b = []"
proof -
  have e: "encode id 2 [7, 8] = [0, 0, 0, 4, 0, 2, 7, 8]"
    by (simp add: encode_def htonl_bytes_def htons_bytes_def codec_consts u32_def u16_def byte_of_def)
  have o: "\<not> isWriting (channel (established 5))" "readableBytes (outputBuffer (established 5)) = 0"
    using established_inv [of 5] newBuffer_ok readable_content [of newBuffer]
    by (simp_all add: conn_inv_def out_inv_open established_fields)
  obtain c where c: "conn_run (Some codec_callback) [CSend (encode id 2 [7, 8]) (Wrote 8)] (established 5) = Some (c, [])"
      "wire c = [0, 0, 0, 4, 0, 2, 7, 8]" "state c = kConnected" "content (outputBuffer c) = []"
    using o newBuffer_ok by (simp add: e sendInLoop_def Let_def established_fields queueRest_def)
  have "\<exists>n b. feed (Some ()) newBuffer [[0, 0, 0], [4, 0, 2, 7, 8]] = Some (map (\<lambda>(i, m). RawMessage i (id m)) (take n [(2, [7, 8])]), b) \<and>
      (state c \<noteq> kDisconnected \<and> content (outputBuffer c) = [] \<and> [] = ([] :: byte list) \<longrightarrow> take n [(2, [7, 8 :: byte])] = [(2 :: nat, [7, 8])] \<and> content b = [])"
    by (rule messages_arrive_in_order [OF _ c(1)]) (simp_all add: codec_consts c(2) id_def [symmetric])
  then show ?thesis
    using c by auto
qed

end
