(* ===== verification/EchoServer.thy ===== *)
theory EchoServer
  imports Delivery
begin

text \<open>
  The echo server of \<^verbatim>\<open>src/examples/echo_server.cc\<close>: its message callback sends back what has arrived. It runs on
  the connection's loop, so \<open>send\<close> writes at once; the answer of that \<^verbatim>\<open>write\<close> is an argument, cut to the
  length it was given. The callback is a second instance of \<open>message_callback\<close>.
\<close>

fun atMost :: "nat \<Rightarrow> write_result \<Rightarrow> write_result" where
  "atMost k (Wrote n) = Wrote (min n k)"
| "atMost k (WriteFail e) = WriteFail e"

definition echo_callback :: "write_result \<Rightarrow> TcpConnection \<Rightarrow> TcpConnection \<times> byte list conn_effect list" where
  "echo_callback w c =
     (let (data, b) = retrieveAllAsString (inputBuffer c);
          c = c\<lparr> inputBuffer := b \<rparr>
      in if \<not> connected c then (c, [])
         else (case sendInLoop data (atMost (length data) w) c of None \<Rightarrow> (c, []) | Some r \<Rightarrow> r))"

text \<open>An event of the connection with the kernel's answers to it.\<close>

record echo_event =
  eReads :: "readv_result list"
  eWrites :: "write_result list"
  eMask :: mask
  eSend :: write_result

fun echo_run :: "echo_event list \<Rightarrow> TcpConnection \<Rightarrow> TcpConnection option" where
  "echo_run [] c = Some c"
| "echo_run (e # evs) c =
     (case channel_event (Some (echo_callback (eSend e))) (eReads e) (eWrites e) (eMask e) c of
        None \<Rightarrow> None
      | Some (c, _) \<Rightarrow> echo_run evs c)"

text \<open>The bytes that the read loop takes from the kernel's answers, and that a run takes while the connection is
  open.\<close>

fun got :: "readv_result list \<Rightarrow> byte list" where
  "got [] = []"
| "got (ReadvData d # rs) = (if d = [] then [] else d @ got rs)"
| "got (ReadvError e # rs) = (if e = EINTR then got rs else [])"

definition arrived :: "echo_event \<Rightarrow> Channel \<Rightarrow> byte list" where
  "arrived e ch = (if ReadCb \<in> set (handleEvent (ch\<lparr> revents := eMask e \<rparr>)) then got (eReads e) else [])"

lemma read_loop_got: "read_loop rs b = Some (b', e) \<Longrightarrow> buf_inv b \<Longrightarrow> content b' = content b @ got rs"
proof (induction rs arbitrary: b)
  case (Cons r rs)
  show ?case
  proof (cases r)
    case (ReadvData d)
    obtain b1 n err where f: "readFd b (ReadvData d) = (b1, n, err)"
      by (cases "readFd b (ReadvData d)")
    then have "buf_inv b1" "content b1 = content b @ d" "n = int (length d)"
      using readFd_data_ok [OF Cons.prems(2) f] by auto
    then show ?thesis
      using Cons.IH [of b1] Cons.prems(1) ReadvData f by (auto split: if_splits)
  next
    case (ReadvError e)
    then show ?thesis
      using Cons.IH [of b] Cons.prems by (auto simp: readFd_def split: if_splits)
  qed
qed simp

lemma echo_callback_eq:
  assumes "buf_inv (inputBuffer c)"
  shows "\<exists>b. buf_inv b \<and> content b = [] \<and>
    (if connected c then \<exists>v. sendInLoop (content (inputBuffer c)) v (c\<lparr> inputBuffer := b \<rparr>) = Some (echo_callback w c)
     else echo_callback w c = (c\<lparr> inputBuffer := b \<rparr>, []))"
proof -
  let ?d = "content (inputBuffer c)" and ?c = "c\<lparr> inputBuffer := retrieveAll (inputBuffer c) \<rparr>"
  have r: "retrieveAllAsString (inputBuffer c) = (?d, retrieveAll (inputBuffer c))"
    by (simp add: retrieveAllAsString_def content_def)
  have "(sendInLoop ?d (atMost (length ?d) w) ?c :: (TcpConnection \<times> byte list conn_effect list) option) \<noteq> None"
    by (cases w) (simp_all add: sendInLoop_def Let_def)
  then obtain x where x: "sendInLoop ?d (atMost (length ?d) w) ?c = Some (x :: TcpConnection \<times> byte list conn_effect list)"
    by blast
  have "if connected c then sendInLoop ?d (atMost (length ?d) w) ?c = Some (echo_callback w c) else echo_callback w c = (?c, [])"
    using x by (simp add: echo_callback_def r connected_def)
  then show ?thesis
    using retrieveAll_ok [OF assms] by (intro exI [of _ "retrieveAll (inputBuffer c)"]) (auto split: if_splits)
qed

interpretation echo_mcb: message_callback "echo_callback w" for w
proof
  fix c
  assume c: "conn_inv c"
  then obtain b where b: "buf_inv b"
    "if connected c then \<exists>v. sendInLoop (content (inputBuffer c)) v (c\<lparr> inputBuffer := b \<rparr>) = Some (echo_callback w c)
     else echo_callback w c = (c\<lparr> inputBuffer := b \<rparr>, [])"
    using echo_callback_eq [of c w] by (auto simp: conn_inv_def out_inv_def)
  have c1: "conn_inv (c\<lparr> inputBuffer := b \<rparr>)"
    by (rule conn_inv_input [OF c b(1)])
  show "conn_inv (fst (echo_callback w c))"
  proof (cases "connected c")
    case True
    then show ?thesis
      using b(2) conn_inv_send [OF c1] by (metis prod.collapse)
  qed (use b(2) c1 in simp)
qed

subsection \<open>What is sent is what has arrived\<close>

text \<open>\<open>R\<close> is what has arrived so far.\<close>

definition echoed :: "byte list \<Rightarrow> TcpConnection \<Rightarrow> bool" where
  "echoed R c \<longleftrightarrow> conn_inv c \<and>
     (state c = kConnected \<and> content (inputBuffer c) = [] \<and> sent c = R \<or> state c = kDisconnected \<and> (\<exists>zs. R = sent c @ zs))"

lemma echoed_closed: "echoed R c \<Longrightarrow> state c = kDisconnected \<Longrightarrow> echoed (R @ ys) c"
  by (auto simp: echoed_def)

lemma echoed_close:
  assumes "conn_inv c" "R = sent c @ zs" "handleClose c = (c', es)"
  shows "echoed R c'"
  using assms conn_inv_close [OF assms(1,3)] by (auto simp: echoed_def handleClose_def Let_def)

lemma echoed_callback:
  assumes "conn_inv c" "state c = kConnected \<and> R = sent c @ content (inputBuffer c) \<or> state c = kDisconnected \<and> (\<exists>zs. R = sent c @ zs)"
  shows "echoed R (fst (echo_callback w c))"
proof -
  have inv: "conn_inv (fst (echo_callback w c))"
    by (rule echo_mcb.mcb_inv [OF assms(1)])
  obtain b where b: "content b = []"
    "if connected c then \<exists>v. sendInLoop (content (inputBuffer c)) v (c\<lparr> inputBuffer := b \<rparr>) = Some (echo_callback w c)
     else echo_callback w c = (c\<lparr> inputBuffer := b \<rparr>, [])"
    using echo_callback_eq [of c w] assms(1) by (auto simp: conn_inv_def out_inv_def)
  show ?thesis
  proof (cases "connected c")
    case True
    then obtain v where "sendInLoop (content (inputBuffer c)) v (c\<lparr> inputBuffer := b \<rparr>) = Some (fst (echo_callback w c), snd (echo_callback w c))"
      using b(2) by auto
    from sendInLoop_sent [OF this] True assms(2) b(1) inv show ?thesis
      by (auto simp: echoed_def connected_def)
  next
    case False
    then show ?thesis
      using b assms(2) inv by (auto simp: echoed_def connected_def)
  qed
qed

lemma echoed_read:
  assumes "echoed R c" "handleRead (Some (echo_callback w)) rs c = Some (c', es)"
  shows "echoed (R @ got rs) c'"
proof -
  obtain b e where r: "read_loop rs (inputBuffer c) = Some (b, e)"
    using assms(2) by (auto simp: handleRead_def split: option.splits)
  let ?c = "c\<lparr> inputBuffer := b \<rparr>"
  have b: "buf_inv b" "content b = content (inputBuffer c) @ got rs"
    using read_loop_inv [OF r] read_loop_got [OF r] assms(1) by (simp_all add: echoed_def conn_inv_def out_inv_def)
  have inv: "conn_inv ?c"
    using conn_inv_input [OF _ b(1)] assms(1) by (simp add: echoed_def)
  have R: "state ?c = kConnected \<and> R @ got rs = sent ?c @ content (inputBuffer ?c) \<or> state ?c = kDisconnected \<and> (\<exists>zs. R @ got rs = sent ?c @ zs)"
    using assms(1) b(2) by (auto simp: echoed_def)
  define c2 where "c2 = (if 0 < readableBytes b then fst (echo_callback w ?c) else ?c)"
  have c2: "echoed (R @ got rs) c2"
  proof (cases "0 < readableBytes b")
    case False
    then have "content b = []"
      using readable_content [OF b(1)] by simp
    then show ?thesis
      using False R inv b(2) by (auto simp: c2_def echoed_def)
  qed (simp add: c2_def echoed_callback [OF inv R])
  have "handleClose ?c = (c', es) \<or> c' = c2 \<or> c' = fst (handleClose c2 :: TcpConnection \<times> byte list conn_effect list)"
    using assms(2) r by (auto simp: handleRead_def handleError_def c2_def Let_def case_prod_unfold split: if_splits)
  moreover have "\<exists>zs. R @ got rs = sent ?c @ zs" "\<exists>zs. R @ got rs = sent c2 @ zs" "conn_inv c2"
    using R c2 by (auto simp: echoed_def)
  ultimately show ?thesis
    using echoed_close [OF inv] echoed_close [of c2] c2 by (metis prod.collapse)
qed

lemma echoed_write:
  assumes "echoed R c" "handleWrite ws c = Some (c', es)"
  shows "echoed R c'"
proof (cases "isWriting (channel c)")
  case True
  then have st: "state c = kConnected"
    using assms(1) by (auto simp: echoed_def conn_inv_def out_inv_def)
  have inv: "conn_inv c'"
    using conn_inv_write assms by (auto simp: echoed_def)
  obtain c1 e where l: "write_loop ws c = Some (c1, e)"
    using assms(2) True by (auto simp: handleWrite_def split: option.splits)
  have 1: "sent c1 = sent c" "state c1 = state c" "inputBuffer c1 = inputBuffer c"
    using write_loop_inv [OF l] assms(1) st by (auto simp: echoed_def conn_inv_def out_inv_def)
  have "sent c' = sent c1 \<and> (state c' = kConnected \<and> inputBuffer c' = inputBuffer c1 \<or> state c' = kDisconnected)"
    using assms(2) True l st 1 by (cases e) (auto simp: handleWrite_def handleError_def handleClose_def Let_def)
  then show ?thesis
    using inv 1 st assms(1) by (auto simp: echoed_def)
qed (use assms in \<open>simp add: handleWrite_def\<close>)

lemma echoed_callbacks:
  "echoed R c \<Longrightarrow> run_callbacks (Some (echo_callback w)) rs ws cbs c = Some (c', es) \<Longrightarrow>
   echoed (R @ concat (map (\<lambda>cb. if cb = ReadCb then got rs else []) cbs)) c'"
proof (induction cbs arbitrary: R c es)
  case (Cons cb cbs)
  obtain c1 es1 es2 where 1: "(case cb of ReadCb \<Rightarrow> handleRead (Some (echo_callback w)) rs c | WriteCb \<Rightarrow> handleWrite ws c
      | CloseCb \<Rightarrow> Some (handleClose c) | ErrorCb \<Rightarrow> Some (handleError c)) = Some (c1, es1)"
    "run_callbacks (Some (echo_callback w)) rs ws cbs c1 = Some (c', es2)"
    using Cons.prems(2) by (auto split: option.splits)
  have "conn_inv c" "\<exists>zs. R = sent c @ zs"
    using Cons.prems(1) by (auto simp: echoed_def)
  then have "echoed (R @ (if cb = ReadCb then got rs else [])) c1"
    using 1(1) Cons.prems(1) echoed_close [of c R]
    by (cases cb) (auto simp: handleError_def intro: echoed_read echoed_write)
  from Cons.IH [OF this 1(2)] show ?case
    by simp
qed simp

lemma one_read: "concat (map (\<lambda>cb. if cb = ReadCb then x else []) (handleEvent ch)) = (if ReadCb \<in> set (handleEvent ch) then x else [])"
  by (simp add: handleEvent_def)

fun received :: "echo_event list \<Rightarrow> TcpConnection \<Rightarrow> byte list" where
  "received [] c = []"
| "received (e # evs) c =
     arrived e (channel c) @
     (case channel_event (Some (echo_callback (eSend e))) (eReads e) (eWrites e) (eMask e) c of
        None \<Rightarrow> []
      | Some (c, _) \<Rightarrow> received evs c)"

lemma echoed_run: "echoed R c \<Longrightarrow> echo_run evs c = Some c' \<Longrightarrow> echoed (R @ received evs c) c'"
proof (induction evs arbitrary: R c)
  case (Cons e evs)
  obtain c1 es where 1: "channel_event (Some (echo_callback (eSend e))) (eReads e) (eWrites e) (eMask e) c = Some (c1, es)"
    "echo_run evs c1 = Some c'"
    using Cons.prems(2) by (auto split: option.splits)
  have "echoed (R @ arrived e (channel c)) c1"
    using echoed_callbacks [OF Cons.prems(1) 1(1) [unfolded channel_event_def]] by (simp add: one_read arrived_def)
  from Cons.IH [OF this 1(2)] show ?case
    using 1(1) by simp
qed simp

text \<open>
  The echo server echoes: whatever the network delivers and however little the kernel takes at a time, as
  long as a connection is up the bytes on the wire followed by those waiting in its output buffer are exactly
  the bytes that have arrived; and at any time, also after a close, the wire carries a prefix of them.
\<close>

theorem echo_server_echoes:
  assumes "echo_run evs (established f) = Some c"
  shows "(connected c \<longrightarrow> wire c @ content (outputBuffer c) = received evs (established f)) \<and>
    (\<exists>zs. received evs (established f) = wire c @ zs)"
proof -
  have "echoed [] (established f)"
    using established_inv newBuffer_ok by (simp add: echoed_def established_fields)
  from echoed_run [OF this assms] have "echoed (received evs (established f)) c"
    by simp
  then show ?thesis
    by (auto simp: echoed_def conn_inv_def out_inv_def connected_def)
qed

end
