(* ===== verification/Dispatcher.thy ===== *)
theory Dispatcher
  imports ProtobufCodec
begin

text \<open>
  \<^verbatim>\<open>src/src/proto/Dispatcher.h\<close>: the table from message numbers to typed handlers. A handler of message
  type \<open>'m\<close> is registered together with the parser of that type (\<^verbatim>\<open>M::ParseFromArray\<close>, a parameter) and
  stored with the type erased, as in the code: the stored function parses, calls the handler, and
  falls back on the default handler the dispatcher has at the time of the call. A connection is
  its number; what a handler does is the list of effects \<open>'e\<close> it returns.
\<close>

type_synonym 'e default_handler = "nat \<Rightarrow> nat \<Rightarrow> 'e list"
type_synonym 'e raw_handler = "'e default_handler option \<Rightarrow> nat \<Rightarrow> nat \<Rightarrow> byte list \<Rightarrow> 'e list"

record 'e Dispatcher =
  handlers :: "nat \<rightharpoonup> 'e raw_handler"
  defaultHandler :: "'e default_handler option"

definition newDispatcher :: "'e Dispatcher" where
  "newDispatcher = \<lparr> handlers = Map.empty, defaultHandler = None \<rparr>"

definition callDefault :: "'e default_handler option \<Rightarrow> nat \<Rightarrow> nat \<Rightarrow> 'e list" where
  "callDefault dh conn mid = (case dh of None \<Rightarrow> [] | Some h \<Rightarrow> h conn mid)"

definition registerHandler ::
  "(byte list \<Rightarrow> 'm option) \<Rightarrow> nat \<Rightarrow> (nat \<Rightarrow> 'm \<Rightarrow> 'e list) \<Rightarrow> 'e Dispatcher \<Rightarrow> 'e Dispatcher" where
  "registerHandler parse msgId h d = d\<lparr> handlers := (handlers d)(msgId \<mapsto>
     (\<lambda>dh conn mid data. case parse data of
        Some msg \<Rightarrow> h conn msg
      | None \<Rightarrow> callDefault dh conn mid)) \<rparr>"

definition setDefaultHandler :: "'e default_handler \<Rightarrow> 'e Dispatcher \<Rightarrow> 'e Dispatcher" where
  "setDefaultHandler h d = d\<lparr> defaultHandler := Some h \<rparr>"

definition onRawMessage :: "'e Dispatcher \<Rightarrow> nat \<Rightarrow> nat \<Rightarrow> byte list \<Rightarrow> 'e list" where
  "onRawMessage d conn msgId data = (case handlers d msgId of
       Some h \<Rightarrow> h (defaultHandler d) conn msgId data
     | None \<Rightarrow> callDefault (defaultHandler d) conn msgId)"

text \<open>The contract of a registration, in the form client proofs use: it decides its own number and
  leaves every other number alone, and a default handler set later still serves it.\<close>

lemma onRawMessage_register [simp]:
  "onRawMessage (registerHandler parse k h d) conn mid data =
     (if mid = k then (case parse data of Some msg \<Rightarrow> h conn msg | None \<Rightarrow> callDefault (defaultHandler d) conn mid)
      else onRawMessage d conn mid data)"
  by (simp add: onRawMessage_def registerHandler_def split: option.split)

lemma onRawMessage_new [simp]: "onRawMessage newDispatcher conn mid data = []"
  by (simp add: onRawMessage_def newDispatcher_def callDefault_def)

lemma register_default [simp]: "defaultHandler (registerHandler parse k h d) = defaultHandler d"
  "defaultHandler newDispatcher = None"
  by (simp_all add: registerHandler_def newDispatcher_def)

text \<open>
  Routing: a message goes to the handler registered last under its number, with the parsed value,
  and to the default handler when it does not parse or when no handler has its number;
  registering under another number, or setting the default handler later, does not disturb it.
\<close>

theorem dispatch_routes:
  "onRawMessage (setDefaultHandler dh (registerHandler parse k h d)) conn mid data =
     (if mid = k then (case parse data of Some msg \<Rightarrow> h conn msg | None \<Rightarrow> dh conn mid)
      else onRawMessage (setDefaultHandler dh d) conn mid data) \<and>
   onRawMessage (registerHandler parse' k h' (registerHandler parse k h d)) conn mid data =
     onRawMessage (registerHandler parse' k h' d) conn mid data"
  by (auto simp: onRawMessage_def setDefaultHandler_def registerHandler_def callDefault_def split: option.split)

end
