(* ===== verification/Frontend.thy ===== *)
theory Frontend
  imports Dispatcher GameServer
begin

text \<open>
  The wiring of \<^verbatim>\<open>GameServer\<close>'s constructor: which lobby task each parsed message becomes, and the
  composition of framing, dispatch and posting. Parsing and serialising of the message bodies is
  protobuf's: the parsers are the record \<open>Parsers\<close>.
\<close>

subsection \<open>The handler table\<close>

record Parsers =
  pLoginReq :: "byte list \<Rightarrow> string option"
  pReconnectReq :: "byte list \<Rightarrow> (nat \<times> string) option"
  pMatchReq :: "byte list \<Rightarrow> nat option"
  pPlayerInput :: "byte list \<Rightarrow> PlayerInput option"
  pHeartbeat :: "byte list \<Rightarrow> int option"
  pLeaderboardReq :: "byte list \<Rightarrow> nat option"

text \<open>What an IO thread does with a message: it posts a task to the lobby (the random draws of a login
  are made there, so a login carries only its account), or calls \<open>onLeaderboard\<close> itself.\<close>

datatype io_effect = PostLogin nat string | PostTask lobby_req | Leaderboard nat nat

definition gs_dispatcher :: "Parsers \<Rightarrow> io_effect Dispatcher" where
  "gs_dispatcher ps =
     registerHandler (pLeaderboardReq ps) (msgId_value kLeaderboardReq) (\<lambda>c m. [Leaderboard c m])
    (registerHandler (pHeartbeat ps) (msgId_value kHeartbeat) (\<lambda>c m. [PostTask (ReqHeartbeat c m)])
    (registerHandler (pPlayerInput ps) (msgId_value kPlayerInput) (\<lambda>c m. [PostTask (ReqInput c m)])
    (registerHandler (pMatchReq ps) (msgId_value kMatchReq) (\<lambda>c m. [PostTask (ReqMatch c)])
    (registerHandler (pReconnectReq ps) (msgId_value kReconnectReq) (\<lambda>c m. [PostTask (ReqReconnect c (fst m) (snd m))])
    (registerHandler (pLoginReq ps) (msgId_value kLoginReq) (\<lambda>c m. [PostLogin c m])
     newDispatcher)))))"

text \<open>The raw-message callback the constructor hands to the codec, and the connection callback.\<close>

fun codec_cb :: "Parsers \<Rightarrow> nat \<Rightarrow> codec_event \<Rightarrow> io_effect list" where
  "codec_cb ps c (RawMessage mid data) = onRawMessage (gs_dispatcher ps) c mid data"
| "codec_cb ps c ProtobufCodec.ShutdownConn = []"

definition connection_cb :: "nat \<Rightarrow> bool \<Rightarrow> io_effect list" where
  "connection_cb c up = (if \<not> up then [PostTask (Disconnected c)] else [])"

subsection \<open>From the client's messages to the lobby's tasks\<close>

datatype client_msg =
    CLogin string | CReconnect nat string | CMatch nat | CInput PlayerInput | CHeartbeat int | CLeaderboard nat

fun msg_id :: "client_msg \<Rightarrow> MsgId" where
  "msg_id (CLogin _) = kLoginReq"
| "msg_id (CReconnect _ _) = kReconnectReq"
| "msg_id (CMatch _) = kMatchReq"
| "msg_id (CInput _) = kPlayerInput"
| "msg_id (CHeartbeat _) = kHeartbeat"
| "msg_id (CLeaderboard _) = kLeaderboardReq"

text \<open>The bytes \<open>bs\<close> are a serialisation of the message for the server's parser.\<close>

fun decodes :: "Parsers \<Rightarrow> client_msg \<Rightarrow> byte list \<Rightarrow> bool" where
  "decodes ps (CLogin a) bs = (pLoginReq ps bs = Some a)"
| "decodes ps (CReconnect p t) bs = (pReconnectReq ps bs = Some (p, t))"
| "decodes ps (CMatch p) bs = (pMatchReq ps bs = Some p)"
| "decodes ps (CInput i) bs = (pPlayerInput ps bs = Some i)"
| "decodes ps (CHeartbeat t) bs = (pHeartbeat ps bs = Some t)"
| "decodes ps (CLeaderboard n) bs = (pLeaderboardReq ps bs = Some n)"

fun task_of :: "nat \<Rightarrow> client_msg \<Rightarrow> io_effect" where
  "task_of c (CLogin a) = PostLogin c a"
| "task_of c (CReconnect p t) = PostTask (ReqReconnect c p t)"
| "task_of c (CMatch _) = PostTask (ReqMatch c)"
| "task_of c (CInput i) = PostTask (ReqInput c i)"
| "task_of c (CHeartbeat t) = PostTask (ReqHeartbeat c t)"
| "task_of c (CLeaderboard n) = Leaderboard c n"

lemma dispatch_decoded:
  "decodes ps m bs \<Longrightarrow> onRawMessage (gs_dispatcher ps) c (msgId_value (msg_id m)) bs = [task_of c m]"
  by (cases m) (simp_all add: gs_dispatcher_def)

text \<open>
  C2. End to end from the client to the lobby's queue: however the network cuts a client's stream of
  requests into pieces, the server posts exactly one task per request, with the request's
  contents and the connection it came on, in the order they were sent. Hypotheses: the parser
  inverts the client's serialisation of these messages and each fits a frame.
\<close>

theorem requests_reach_lobby_in_order:
  assumes decodes: "\<forall>m \<in> set ms. decodes ps m (ser m)" and fits: "\<forall>m \<in> set ms. kIdLen + length (ser m) \<le> kMaxFrameLen"
    and stream: "concat chunks = concat (map (\<lambda>m. encode ser (msgId_value (msg_id m)) m) ms)"
  shows "\<exists>evs b. feed who newBuffer chunks = Some (evs, b) \<and> content b = [] \<and>
    concat (map (codec_cb ps c) evs) = map (task_of c) ms"
proof -
  let ?fs = "map (\<lambda>m. (msgId_value (msg_id m), m)) ms"
  have "\<forall>(i, m) \<in> set ?fs. i < 2 ^ 16 \<and> kIdLen + length (ser m) \<le> kMaxFrameLen"
    using fits msgId_value_less by auto
  note frames = split_frames_messages [OF this]
  have "split_frames (content newBuffer @ concat chunks) = (map (\<lambda>m. (msgId_value (msg_id m), ser m)) ms, [], False)"
    using frames stream by (simp add: newBuffer_ok o_def)
  moreover have "split_frames (content newBuffer) = ([], content newBuffer, False)"
    by (simp add: newBuffer_ok split_frames.simps)
  ultimately obtain b where "feed who newBuffer chunks = Some (map (\<lambda>m. RawMessage (msgId_value (msg_id m)) (ser m)) ms, b)" "content b = []"
    using feed_stream [of newBuffer chunks _ "[]" who] by (auto simp: newBuffer_ok o_def)
  moreover have "concat (map (codec_cb ps c) (map (\<lambda>m. RawMessage (msgId_value (msg_id m)) (ser m)) ms)) = map (task_of c) ms"
    using decodes by (induction ms) (simp_all add: dispatch_decoded)
  ultimately show ?thesis
    by blast
qed

text \<open>A serialisation of two messages, for the witness.\<close>

definition demo_parsers :: Parsers where
  "demo_parsers = \<lparr> pLoginReq = (\<lambda>bs. if bs = [97, 98] then Some ''ab'' else None), pReconnectReq = (\<lambda>_. None),
     pMatchReq = (\<lambda>bs. if bs = [] then Some 0 else None), pPlayerInput = (\<lambda>_. None), pHeartbeat = (\<lambda>_. None),
     pLeaderboardReq = (\<lambda>_. None) \<rparr>"

fun demo_ser :: "client_msg \<Rightarrow> byte list" where
  "demo_ser (CLogin a) = (if a = ''ab'' then [97, 98] else [])"
| "demo_ser _ = []"

theorem requests_reach_lobby_in_order_witness:
  "\<exists>evs b. feed (Some ()) newBuffer [[0, 0, 0], [4, 0, 3, 97], [98, 0, 0, 0, 2, 0, 10]] = Some (evs, b) \<and>
     concat (map (codec_cb demo_parsers 7) evs) = [PostLogin 7 ''ab'', PostTask (ReqMatch 7)]"
proof -
  have "\<exists>evs b. feed (Some ()) newBuffer [[0, 0, 0], [4, 0, 3, 97], [98, 0, 0, 0, 2, 0, 10]] = Some (evs, b) \<and> content b = [] \<and>
      concat (map (codec_cb demo_parsers 7) evs) = map (task_of 7) [CLogin ''ab'', CMatch 0]"
    by (rule requests_reach_lobby_in_order [where ser = demo_ser])
      (simp_all add: demo_parsers_def codec_consts encode_def htonl_bytes_def htons_bytes_def u32_def u16_def byte_of_def)
  then show ?thesis
    by auto
qed

end
