(* ===== verification/BotClient.thy ===== *)
theory BotClient
  imports Frontend
begin

text \<open>
  The bot of \<^verbatim>\<open>src/examples/bot_client.cc\<close>: a blocking client that logs in, asks for a match, follows the
  snapshots and fights. Its socket is the list of what successive waits of \<^verbatim>\<open>recv\<close> bring: bytes, which stay
  in the kernel until they are read, or a failure (the 100 ms timeout, or the peer's close). Parsing
  of message bodies is protobuf's: \<open>ServerParsers\<close> gives what the message object holds afterwards, which
  the bot uses without looking at the result. \<open>acts\<close> logs what the bot sends.
\<close>

subsection \<open>Receiving\<close>

datatype recv_ev = Data "byte list" | Fail

type_synonym sock = "recv_ev list"

fun recvN :: "nat \<Rightarrow> sock \<Rightarrow> byte list \<Rightarrow> byte list option \<times> sock" where
  "recvN 0 sk acc = (Some acc, sk)"
| "recvN (Suc n) [] acc = (None, [])"
| "recvN (Suc n) (Fail # sk) acc = (None, sk)"
| "recvN (Suc n) (Data [] # sk) acc = (None, sk)"
| "recvN (Suc n) (Data (b # bs) # sk) acc =
     recvN n (if bs = [] then sk else Data bs # sk) (acc @ [b])"

definition recvFrame :: "sock \<Rightarrow> (nat \<times> byte list) option \<times> sock" where
  "recvFrame sk = (case recvN 6 sk [] of
       (None, sk) \<Rightarrow> (None, sk)
     | (Some head, sk) \<Rightarrow>
         let len = be_nat (take 4 head); id = be_nat (take 2 (drop 4 head)) in
         if len = 2 then (Some (id, []), sk)
         else (case recvN (u32 (len + 2 ^ 32 - 2)) sk [] of
                 (None, sk) \<Rightarrow> (None, sk)
               | (Some body, sk) \<Rightarrow> (Some (id, body), sk)))"

subsection \<open>The client\<close>

record ServerParsers =
  qLoginResp :: "byte list \<Rightarrow> LoginResp"
  qEnterRoom :: "byte list \<Rightarrow> EnterRoom"
  qStateSnapshot :: "byte list \<Rightarrow> StateSnapshot"
  qBattleEnd :: "byte list \<Rightarrow> nat"

datatype bot_act = Send client_msg | NewSocket

record Bot =
  pid :: nat
  tok :: string
  meX :: float32
  meY :: float32
  meHp :: int
  inRoom :: bool
  dropped :: bool
  enterMs :: nat
  lastInputMs :: nat
  lastHbMs :: nat
  botSeq :: nat
  world :: StateSnapshot
  acts :: "bot_act list"

definition newBot :: "string \<Rightarrow> Bot" where
  "newBot acc = \<lparr> pid = 0, tok = [], meX = 0, meY = 0, meHp = 100, inRoom = False, dropped = False, enterMs = 0,
     lastInputMs = 0, lastHbMs = 0, botSeq = 0,
     world = \<lparr> ss_tick = 0, ss_full = False, ss_players = [], ss_projectiles = [], ss_removed = [] \<rparr>,
     acts = [Send (CLogin acc)] \<rparr>"

definition sendMsg :: "client_msg \<Rightarrow> Bot \<Rightarrow> Bot" where
  "sendMsg m b = b\<lparr> acts := acts b @ [Send m] \<rparr>"

definition mergePlayer :: "PlayerState list \<Rightarrow> PlayerState \<Rightarrow> PlayerState list" where
  "mergePlayer ws p =
     (if \<exists>w \<in> set ws. ps_player_id w = ps_player_id p
      then map (\<lambda>w. if ps_player_id w = ps_player_id p then p else w) ws
      else ws @ [p])"

definition mergeSnapshot :: "StateSnapshot \<Rightarrow> StateSnapshot \<Rightarrow> StateSnapshot" where
  "mergeSnapshot w s =
     (if ss_full s then s else w\<lparr> ss_players := foldl mergePlayer (ss_players w) (ss_players s) \<rparr>)"

fun findMe :: "PlayerState list \<Rightarrow> Bot \<Rightarrow> Bot" where
  "findMe [] b = b"
| "findMe (p # ps) b =
     findMe ps (if ps_player_id p = pid b then b\<lparr> meX := ps_x p, meY := ps_y p, meHp := ps_hp p \<rparr> else b)"

datatype outcome = Exit nat | Running Bot

fun onServerMsg :: "nat \<Rightarrow> server_msg \<Rightarrow> Bot \<Rightarrow> outcome" where
  "onServerMsg now (MLoginResp r) b =
     (if lr_code r \<noteq> 0 then Exit 1
      else if pid b = 0
      then Running (sendMsg (CMatch (lr_player_id r)) (b\<lparr> pid := lr_player_id r, tok := lr_session_token r \<rparr>))
      else Running b)"
| "onServerMsg now (MEnterRoom r) b =
     (if er_room_id r = 0 then Exit 1 else Running (b\<lparr> inRoom := True, enterMs := now \<rparr>))"
| "onServerMsg now (MStateSnapshot s) b =
     Running (let w = mergeSnapshot (world b) s in findMe (ss_players w) (b\<lparr> world := w \<rparr>))"
| "onServerMsg now (MBattleEnd w) b = Exit 0"
| "onServerMsg now _ b = Running b"

text \<open>The switch over the message number; numbers it does not list are ignored.\<close>

definition onFrame :: "ServerParsers \<Rightarrow> nat \<Rightarrow> nat \<times> byte list \<Rightarrow> Bot \<Rightarrow> outcome" where
  "onFrame q now f b = (case f of (mid, body) \<Rightarrow>
     if mid = msgId_value kLoginResp then onServerMsg now (MLoginResp (qLoginResp q body)) b
     else if mid = msgId_value kEnterRoom then onServerMsg now (MEnterRoom (qEnterRoom q body)) b
     else if mid = msgId_value kStateSnapshot then onServerMsg now (MStateSnapshot (qStateSnapshot q body)) b
     else if mid = msgId_value kBattleEnd then onServerMsg now (MBattleEnd (qBattleEnd q body)) b
     else Running b)"

text \<open>The search for the nearest living enemy and the decision.\<close>

fun nearestEnemy :: "(float32 \<Rightarrow> float32 \<Rightarrow> float32) \<Rightarrow> Bot \<Rightarrow> PlayerState list \<Rightarrow> PlayerState option \<Rightarrow> float32 \<Rightarrow>
    PlayerState option \<times> float32" where
  "nearestEnemy hyp b [] enemy best = (enemy, best)"
| "nearestEnemy hyp b (p # ps) enemy best =
     (if ps_player_id p = pid b \<or> ps_hp p \<le> 0 then nearestEnemy hyp b ps enemy best
      else let d = hyp (ps_x p - meX b) (ps_y p - meY b) in
        if d < best then nearestEnemy hyp b ps (Some p) d else nearestEnemy hyp b ps enemy best)"

definition decide :: "(float32 \<Rightarrow> float32 \<Rightarrow> float32) \<Rightarrow> Bot \<Rightarrow> Bot" where
  "decide hyp b = (case nearestEnemy hyp b (ss_players (world b)) None (Fin 1000000000) of
       (None, best) \<Rightarrow> b
     | (Some e, best) \<Rightarrow>
         let sq = u32 (botSeq b + 1);
             dx = ps_x e - meX b; dy = ps_y e - meY b; len = hyp dx dy;
             (mx, my) = (if Fin 1 < len then (dx / len, dy / len) else (0, 0))
         in sendMsg (CInput \<lparr> in_seq = sq, move_x = mx, move_y = my, attack = (best \<le> Fin 14) \<rparr>)
              (b\<lparr> botSeq := sq \<rparr>))"

text \<open>One round of the main loop; \<open>dropMs\<close> is \<^verbatim>\<open>dropAfterMs\<close>.\<close>

definition dropNow :: "int \<Rightarrow> nat \<Rightarrow> Bot \<Rightarrow> bool" where
  "dropNow dropMs now b \<longleftrightarrow> inRoom b \<and> \<not> dropped b \<and> 0 \<le> dropMs \<and> nat dropMs < u64_minus now (enterMs b)"

definition botRound :: "ServerParsers \<Rightarrow> (float32 \<Rightarrow> float32 \<Rightarrow> float32) \<Rightarrow> int \<Rightarrow> nat \<Rightarrow>
    (nat \<times> byte list) option \<Rightarrow> Bot \<Rightarrow> outcome" where
  "botRound q hyp dropMs now frame b =
     (case (case frame of None \<Rightarrow> Running b | Some f \<Rightarrow> onFrame q now f b) of
        Exit n \<Rightarrow> Exit n
      | Running b \<Rightarrow>
          if dropNow dropMs now b
          then Running (sendMsg (CReconnect (pid b) (tok b)) (b\<lparr> dropped := True, acts := acts b @ [NewSocket] \<rparr>))
          else
            let b = (if 2000 < u64_minus now (lastHbMs b)
                     then sendMsg (CHeartbeat (int now)) (b\<lparr> lastHbMs := now \<rparr>) else b);
                b = (if inRoom b \<and> 0 < meHp b \<and> 100 < u64_minus now (lastInputMs b)
                     then decide hyp (b\<lparr> lastInputMs := now \<rparr>) else b)
            in Running b)"

text \<open>The main loop, with one reading of the clock per round; \<open>sk'\<close> is the socket it opens when it drops its connection.\<close>

fun botLoop :: "ServerParsers \<Rightarrow> (float32 \<Rightarrow> float32 \<Rightarrow> float32) \<Rightarrow> int \<Rightarrow> nat list \<Rightarrow> sock \<Rightarrow> sock \<Rightarrow> Bot \<Rightarrow> outcome" where
  "botLoop q hyp dropMs [] sk sk' b = Running b"
| "botLoop q hyp dropMs (now # nows) sk sk' b =
     (case recvFrame sk of (frame, rest) \<Rightarrow>
        (case botRound q hyp dropMs now frame b of
           Exit n \<Rightarrow> Exit n
         | Running c \<Rightarrow> botLoop q hyp dropMs nows (if dropped c \<and> \<not> dropped b then sk' else rest) sk' c))"

subsection \<open>Framing\<close>

text \<open>The bytes a socket will deliver when nothing fails before the list ends.\<close>

fun chunk :: "recv_ev \<Rightarrow> byte list" where
  "chunk (Data bs) = bs"
| "chunk Fail = []"

definition flowing :: "sock \<Rightarrow> bool" where
  "flowing sk \<longleftrightarrow> (\<forall>e \<in> set sk. chunk e \<noteq> [])"

lemma recvN_flowing:
  "flowing sk \<Longrightarrow> concat (map chunk sk) = s @ rest \<Longrightarrow> length s = n \<Longrightarrow>
   \<exists>sk'. recvN n sk acc = (Some (acc @ s), sk') \<and> flowing sk' \<and> concat (map chunk sk') = rest"
proof (induction n sk acc arbitrary: s rule: recvN.induct)
  case (5 n b bs sk acc)
  obtain t where s: "s = b # t" "length t = n"
    using "5.prems"(2,3) by (cases s) auto
  have fl: "flowing (if bs = [] then sk else Data bs # sk)"
    using "5.prems"(1) by (auto simp: flowing_def)
  show ?case
    using "5.IH" [OF fl, of t] "5.prems"(2) s by auto
qed (auto simp: flowing_def)

lemma recvN_part:
  "length xs \<le> n \<Longrightarrow> xs \<noteq> [] \<Longrightarrow>
   recvN n (Data (xs @ ys) # r) acc = recvN (n - length xs) ((if ys = [] then [] else [Data ys]) @ r) (acc @ xs)"
proof (induction xs arbitrary: n acc)
  case (Cons x xs)
  then obtain m where "n = Suc m"
    by (cases n) auto
  then show ?case
    using Cons.IH [of m "acc @ [x]"] Cons.prems by (cases "xs = []") simp_all
qed simp

lemma recvN_stops:
  "length bs < n \<Longrightarrow> recvN n ((if bs = [] then [] else [Data bs]) @ Fail # sk) acc = (None, sk)"
proof (induction bs arbitrary: n acc)
  case Nil
  then show ?case
    by (cases n) simp_all
next
  case (Cons b bs)
  then obtain m where "n = Suc m" "length bs < m"
    by (cases n) auto
  then show ?case
    using Cons.IH [of m "acc @ [b]"] by (cases "bs = []") simp_all
qed

text \<open>
  Without failures the bot receives exactly the frames the server encodes, however the network cuts
  them: one \<open>recvFrame\<close> consumes one frame, yields its number and body, and leaves the bytes behind it.
\<close>

theorem bot_receives_frame:
  assumes "flowing sk" "concat (map chunk sk) = encode ser i m @ rest" "i < 2 ^ 16" "kIdLen + length (ser m) \<le> kMaxFrameLen"
  shows "\<exists>sk'. recvFrame sk = (Some (i, ser m), sk') \<and> flowing sk' \<and> concat (map chunk sk') = rest"
proof -
  let ?l = "kIdLen + length (ser m)"
  have l: "?l < 2 ^ 32" "2 \<le> ?l" "u32 (?l + 2 ^ 32 - 2) = length (ser m)"
    using assms(4) by (auto simp: codec_consts u32_def)
  have "u32 ?l = ?l" "u16 i = i"
    using l(1) assms(3) by (simp_all add: u32_id u16_id)
  then have enc: "encode ser i m = (htonl_bytes ?l @ htons_bytes i) @ ser m"
    by (simp add: encode_def)
  obtain sk1 where 1: "recvN 6 sk [] = (Some (htonl_bytes ?l @ htons_bytes i), sk1)" "flowing sk1" "concat (map chunk sk1) = ser m @ rest"
    using recvN_flowing [OF assms(1), of "htonl_bytes ?l @ htons_bytes i" "ser m @ rest" 6 "[]"] assms(2) enc by auto
  obtain sk2 where 2: "recvN (length (ser m)) sk1 [] = (Some (ser m), sk2)" "flowing sk2" "concat (map chunk sk2) = rest"
    using recvN_flowing [OF 1(2,3), of "length (ser m)" "[]"] by auto
  show ?thesis
  proof (cases "ser m = []")
    case True
    then show ?thesis
      using 1 l assms(3) by (auto simp: recvFrame_def Let_def be_nat_htonl be_nat_htons codec_consts)
  next
    case False
    then have "?l \<noteq> 2"
      by (simp add: kIdLen_def)
    then show ?thesis
      using 1 2 l assms(3) by (simp add: recvFrame_def Let_def be_nat_htonl be_nat_htons)
  qed
qed

theorem bot_receives_frame_witness:
  "\<exists>sk'. recvFrame [Data [0, 0, 0], Data [4, 0, 3, 97], Data [98, 0, 0]] = (Some (3, [97, 98]), sk') \<and> concat (map chunk sk') = [0, 0]"
  using bot_receives_frame [of "[Data [0, 0, 0], Data [4, 0, 3, 97], Data [98, 0, 0]]" demo_ser 3 "CLogin ''ab''" "[0, 0]"]
  by (auto simp: flowing_def encode_def codec_consts htonl_bytes_def htons_bytes_def u32_def u16_def byte_of_def)

text \<open>
  A timeout in the middle of a frame desynchronises the bot for good: \<open>recvFrame\<close> gives up, the part it
  had read is gone, and the next call takes the middle of the old frame for a header.
\<close>

theorem bot_timeout_loses_bytes:
  assumes "0 < k" "k < length (encode ser i m)" "i < 2 ^ 16" "kIdLen + length (ser m) \<le> kMaxFrameLen"
  shows "recvFrame (Data (take k (encode ser i m)) # Fail # sk) = (None, sk)"
proof -
  let ?f = "encode ser i m" and ?l = "kIdLen + length (ser m)"
  have l: "?l < 2 ^ 32" "2 \<le> ?l" "u32 (?l + 2 ^ 32 - 2) = length (ser m)" "u32 ?l = ?l" "u16 i = i"
    using assms(3,4) by (auto simp: codec_consts u32_def u16_id)
  have len: "length ?f = 6 + length (ser m)"
    by (simp add: encode_def)
  have ne: "take k ?f \<noteq> []"
    using assms(1,2) by auto
  show ?thesis
  proof (cases "k < 6")
    case True
    then have "recvN 6 (Data (take k ?f) # Fail # sk) [] = (None, sk)"
      using recvN_stops [of "take k ?f" 6 sk "[]"] ne len by simp
    then show ?thesis
      by (simp add: recvFrame_def)
  next
    case False
    let ?h = "htonl_bytes ?l @ htons_bytes i"
    have f: "take k ?f = ?h @ take (k - 6) (ser m)"
      using False l by (simp add: encode_def)
    have "recvN 6 (Data (take k ?f) # Fail # sk) [] =
        recvN 0 ((if take (k - 6) (ser m) = [] then [] else [Data (take (k - 6) (ser m))]) @ Fail # sk) ?h"
      unfolding f using recvN_part [of ?h 6 "take (k - 6) (ser m)" "Fail # sk" "[]"] by (simp add: htonl_bytes_def)
    moreover have "recvN (length (ser m)) ((if take (k - 6) (ser m) = [] then [] else [Data (take (k - 6) (ser m))]) @ Fail # sk) [] = (None, sk)"
      by (rule recvN_stops) (use assms(2) False len in simp)
    moreover have "0 < length (ser m)"
      using assms(2) False len by linarith
    then have "?l \<noteq> 2"
      by (simp add: kIdLen_def)
    ultimately show ?thesis
      using l assms(3) by (simp add: recvFrame_def Let_def be_nat_htonl be_nat_htons)
  qed
qed

theorem bot_timeout_loses_bytes_witness:
  "recvFrame [Data [0], Fail, Data [0, 0, 2, 0, 10]] = (None, [Data [0, 0, 2, 0, 10]])"
  using bot_timeout_loses_bytes [of 1 demo_ser 10 "CMatch 0" "[Data [0, 0, 2, 0, 10]]"]
  by (simp add: encode_def codec_consts htonl_bytes_def htons_bytes_def u32_def u16_def byte_of_def)

subsection \<open>What the bot knows of the battle\<close>

abbreviation entry :: "PlayerState \<Rightarrow> nat \<times> float32 \<times> float32 \<times> int" where
  "entry p \<equiv> (ps_player_id p, ps_x p, ps_y p, ps_hp p)"

lemma player_entries_snoc: "player_entries (xs @ [p]) = (player_entries xs)(ps_player_id p \<mapsto> (ps_x p, ps_y p, ps_hp p))"
  by (simp add: player_entries_def)

lemma player_entries_none: "player_entries xs i = None \<longleftrightarrow> (\<forall>x \<in> set xs. ps_player_id x \<noteq> i)"
  by (auto simp: player_entries_def map_of_eq_None_iff image_iff)

lemma player_entries_replace:
  "player_entries (map (\<lambda>w. if ps_player_id w = ps_player_id p then p else w) xs) i =
   (if i = ps_player_id p \<and> (\<exists>w \<in> set xs. ps_player_id w = i) then Some (ps_x p, ps_y p, ps_hp p) else player_entries xs i)"
proof (induction xs rule: rev_induct)
  case (snoc w xs)
  then show ?case
    by (cases "ps_player_id w = ps_player_id p"; cases "i = ps_player_id p"; cases "\<exists>w \<in> set xs. ps_player_id w = ps_player_id p")
      (simp_all add: player_entries_snoc)
qed simp

lemma mergePlayer_entries: "player_entries (mergePlayer ws p) = (player_entries ws)(ps_player_id p \<mapsto> (ps_x p, ps_y p, ps_hp p))"
  by (auto simp: mergePlayer_def player_entries_snoc player_entries_replace fun_eq_iff)

lemma merge_entries: "player_entries (foldl mergePlayer ws ps) = player_entries ws ++ player_entries ps"
  by (induction ps arbitrary: ws rule: rev_induct) (simp_all add: mergePlayer_entries player_entries_snoc, simp add: player_entries_def)

lemma findMe_entries:
  "(case player_entries ps (pid b) of None \<Rightarrow> findMe ps b = b
    | Some (x, y, h) \<Rightarrow> findMe ps b = b\<lparr> meX := x, meY := y, meHp := h \<rparr>)"
proof (induction ps rule: rev_induct)
  case (snoc p ps)
  have "findMe (qs @ [p]) c = findMe [p] (findMe qs c)" for qs c
    by (induction qs arbitrary: c) simp_all
  then have step: "findMe (ps @ [p]) b = findMe [p] (findMe ps b)"
    by blast
  have "pid (findMe ps b) = pid b"
    by (induction ps arbitrary: b) simp_all
  then show ?case
    unfolding step using snoc
    by (cases "player_entries ps (pid b)"; cases "ps_player_id p = pid b") (auto simp: player_entries_snoc)
qed (simp add: player_entries_def)

fun botMsgs :: "nat \<Rightarrow> server_msg list \<Rightarrow> Bot \<Rightarrow> outcome" where
  "botMsgs now [] b = Running b"
| "botMsgs now (m # ms) b = (case onServerMsg now m b of Exit n \<Rightarrow> Exit n | Running b \<Rightarrow> botMsgs now ms b)"

text \<open>The bot's world agrees with the replica of a client on the players, and \<open>me\<close> is the entry of its own
  player, once there is one.\<close>

definition agrees :: "Replica \<Rightarrow> Bot \<Rightarrow> bool" where
  "agrees rp b \<longleftrightarrow> player_entries (ss_players (world b)) = rp_players rp \<and>
     (\<forall>e. pid b \<noteq> 0 \<longrightarrow> rp_players rp (pid b) = Some e \<longrightarrow> (meX b, meY b, meHp b) = e)"

lemma merge_receive:
  assumes "player_entries (ss_players w) = rp_players rp"
  shows "player_entries (ss_players (mergeSnapshot w s)) = rp_players (receive rp (MStateSnapshot s))"
  using assms by (simp add: mergeSnapshot_def merge_entries)

lemma findMe_fields [simp]: "world (findMe ps b) = world b" "pid (findMe ps b) = pid b"
  by (induction ps arbitrary: b) simp_all

lemma snapshot_agrees:
  assumes "player_entries (ss_players (world b)) = rp_players rp \<or> ss_full s"
  shows "agrees (receive rp (MStateSnapshot s)) (case onServerMsg now (MStateSnapshot s) b of Running b' \<Rightarrow> b')"
proof -
  let ?w = "mergeSnapshot (world b) s"
  have w: "player_entries (ss_players ?w) = rp_players (receive rp (MStateSnapshot s))"
    using assms by (auto simp: mergeSnapshot_def merge_entries)
  then show ?thesis
    using findMe_entries [of "ss_players ?w" "b\<lparr> world := ?w \<rparr>"]
    by (auto simp: agrees_def Let_def split: option.splits)
qed

lemma other_agrees:
  assumes "agrees rp b" "onServerMsg now m b = Running b'" "\<And>s. m \<noteq> MStateSnapshot s" "\<And>r. m \<noteq> MLoginResp r"
  shows "agrees (receive rp m) b'"
  using assms by (cases m) (auto simp: agrees_def split: if_splits)

lemma botMsgs_agrees:
  assumes "agrees rp b" "botMsgs now ms b = Running b'" "\<And>r. MLoginResp r \<notin> set ms"
  shows "agrees (foldl receive rp ms) b'"
  using assms
proof (induction ms arbitrary: rp b)
  case (Cons m ms)
  obtain b1 where b1: "onServerMsg now m b = Running b1" "botMsgs now ms b1 = Running b'"
    using Cons.prems(2) by (auto split: outcome.splits)
  have "agrees (receive rp m) b1"
  proof (cases "\<exists>s. m = MStateSnapshot s")
    case True
    then obtain s where "m = MStateSnapshot s"
      by blast
    then show ?thesis
      using snapshot_agrees [of b rp s now] Cons.prems(1) b1(1) by (auto simp: agrees_def)
  next
    case False
    then show ?thesis
      using other_agrees [OF Cons.prems(1) b1(1)] Cons.prems(3) by auto
  qed
  then show ?case
    using Cons.IH b1(2) Cons.prems(3) by auto
qed simp

text \<open>A room never sends a login response.\<close>

lemma set_msgs_to: "m \<in> set (msgs_to c es) \<longleftrightarrow> (\<exists>mid. SendFrame c mid m \<in> set es)"
  by (induction c es rule: msgs_to.induct) auto

lemma exec_no_login: "room_exec hyp t r = (r', es) \<Longrightarrow> SendFrame c mid (MLoginResp x) \<notin> set es"
  by (cases t)
    (auto simp: start_def onTick_def rebind_def forceEnd_def endBattle_def broadcast_def Room.send_def sendFullSnapshot_def enterRoom_def
      Let_def split: if_splits prod.splits option.splits)

lemma run_no_login: "room_run hyp ts r = (r', es) \<Longrightarrow> MLoginResp x \<notin> set (msgs_to c es)"
proof (induction ts arbitrary: r es)
  case (Cons t ts)
  then obtain r1 es1 es2 where "room_exec hyp t r = (r1, es1)" "room_run hyp ts r1 = (r', es2)" "es = es1 @ es2"
    by (auto split: prod.splits)
  then show ?case
    using Cons.IH exec_no_login by (fastforce simp: set_msgs_to)
qed simp

text \<open>
  C30. The bot sees the battle as it is. From a full snapshot on, whatever tasks its room runs and as long as
  its connection stays bound, the players in its \<open>world\<close> are exactly the server's, with their positions
  and hit points, although it keeps no projectiles and merges deltas its own way; and its own position
  and hit points are the server's.
\<close>

theorem bot_sees_the_battle:
  assumes room: "sim_inv (sim r)" "t0 = TStart \<or> t0 = TRebind i (Some c)" "bound (fst (room_exec hyp t0 r)) i c"
    "\<forall>t\<in>set ts. keeps_conn i c t" "shots_left r (length ts)" "room_run hyp (t0 # ts) r = (r', es)"
    and bot: "\<And>e. pid b \<noteq> 0 \<Longrightarrow> player_entries (ss_players (world b)) (pid b) = Some e \<Longrightarrow> (meX b, meY b, meHp b) = e"
    and run: "botMsgs now (msgs_to c es) b = Running b'"
  shows "player_entries (ss_players (world b')) = rp_players (view (sim r')) \<and>
    (\<forall>p. pid b' \<noteq> 0 \<longrightarrow> map_of (players (sim r')) (pid b') = Some p \<longrightarrow> (meX b', meY b', meHp b') = (px p, py p, hp p))"
proof -
  let ?rp = "\<lparr> rp_players = player_entries (ss_players (world b)), rp_projectiles = Map.empty \<rparr>"
  have "agrees ?rp b"
    using bot by (auto simp: agrees_def)
  from botMsgs_agrees [OF this run run_no_login [OF room(6)]] replica_follows [OF room, of ?rp] have "agrees (view (sim r')) b'"
    by simp
  then show ?thesis
    by (simp add: agrees_def view_def)
qed

theorem bot_sees_the_battle_witness:
  "\<exists>b' es. botMsgs 0 (msgs_to 10 es) ((newBot ''ann'')\<lparr> pid := 1 \<rparr>) = Running b' \<and>
     player_entries (ss_players (world b')) = rp_players (view (sim (fst (room_run hypot_exact [TStart, TInput 1 fire_input] demo_room))))"
proof -
  let ?ts = "[TInput 1 fire_input]" and ?b = "(newBot ''ann'')\<lparr> pid := 1 \<rparr>"
  obtain r' es where run: "room_run hypot_exact (TStart # ?ts) demo_room = (r', es)"
    by fastforce
  have c: "conns demo_room = [(1, Some 10), (2, Some 20)]" "Room.roomId demo_room = 1"
    by (simp_all add: demo_room_def newRoom_def)
  have b: "bound (fst (room_exec hypot_exact TStart demo_room)) 1 10"
    by (simp add: bound_def start_def c umap_ok_def)
  have n: "shots_left demo_room (length ?ts)"
    by (simp add: shots_left_def demo_room_def newRoom_def newBattleSim_def addPlayer_def)
  have i: "sim_inv (sim demo_room)"
    unfolding demo_room_def by (rule newRoom_inv)
  have "msgs_to 10 es = [enterRoom demo_room, MStateSnapshot (fullSnapshot demo_room)]"
    using run by (auto simp: start_def broadcast_def Room.send_def sendFullSnapshot_def c)
  then obtain b' where r: "botMsgs 0 (msgs_to 10 es) ?b = Running b'"
    by (simp add: enterRoom_def c)
  have "player_entries (ss_players (world ?b)) (pid ?b) = None"
    by (simp add: newBot_def player_entries_def)
  then show ?thesis
    using bot_sees_the_battle [OF i disjI1 [OF refl] b _ n run _ r] r run by auto
qed

end
