(* ===== verification/EndToEnd.thy ===== *)
theory EndToEnd
  imports BotClient Delivery
begin

text \<open>
  A battle from the room to a client, through every layer in between: the tasks of the room
  (\<^verbatim>\<open>src/src/game/Room.cc\<close>), the codec and the connection of the server (\<^verbatim>\<open>src/src/proto\<close>, \<^verbatim>\<open>src/src/net\<close>), the bytes of the wire cut by
  the network, and the main loop of the bot (\<^verbatim>\<open>src/examples/bot_client.cc\<close>).
\<close>

subsection \<open>Messages and frames\<close>

definition is_snapshot :: "server_msg \<Rightarrow> bool" where
  "is_snapshot m \<longleftrightarrow> (\<exists>s. m = MStateSnapshot s)"

text \<open>The message ends the bot, or logs it in.\<close>

fun exits :: "server_msg \<Rightarrow> bool" where
  "exits (MLoginResp r) \<longleftrightarrow> lr_code r \<noteq> 0"
| "exits (MEnterRoom r) \<longleftrightarrow> er_room_id r = 0"
| "exits (MBattleEnd w) \<longleftrightarrow> True"
| "exits _ \<longleftrightarrow> False"

definition is_login :: "server_msg \<Rightarrow> bool" where
  "is_login m \<longleftrightarrow> (\<exists>r. m = MLoginResp r)"

text \<open>The server sends the message under its own number and the parser of that number gives it back.\<close>

fun understood :: "ServerParsers \<Rightarrow> (server_msg \<Rightarrow> byte list) \<Rightarrow> MsgId \<times> server_msg \<Rightarrow> bool" where
  "understood q ser (i, MLoginResp r) \<longleftrightarrow> i = kLoginResp \<and> qLoginResp q (ser (MLoginResp r)) = r"
| "understood q ser (i, MEnterRoom r) \<longleftrightarrow> i = kEnterRoom \<and> qEnterRoom q (ser (MEnterRoom r)) = r"
| "understood q ser (i, MStateSnapshot s) \<longleftrightarrow> i = kStateSnapshot \<and> qStateSnapshot q (ser (MStateSnapshot s)) = s"
| "understood q ser (i, MBattleEnd w) \<longleftrightarrow> i = kBattleEnd \<and> qBattleEnd q (ser (MBattleEnd w)) = w"
| "understood q ser (i, MHeartbeat t) \<longleftrightarrow> i = kHeartbeat"
| "understood q ser (i, MLeaderboardResp xs) \<longleftrightarrow> i = kLeaderboardResp"

lemma onFrame_understood:
  assumes "understood q ser (i, m)"
  shows "onFrame q now (msgId_value i, ser m) b = onServerMsg now m b"
  using assms by (cases m) (auto simp: onFrame_def)

lemma onServerMsg_goes_on: "\<not> exits m \<Longrightarrow> \<exists>b'. onServerMsg now m b = Running b'"
  by (cases m) auto

lemma onServerMsg_dropped: "onServerMsg now m b = Running b' \<Longrightarrow> dropped b' = dropped b"
proof -
  have "dropped (findMe ps c) = dropped c" for ps c
    by (induction ps arbitrary: c) simp_all
  then show "onServerMsg now m b = Running b' \<Longrightarrow> dropped b' = dropped b"
    by (cases m) (auto simp: sendMsg_def Let_def split: if_splits)
qed

subsection \<open>A round of the bot\<close>

text \<open>What the bot does after a frame leaves its picture of the battle alone.\<close>

definition same_picture :: "Bot \<Rightarrow> Bot \<Rightarrow> bool" where
  "same_picture b c \<longleftrightarrow> world c = world b \<and> pid c = pid b \<and> meX c = meX b \<and> meY c = meY b \<and> meHp c = meHp b \<and> dropped c = dropped b"

lemma decide_picture: "same_picture b (decide hyp b)"
  by (simp add: decide_def same_picture_def sendMsg_def Let_def split: prod.splits option.splits)

lemma round_picture:
  assumes "onFrame q now f b = Running b1"
  obtains c where "botRound q hyp (- 1) now (Some f) b = Running c" "same_picture b1 c"
proof -
  let ?h = "if 2000 < u64_minus now (lastHbMs b1) then sendMsg (CHeartbeat (int now)) (b1\<lparr> lastHbMs := now \<rparr>) else b1"
  let ?d = "if inRoom ?h \<and> 0 < meHp ?h \<and> 100 < u64_minus now (lastInputMs ?h) then decide hyp (?h\<lparr> lastInputMs := now \<rparr>) else ?h"
  have h: "same_picture b1 ?h" "same_picture b1 (?h\<lparr> lastInputMs := now \<rparr>)"
    by (simp_all add: same_picture_def sendMsg_def)
  then have "same_picture b1 ?d"
    using decide_picture [of "?h\<lparr> lastInputMs := now \<rparr>" hyp] by (simp add: same_picture_def del: if_split)
  moreover have "botRound q hyp (- 1) now (Some f) b = Running ?d"
    by (simp add: botRound_def assms dropNow_def Let_def)
  ultimately show ?thesis
    using that by blast
qed

lemma loop_step:
  assumes sk: "flowing sk" "concat (map chunk sk) = encode ser (msgId_value i) m @ rest"
    and size: "kIdLen + length (ser m) \<le> kMaxFrameLen" and m: "understood q ser (i, m)" "\<not> exits m"
  obtains sk1 b1 c where "onServerMsg now m b = Running b1" "same_picture b1 c" "flowing sk1" "concat (map chunk sk1) = rest"
    "botLoop q hyp (- 1) (now # nows) sk sk' b = botLoop q hyp (- 1) nows sk1 sk' c"
proof -
  obtain sk1 where r: "recvFrame sk = (Some (msgId_value i, ser m), sk1)" "flowing sk1" "concat (map chunk sk1) = rest"
    using bot_receives_frame [OF sk msgId_value_less size] by blast
  obtain b1 where b1: "onServerMsg now m b = Running b1"
    using onServerMsg_goes_on [OF m(2)] by blast
  obtain c where c: "botRound q hyp (- 1) now (Some (msgId_value i, ser m)) b = Running c" "same_picture b1 c"
    using round_picture [of q now "(msgId_value i, ser m)" b b1] onFrame_understood [OF m(1)] b1 by metis
  have "dropped c = dropped b"
    using c(2) onServerMsg_dropped [OF b1] by (simp add: same_picture_def)
  then show ?thesis
    by (intro that [OF b1 c(2) r(2,3)]) (simp add: r(1) c(1))
qed

text \<open>What every message keeps of the bot, the loop keeps through a stream of frames, with the replica of a
  client beside it.\<close>

lemma loop_frames:
  assumes "flowing sk" "concat (map chunk sk) = concat (map (\<lambda>(i, m). encode ser (msgId_value i) m) ms) @ rest"
    and "\<forall>(i, m) \<in> set ms. kIdLen + length (ser m) \<le> kMaxFrameLen \<and> understood q ser (i, m) \<and> \<not> exits m"
    and "\<And>rp now i m b b1 c. (i, m) \<in> set ms \<Longrightarrow> I rp b \<Longrightarrow> onServerMsg now m b = Running b1 \<Longrightarrow> same_picture b1 c \<Longrightarrow> I (receive rp m) c"
    and "I rp b" "length nows = length ms"
  shows "\<exists>sk1 c. botLoop q hyp (- 1) (nows @ nows') sk sk' b = botLoop q hyp (- 1) nows' sk1 sk' c \<and>
    I (foldl receive rp (map snd ms)) c \<and> flowing sk1 \<and> concat (map chunk sk1) = rest"
  using assms
proof (induction ms arbitrary: sk b rp nows)
  case (Cons x ms)
  obtain i m where x: "x = (i, m)"
    by (cases x)
  obtain now nows1 where n: "nows = now # nows1" "length nows1 = length ms"
    using Cons.prems(6) by (cases nows) auto
  have e: "concat (map chunk sk) = encode ser (msgId_value i) m @ (concat (map (\<lambda>(i, m). encode ser (msgId_value i) m) ms) @ rest)"
    using Cons.prems(2) x by simp
  have w: "kIdLen + length (ser m) \<le> kMaxFrameLen" "understood q ser (i, m)" "\<not> exits m"
    using Cons.prems(3) x by auto
  obtain sk1 b1 c where c: "onServerMsg now m b = Running b1" "same_picture b1 c" "flowing sk1"
      "concat (map chunk sk1) = concat (map (\<lambda>(i, m). encode ser (msgId_value i) m) ms) @ rest"
      "botLoop q hyp (- 1) (now # (nows1 @ nows')) sk sk' b = botLoop q hyp (- 1) (nows1 @ nows') sk1 sk' c"
    using loop_step [OF Cons.prems(1) e w] by metis
  have now: "I (receive rp m) c"
    using Cons.prems(4) [OF _ Cons.prems(5) c(1,2), of i] x by simp
  have later: "\<forall>(i, m) \<in> set ms. kIdLen + length (ser m) \<le> kMaxFrameLen \<and> understood q ser (i, m) \<and> \<not> exits m"
    using Cons.prems(3) by simp
  have "(i, m) \<in> set (x # ms)" if "(i, m) \<in> set ms" for i m
    using that by simp
  from Cons.IH [OF c(3,4) later Cons.prems(4) [OF this] now n(2)] show ?case
    using c(5) n(1) x by (simp del: botLoop.simps)
qed auto

subsection \<open>From the room to the bot\<close>

lemma picture_agrees: "agrees rp b \<Longrightarrow> same_picture b c \<Longrightarrow> agrees rp c"
  by (simp add: agrees_def same_picture_def)

lemma msg_agrees:
  assumes "agrees rp b" "onServerMsg now m b = Running b1" "\<not> is_login m"
  shows "agrees (receive rp m) b1"
  using botMsgs_agrees [of rp b now "[m]" b1] assms by (auto simp: is_login_def)

lemma receive_snapshots: "foldl receive rp ms = foldl receive rp (filter is_snapshot ms)"
proof (induction ms arbitrary: rp)
  case (Cons m ms)
  then show ?case
    by (cases m) (simp_all add: is_snapshot_def)
qed simp

lemma no_snapshot_yet:
  assumes "onServerMsg now m b = Running b1" "\<not> is_snapshot m"
  shows "world b1 = world b"
  using assms by (cases m) (auto simp: is_snapshot_def sendMsg_def split: if_splits)

abbreviation no_replica :: Replica where
  "no_replica \<equiv> \<lparr> rp_players = Map.empty, rp_projectiles = Map.empty \<rparr>"

lemma loop_agrees:
  assumes net: "flowing sk" "concat (map chunk sk) = concat (map (\<lambda>(i, m). encode ser (msgId_value i) m) (pre @ ms))"
    and msgs: "\<forall>(i, m) \<in> set (pre @ ms). kIdLen + length (ser m) \<le> kMaxFrameLen \<and> understood q ser (i, m) \<and> \<not> exits m"
      "\<forall>(i, m) \<in> set pre. \<not> is_snapshot m" "\<forall>(i, m) \<in> set ms. \<not> is_login m"
    and bot: "ss_players (world b) = []" "length nows = length (pre @ ms)"
  shows "\<exists>b'. botLoop q hyp (- 1) nows sk sk' b = Running b' \<and> agrees (foldl receive no_replica (map snd ms)) b'"
proof -
  let ?enc = "\<lambda>(i, m). encode ser (msgId_value i) m"
  have bytes: "concat (map chunk sk) = concat (map ?enc pre) @ (concat (map ?enc ms) @ [])"
    using net(2) by simp
  define n0 n1 where "n0 = take (length pre) nows" and "n1 = drop (length pre) nows"
  have n: "nows = n0 @ n1 @ []" "length n0 = length pre" "length n1 = length ms"
    using bot(2) by (simp_all add: n0_def n1_def)
  have ok: "\<forall>(i, m) \<in> set pre. kIdLen + length (ser m) \<le> kMaxFrameLen \<and> understood q ser (i, m) \<and> \<not> exits m"
      "\<forall>(i, m) \<in> set ms. kIdLen + length (ser m) \<le> kMaxFrameLen \<and> understood q ser (i, m) \<and> \<not> exits m"
    using msgs(1) by auto
  have empty: "ss_players (world c) = []" if "(i, m) \<in> set pre" "ss_players (world b) = []" "onServerMsg now m b = Running b1"
      "same_picture b1 c" for now i m b b1 c
    using no_snapshot_yet [OF that(3)] msgs(2) that by (auto simp: same_picture_def)
  have "\<exists>sk1 b0. botLoop q hyp (- 1) (n0 @ n1 @ []) sk sk' b = botLoop q hyp (- 1) (n1 @ []) sk1 sk' b0 \<and>
      ss_players (world b0) = [] \<and> flowing sk1 \<and> concat (map chunk sk1) = concat (map ?enc ms) @ []"
    by (rule loop_frames [where I = "\<lambda>rp b. ss_players (world b) = []", OF net(1) bytes ok(1) _ bot(1) n(2)]) (rule empty; assumption)
  then obtain sk1 b0 where b0: "botLoop q hyp (- 1) nows sk sk' b = botLoop q hyp (- 1) (n1 @ []) sk1 sk' b0"
      "ss_players (world b0) = []" "flowing sk1" "concat (map chunk sk1) = concat (map ?enc ms) @ []"
    using n(1) by blast
  have start: "agrees no_replica b0"
    by (simp add: agrees_def b0(2) player_entries_def)
  have step: "agrees (receive rp m) c" if "(i, m) \<in> set ms" "agrees rp b" "onServerMsg now m b = Running b1" "same_picture b1 c"
      for rp now i m b b1 c
    using picture_agrees [OF msg_agrees [OF that(2,3)] that(4)] msgs(3) that(1) by auto
  have "\<exists>sk2 b'. botLoop q hyp (- 1) (n1 @ []) sk1 sk' b0 = botLoop q hyp (- 1) [] sk2 sk' b' \<and>
      agrees (foldl receive no_replica (map snd ms)) b' \<and> flowing sk2 \<and> concat (map chunk sk2) = []"
    by (rule loop_frames [where I = agrees, OF b0(3,4) ok(2) _ start n(3)]) (rule step; assumption)
  then obtain sk2 b' where b': "botLoop q hyp (- 1) (n1 @ []) sk1 sk' b0 = botLoop q hyp (- 1) [] sk2 sk' b'"
      "agrees (foldl receive no_replica (map snd ms)) b'"
    by blast
  show ?thesis
    using b0(1) b' by simp
qed


text \<open>The start of a battle, with empty message bodies.\<close>

definition kickoff :: "(MsgId \<times> server_msg) list" where
  "kickoff = [(kEnterRoom, enterRoom demo_room), (kStateSnapshot, MStateSnapshot (fullSnapshot demo_room))]"

definition demo_server_parsers :: ServerParsers where
  "demo_server_parsers = \<lparr> qLoginResp = (\<lambda>_. \<lparr> lr_code = 0, lr_player_id = 1, lr_session_token = [] \<rparr>),
     qEnterRoom = (\<lambda>_. case enterRoom demo_room of MEnterRoom er \<Rightarrow> er),
     qStateSnapshot = (\<lambda>_. fullSnapshot demo_room), qBattleEnd = (\<lambda>_. 0) \<rparr>"

lemma demo_connection:
  obtains c es where "conn_run (Some codec_callback) [CSend [0, 0, 0, 2, 0, 11] (Wrote 6), CSend [0, 0, 0, 2, 0, 21] (Wrote 6)] (established 5) = Some (c, es)"
    "wire c = [0, 0, 0, 2, 0, 11, 0, 0, 0, 2, 0, 21]" "state c = kConnected" "content (outputBuffer c) = []"
proof -
  have o: "\<not> isWriting (channel (established 5))" "readableBytes (outputBuffer (established 5)) = 0"
    using established_inv [of 5] newBuffer_ok readable_content [of newBuffer]
    by (simp_all add: conn_inv_def out_inv_open established_fields)
  show ?thesis
    using that o newBuffer_ok by (simp add: sendInLoop_def Let_def established_fields queueRest_def)
qed


end
