(* ===== verification/BenchClient.thy ===== *)
theory BenchClient
  imports Frontend
begin

text \<open>
  The load generator of \<^verbatim>\<open>src/examples/bench_client.cc\<close>: many connections per thread over an edge-triggered
  epoll, with its own framing loop, output string and clocks. The answers of \<^verbatim>\<open>send\<close> that a connection will
  get are its field \<open>answers\<close>; an operation is None when they run out or contradict the manual page (a
  \<^verbatim>\<open>send\<close> of more bytes than it was given, or of none), or when the code would read message bytes that
  are not there. \<open>wire\<close> collects what the kernel accepted and \<open>queued\<close> the messages encoded so far: history
  variables. Body formats are protobuf's, as in the other clients. One reading of the clock per call.
\<close>

subsection \<open>Data\<close>

record Options =
  optConns :: nat
  optThreads :: nat
  battle :: bool

datatype bench_state = kConnecting | kWaitLogin | kIdle | kMatching | kBattle | kDead

datatype send_result = Sent nat | SendFail errno

record Conn =
  cfd :: int
  cstate :: bench_state
  inBuf :: Buffer
  outBytes :: "byte list"
  cPlayerId :: nat
  nextHbMs :: nat
  nextInputMs :: nat
  cSeq :: nat
  pendingSeq :: nat
  pendingSentMs :: nat
  wantOut :: bool
  answers :: "send_result list"
  wire :: "byte list"
  queued :: "client_msg list"

record Stats =
  established :: nat
  failed :: nat
  deadCount :: nat
  sentCount :: nat
  recvd :: nat
  hbRtt :: "nat list"
  inputRtt :: "nat list"

definition newConn :: "send_result list \<Rightarrow> Conn" where
  "newConn as = \<lparr> cfd = -1, cstate = kConnecting, inBuf = newBuffer, outBytes = [], cPlayerId = 0, nextHbMs = 0, nextInputMs = 0,
     cSeq = 0, pendingSeq = 0, pendingSentMs = 0, wantOut = True, answers = as, wire = [], queued = [] \<rparr>"

record BenchParsers =
  bLoginResp :: "byte list \<Rightarrow> LoginResp option"
  bHeartbeat :: "byte list \<Rightarrow> int option"
  bStateSnapshot :: "byte list \<Rightarrow> StateSnapshot option"
  bSer :: "client_msg \<Rightarrow> byte list"

subsection \<open>Sending\<close>

datatype send_end = Emptied | Blocked | Broken

text \<open>The loop of \<open>sendMsg\<close> over the output string.\<close>

fun send_loop :: "send_result list \<Rightarrow> Conn \<Rightarrow> (Conn \<times> send_end) option" where
  "send_loop as c =
     (if outBytes c = [] then Some (c\<lparr> answers := as \<rparr>, Emptied)
      else case as of
        [] \<Rightarrow> None
      | Sent n # as \<Rightarrow>
          if n = 0 \<or> length (outBytes c) < n then None
          else send_loop as (c\<lparr> outBytes := drop n (outBytes c), wire := wire c @ take n (outBytes c) \<rparr>)
      | SendFail e # as \<Rightarrow> Some (c\<lparr> answers := as \<rparr>, if e = EAGAIN then Blocked else Broken))"

declare send_loop.simps [simp del]

definition setEvents :: "bool \<Rightarrow> Conn \<Rightarrow> Conn" where
  "setEvents want c = c\<lparr> wantOut := want \<rparr>"

declare setEvents_def [simp]

definition sendMsg :: "(client_msg \<Rightarrow> byte list) \<Rightarrow> client_msg \<Rightarrow> Conn \<Rightarrow> Stats \<Rightarrow> (Conn \<times> Stats) option" where
  "sendMsg ser m c st =
     (let f = encode ser (msgId_value (msg_id m)) m;
          c = c\<lparr> outBytes := outBytes c @ f, queued := queued c @ [m] \<rparr>
      in case send_loop (answers c) c of
           None \<Rightarrow> None
         | Some (c, Broken) \<Rightarrow> Some (c\<lparr> cstate := kDead \<rparr>, st)
         | Some (c, _) \<Rightarrow> Some (setEvents (outBytes c \<noteq> []) c, st\<lparr> sentCount := sentCount st + 1 \<rparr>))"

text \<open>The continuation on \<^verbatim>\<open>EPOLLOUT\<close>: every failure just ends the loop.\<close>

definition resumeWrite :: "Conn \<Rightarrow> Conn option" where
  "resumeWrite c = (case send_loop (answers c) c of
       None \<Rightarrow> None
     | Some (c, _) \<Rightarrow> Some (setEvents (outBytes c \<noteq> []) c))"

subsection \<open>Receiving\<close>

definition ackOf :: "StateSnapshot \<Rightarrow> Conn \<Rightarrow> bool" where
  "ackOf s c \<longleftrightarrow> (\<exists>p \<in> set (ss_players s). ps_player_id p = cPlayerId c \<and> pendingSeq c \<le> ps_last_input_seq p)"

definition handleFrame :: "BenchParsers \<Rightarrow> Options \<Rightarrow> nat \<Rightarrow> nat \<times> byte list \<Rightarrow> Conn \<Rightarrow> Stats \<Rightarrow> (Conn \<times> Stats) option" where
  "handleFrame q opt now f c st = (case f of (mid, body) \<Rightarrow>
     if mid = msgId_value kLoginResp then
       (case bLoginResp q body of
          None \<Rightarrow> Some (c, st)
        | Some r \<Rightarrow>
            if lr_code r \<noteq> 0 then Some (c, st)
            else
              let c = c\<lparr> cPlayerId := lr_player_id r \<rparr> in
              if battle opt
              then (case sendMsg (bSer q) (CMatch (cPlayerId c)) c st of
                      None \<Rightarrow> None
                    | Some (c, st) \<Rightarrow> Some (c\<lparr> cstate := kMatching \<rparr>, st))
              else Some (c\<lparr> cstate := kIdle \<rparr>, st))
     else if mid = msgId_value kHeartbeat then
       (case bHeartbeat q body of
          None \<Rightarrow> Some (c, st)
        | Some t \<Rightarrow> Some (c, st\<lparr> hbRtt := hbRtt st @ [u64_minus now (nat (t mod 2 ^ 64))] \<rparr>))
     else if mid = msgId_value kEnterRoom then Some (c\<lparr> cstate := kBattle \<rparr>, st)
     else if mid = msgId_value kStateSnapshot then
       (if pendingSeq c = 0 then Some (c, st)
        else case bStateSnapshot q body of
          None \<Rightarrow> Some (c, st)
        | Some s \<Rightarrow>
            if ackOf s c
            then Some (c\<lparr> pendingSeq := 0 \<rparr>, st\<lparr> inputRtt := inputRtt st @ [u64_minus now (pendingSentMs c)] \<rparr>)
            else Some (c, st))
     else Some (c, st))"

fun readAll :: "readv_result list \<Rightarrow> Buffer \<Rightarrow> (Buffer \<times> bool) option" where
  "readAll [] b = None"
| "readAll (r # rs) b =
     (case readFd b r of (b', n, err) \<Rightarrow>
        if n = 0 then Some (b', False)
        else if n < 0 then
          (if err = Some EAGAIN then Some (b', True)
           else if err = Some EINTR then readAll rs b'
           else Some (b', False))
        else readAll rs b')"

text \<open>The framing loop, with the 32-bit arithmetic of \<^verbatim>\<open>4 + len\<close> and \<^verbatim>\<open>len - 2\<close>; it does not check the length.
  \<open>h\<close> is what it does with a frame (line 229 and 230). None: the length is below 2 or its sum wraps, so
  that the body it hands on is not one of the readable bytes'.\<close>

function frameLoop :: "(nat \<times> byte list \<Rightarrow> 's \<Rightarrow> 's option) \<Rightarrow> Buffer \<Rightarrow> 's \<Rightarrow> (Buffer \<times> 's) option" where
  "frameLoop h b s =
     (if readableBytes b < 6 then Some (b, s)
      else
        let len = be_nat (take 4 (peek b)) in
        if readableBytes b < u32 (4 + len) then Some (b, s)
        else if len < 2 \<or> 2 ^ 32 \<le> 4 + len then None
        else
          case h (be_nat (take 2 (drop 4 (peek b))), take (u32 (len + 2 ^ 32 - 2)) (drop 6 (peek b))) s of
            None \<Rightarrow> None
          | Some s' \<Rightarrow>
              (case retrieve b (u32 (4 + len)) of
                 None \<Rightarrow> None
               | Some b' \<Rightarrow> frameLoop h b' s'))"
  by pat_completeness auto
termination
  by (relation "measure (\<lambda>(h, b, s). readableBytes b)") (auto simp: u32_def intro!: retrieve_shrinks)

declare frameLoop.simps [simp del]

definition countFrame :: "BenchParsers \<Rightarrow> Options \<Rightarrow> nat \<Rightarrow> nat \<times> byte list \<Rightarrow> Conn \<times> Stats \<Rightarrow> (Conn \<times> Stats) option" where
  "countFrame q opt now f s = (case s of (c, st) \<Rightarrow> handleFrame q opt now f c (st\<lparr> recvd := recvd st + 1 \<rparr>))"

definition onReadable :: "BenchParsers \<Rightarrow> Options \<Rightarrow> nat \<Rightarrow> readv_result list \<Rightarrow> Conn \<Rightarrow> Stats \<Rightarrow> (Conn \<times> Stats) option" where
  "onReadable q opt now rs c st = (case readAll rs (inBuf c) of
       None \<Rightarrow> None
     | Some (b, False) \<Rightarrow> Some (c\<lparr> inBuf := b, cstate := kDead \<rparr>, st)
     | Some (b, True) \<Rightarrow>
         (case frameLoop (countFrame q opt now) b (c, st) of
            None \<Rightarrow> None
          | Some (b, c, st) \<Rightarrow> Some (c\<lparr> inBuf := b \<rparr>, st)))"

subsection \<open>The worker\<close>

definition myConns :: "Options \<Rightarrow> nat \<Rightarrow> nat" where
  "myConns opt tid = optConns opt div optThreads opt + (if tid < optConns opt mod optThreads opt then 1 else 0)"

text \<open>One epoll event of a connection: whether it can be written or read, the pending socket error, and
  the answers of \<^verbatim>\<open>readv\<close>. \<open>stagger\<close> is \<^verbatim>\<open>hbStagger\<close>.\<close>

definition onConnect :: "BenchParsers \<Rightarrow> nat \<Rightarrow> string \<Rightarrow> nat \<Rightarrow> Conn \<Rightarrow> Stats \<Rightarrow> (Conn \<times> Stats) option" where
  "onConnect q now acc stagger c st =
     (case sendMsg (bSer q) (CLogin acc) (c\<lparr> cstate := kWaitLogin \<rparr>) (st\<lparr> established := established st + 1 \<rparr>) of
        None \<Rightarrow> None
      | Some (c, st) \<Rightarrow> Some (c\<lparr> nextHbMs := now + 500 + stagger mod 2000 \<rparr>, st))"

record EpollEvent =
  canWrite :: bool
  canRead :: bool
  soError :: bool
  reads :: "readv_result list"

text \<open>The event part of the loop for one connection, its account and the stagger counter.\<close>

definition onEvent :: "BenchParsers \<Rightarrow> Options \<Rightarrow> nat \<Rightarrow> string \<Rightarrow> EpollEvent \<Rightarrow> nat \<Rightarrow> Conn \<Rightarrow> Stats \<Rightarrow> (nat \<times> Conn \<times> Stats) option" where
  "onEvent q opt now acc ev stagger c st =
     (let connected = cstate c = kConnecting \<and> canWrite ev in
      if cstate c = kDead then Some (stagger, c, st)
      else if connected \<and> soError ev then Some (stagger, c\<lparr> cstate := kDead \<rparr>, st\<lparr> failed := failed st + 1 \<rparr>)
      else
        case (if connected then onConnect q now acc stagger c st else Some (c, st)) of
          None \<Rightarrow> None
        | Some (c, st) \<Rightarrow>
            (case (if canRead ev then onReadable q opt now (reads ev) c st else Some (c, st)) of
               None \<Rightarrow> None
             | Some (c, st) \<Rightarrow>
                 (case (if cstate c \<noteq> kDead \<and> cstate c \<noteq> kConnecting \<and> canWrite ev \<and> outBytes c \<noteq> []
                        then resumeWrite c else Some c) of
                    None \<Rightarrow> None
                  | Some c \<Rightarrow> Some (if connected then stagger + 1 else stagger, c, st))))"

text \<open>The table of directions; the index adds the descriptor to the seconds, in 64-bit unsigned arithmetic.\<close>

definition f07 :: float32 where
  "f07 = round32 (7 / 10)"

definition dirTable :: "(float32 \<times> float32) list" where
  "dirTable = [(Fin 1, Fin 0), (f07, f07), (Fin 0, Fin 1), (- f07, f07), (Fin (-1), Fin 0), (- f07, - f07), (Fin 0, Fin (-1)), (f07, - f07)]"

definition direction :: "nat \<Rightarrow> int \<Rightarrow> float32 \<times> float32" where
  "direction now f = dirTable ! nat ((int (now div 1000) + f) mod 2 ^ 64 mod 8)"

definition sendInput :: "BenchParsers \<Rightarrow> nat \<Rightarrow> Conn \<Rightarrow> Stats \<Rightarrow> (Conn \<times> Stats) option" where
  "sendInput q now c st =
     (let c = c\<lparr> nextInputMs := now + 100, cSeq := u32 (cSeq c + 1) \<rparr>; d = direction now (cfd c) in
      case sendMsg (bSer q) (CInput \<lparr> in_seq = cSeq c, move_x = fst d, move_y = snd d, attack = False \<rparr>) c st of
        None \<Rightarrow> None
      | Some (c, st) \<Rightarrow>
          Some (if pendingSeq c = 0 then c\<lparr> pendingSeq := cSeq c, pendingSentMs := now \<rparr> else c, st))"

text \<open>The clock part of the loop for one connection.\<close>

definition onClock :: "BenchParsers \<Rightarrow> nat \<Rightarrow> Conn \<Rightarrow> Stats \<Rightarrow> (Conn \<times> Stats) option" where
  "onClock q now c st =
     (if cstate c = kDead \<or> cstate c = kConnecting \<or> cstate c = kWaitLogin then Some (c, st)
      else
        case (if nextHbMs c \<le> now then sendMsg (bSer q) (CHeartbeat (int now)) (c\<lparr> nextHbMs := now + 2000 \<rparr>) st else Some (c, st)) of
          None \<Rightarrow> None
        | Some (c, st) \<Rightarrow> if cstate c = kBattle \<and> nextInputMs c \<le> now then sendInput q now c st else Some (c, st))"

text \<open>A worker: its connections, its statistics and \<^verbatim>\<open>hbStagger\<close>. \<open>startConn\<close> takes the answers of \<^verbatim>\<open>socket\<close> and
  \<^verbatim>\<open>connect\<close> (whether it failed otherwise than with \<^verbatim>\<open>EINPROGRESS\<close>) and the later ones of \<^verbatim>\<open>send\<close>.\<close>

record Worker =
  wconns :: "Conn list"
  wstats :: Stats
  hbStagger :: nat

definition newStats :: Stats where
  "newStats = \<lparr> established = 0, failed = 0, deadCount = 0, sentCount = 0, recvd = 0, hbRtt = [], inputRtt = [] \<rparr>"

definition startConn :: "int \<Rightarrow> bool \<Rightarrow> send_result list \<Rightarrow> Stats \<Rightarrow> Conn \<times> Stats" where
  "startConn f refused as st =
     (if f < 0 then ((newConn as)\<lparr> cfd := f, cstate := kDead \<rparr>, st\<lparr> failed := failed st + 1 \<rparr>)
      else if refused then ((newConn as)\<lparr> cstate := kDead \<rparr>, st\<lparr> failed := failed st + 1 \<rparr>)
      else ((newConn as)\<lparr> cfd := f \<rparr>, st))"

fun startAll :: "(int \<times> bool \<times> send_result list) list \<Rightarrow> Stats \<Rightarrow> Conn list \<times> Stats" where
  "startAll [] st = ([], st)"
| "startAll ((f, refused, as) # xs) st =
     (let (c, st) = startConn f refused as st; (cs, st) = startAll xs st in (c # cs, st))"

definition startWorker :: "(int \<times> bool \<times> send_result list) list \<Rightarrow> Worker" where
  "startWorker xs = (let (cs, st) = startAll xs newStats in \<lparr> wconns = cs, wstats = st, hbStagger = 0 \<rparr>)"

text \<open>\<open>accOf\<close> builds the account from the connection's index.\<close>

definition eventStep :: "BenchParsers \<Rightarrow> Options \<Rightarrow> nat \<Rightarrow> (nat \<Rightarrow> string) \<Rightarrow> nat \<times> EpollEvent \<Rightarrow> Worker \<Rightarrow> Worker option" where
  "eventStep q opt now accOf x w = (case x of (i, ev) \<Rightarrow>
     if length (wconns w) \<le> i then None
     else case onEvent q opt now (accOf i) ev (hbStagger w) (wconns w ! i) (wstats w) of
            None \<Rightarrow> None
          | Some (sg, c, st) \<Rightarrow> Some \<lparr> wconns = (wconns w)[i := c], wstats = st, hbStagger = sg \<rparr>)"

fun eventRound :: "BenchParsers \<Rightarrow> Options \<Rightarrow> nat \<Rightarrow> (nat \<Rightarrow> string) \<Rightarrow> (nat \<times> EpollEvent) list \<Rightarrow> Worker \<Rightarrow> Worker option" where
  "eventRound q opt now accOf [] w = Some w"
| "eventRound q opt now accOf (x # xs) w =
     (case eventStep q opt now accOf x w of None \<Rightarrow> None | Some w \<Rightarrow> eventRound q opt now accOf xs w)"

fun clockConns :: "BenchParsers \<Rightarrow> nat \<Rightarrow> Conn list \<Rightarrow> Stats \<Rightarrow> (Conn list \<times> Stats) option" where
  "clockConns q now [] st = Some ([], st)"
| "clockConns q now (c # cs) st =
     (case onClock q now c st of
        None \<Rightarrow> None
      | Some (c, st) \<Rightarrow> (case clockConns q now cs st of None \<Rightarrow> None | Some (cs, st) \<Rightarrow> Some (c # cs, st)))"

definition workerRound :: "BenchParsers \<Rightarrow> Options \<Rightarrow> (nat \<Rightarrow> string) \<Rightarrow> nat \<times> (nat \<times> EpollEvent) list \<Rightarrow> Worker \<Rightarrow> Worker option" where
  "workerRound q opt accOf x w = (case x of (now, evs) \<Rightarrow>
     (case eventRound q opt now accOf evs w of
        None \<Rightarrow> None
      | Some w \<Rightarrow>
          (case clockConns q now (wconns w) (wstats w) of
             None \<Rightarrow> None
           | Some (cs, st) \<Rightarrow> Some (w\<lparr> wconns := cs, wstats := st \<rparr>))))"

fun workerRun :: "BenchParsers \<Rightarrow> Options \<Rightarrow> (nat \<Rightarrow> string) \<Rightarrow> (nat \<times> (nat \<times> EpollEvent) list) list \<Rightarrow> Worker \<Rightarrow> Worker option" where
  "workerRun q opt accOf [] w = Some w"
| "workerRun q opt accOf (x # xs) w =
     (case workerRound q opt accOf x w of None \<Rightarrow> None | Some w \<Rightarrow> workerRun q opt accOf xs w)"

text \<open>After the loop: counting the dead and adding the worker's figures to the total.\<close>

definition countDead :: "Worker \<Rightarrow> Stats" where
  "countDead w = (wstats w)\<lparr> deadCount := deadCount (wstats w) + length (filter (\<lambda>c. cstate c = kDead) (wconns w)) \<rparr>"

definition mergeStats :: "Stats \<Rightarrow> Stats \<Rightarrow> Stats" where
  "mergeStats tot st = \<lparr> established = established tot + established st, failed = failed tot + failed st,
     deadCount = deadCount tot + deadCount st, sentCount = sentCount tot + sentCount st, recvd = recvd tot + recvd st,
     hbRtt = hbRtt tot @ hbRtt st, inputRtt = inputRtt tot @ inputRtt st \<rparr>"

subsection \<open>Framing agrees with the server's codec\<close>

fun fold_opt :: "('x \<Rightarrow> 's \<Rightarrow> 's option) \<Rightarrow> 'x list \<Rightarrow> 's \<Rightarrow> 's option" where
  "fold_opt h [] s = Some s"
| "fold_opt h (x # xs) s = (case h x s of None \<Rightarrow> None | Some s \<Rightarrow> fold_opt h xs s)"

lemma u32_less_two:
  assumes "2 \<le> n" and "n < 2 ^ 32"
  shows "u32 (n + 2 ^ 32 - 2) = n - 2"
proof -
  have "n + 2 ^ 32 - 2 = (n - 2) + 2 ^ 32"
    using assms by simp
  then have "u32 (n + 2 ^ 32 - 2) = (n - 2) mod 2 ^ 32"
    unfolding u32_def by (simp only: mod_add_self2)
  then show ?thesis
    using assms by simp
qed

lemma frameLoop_split:
  "buf_inv b \<Longrightarrow> split_frames (content b) = (fs, rest, False) \<Longrightarrow>
   \<exists>b'. buf_inv b' \<and> content b' = rest \<and> frameLoop h b s = map_option (\<lambda>s. (b', s)) (fold_opt h fs s)"
proof (induction h b s arbitrary: fs rest rule: frameLoop.induct)
  case (1 h b s)
  let ?s = "content b" and ?len = "be_nat (take 4 (peek b))"
  have n: "length ?s = readableBytes b"
    by (rule content_length [OF "1.prems"(1)])
  show ?case
  proof (cases "readableBytes b < 4")
    case True
    then show ?thesis
      using "1.prems" n by (subst (asm) split_frames.simps) (auto simp: frameLoop.simps)
  next
    case False
    then have len: "be_nat (take 4 ?s) = ?len"
      using peek_prefix [OF "1.prems"(1), of 4] by simp
    note split = "1.prems"(2) [unfolded split_frames.simps [of ?s] len Let_def]
    have ok: "2 \<le> ?len" "?len \<le> 65536"
      using split False n by (simp_all add: codec_consts split: if_splits)
    then have u: "u32 (4 + ?len) = 4 + ?len" "u32 (?len + 2 ^ 32 - 2) = ?len - 2" "4 + ?len < 2 ^ 32"
      using u32_less_two [of ?len] by (simp_all add: u32_id)
    show ?thesis
    proof (cases "readableBytes b < 4 + ?len")
      case True
      then have "fs = []" "rest = ?s"
        using split False n ok by simp_all
      then show ?thesis
        using True u "1.prems"(1) by (auto simp: frameLoop.simps Let_def)
    next
      case whole: False
      obtain b' where b': "retrieve b (4 + ?len) = Some b'" "buf_inv b'" "content b' = drop (4 + ?len) ?s"
        using retrieve_Some [OF "1.prems"(1), of "4 + ?len"] whole by auto
      let ?f = "(be_nat (take 2 (drop 4 ?s)), take (?len - 2) (drop 6 ?s))"
      obtain fs' where fs': "split_frames (content b') = (fs', rest, False)" "fs = ?f # fs'"
        using split False n ok whole b'(3) by (auto split: prod.splits)
      have slices: "take 2 (drop 4 (peek b)) = take 2 (drop 4 ?s)" "take (?len - 2) (drop 6 (peek b)) = take (?len - 2) (drop 6 ?s)"
        using whole ok by (auto intro!: peek_slice [OF "1.prems"(1)])
      have "frameLoop h b s = (case h ?f s of None \<Rightarrow> None | Some s' \<Rightarrow> frameLoop h b' s')"
        using whole ok u b'(1) slices by (subst frameLoop.simps) (simp add: Let_def split: option.splits)
      moreover have "\<exists>b''. buf_inv b'' \<and> content b'' = rest \<and> frameLoop h b' s' = map_option (\<lambda>s. (b'', s)) (fold_opt h fs' s')"
        if "h ?f s = Some s'" for s'
        using "1.IH" [OF _ refl _ _ _ _ b'(2) fs'(1)] whole ok u b'(1) that slices by auto
      moreover have "\<exists>b''. buf_inv b'' \<and> content b'' = rest"
        using newBuffer_ok append_ok [of newBuffer rest] by auto
      ultimately show ?thesis
        using fs'(2) by (cases "h ?f s") auto
    qed
  qed
qed

fun frame_of :: "codec_event \<Rightarrow> nat \<times> byte list" where
  "frame_of (RawMessage i d) = (i, d)"
| "frame_of ProtobufCodec.ShutdownConn = (0, [])"

text \<open>
  C31. The framing loop of the load generator is equivalent to the codec of the server. On every buffer that
  the codec accepts, the loop calls its handler on exactly the messages that the codec delivers, in their order,
  and leaves the same unread bytes, although it waits for six bytes where the codec waits for four and
  checks no length; it stops early only where the handler does.
\<close>

theorem bench_frames_equivalent:
  assumes "buf_inv b" and "onMessage (Some c) b = Some (evs, b1)" and "ProtobufCodec.ShutdownConn \<notin> set evs"
  shows "\<exists>b2. content b2 = content b1 \<and> frameLoop h b s = map_option (\<lambda>s'. (b2, s')) (fold_opt h (map frame_of evs) s)"
proof -
  obtain fs rest bad where sp: "split_frames (content b) = (fs, rest, bad)"
    by (cases "split_frames (content b)") auto
  with onMessage_refines [OF assms(1), of "Some c"] assms(2,3)
  have "evs = map (\<lambda>(i, d). RawMessage i d) fs" "\<not> bad" "content b1 = rest"
    by (auto split: if_splits)
  moreover have "map frame_of (map (\<lambda>(i, d). RawMessage i d) fs) = fs"
    by (induction fs) auto
  ultimately show ?thesis
    using frameLoop_split [OF assms(1), of fs rest h s] sp by auto
qed

definition demo_frames :: Buffer where
  "demo_frames = \<lparr> bufferVec = replicate 8 0 @ [0, 0, 0, 3, 0, 2, 9, 0, 0, 0, 2, 0, 12, 0], readerIndex = 8, writerIndex = 22 \<rparr>"

lemma demo_split: "split_frames (content demo_frames) = ([(2, [9]), (12, [])], [0], False)"
proof -
  have c: "content demo_frames = encode id 2 [9] @ encode id 12 [] @ [0]"
    by (simp add: demo_frames_def content_def readableBytes_def peek_def encode_def htonl_bytes_def htons_bytes_def
      byte_of_def u32_def u16_def codec_consts)
  have "split_frames [0] = ([], [0], False)"
    by (simp add: split_frames.simps)
  from split_frames_encode [OF _ _ this, of id "[]" 12]
  have "split_frames (encode id 12 [] @ [0]) = ([(12, [])], [0], False)"
    by (simp add: codec_consts)
  from split_frames_encode [OF _ _ this, of id "[9]" 2] show ?thesis
    unfolding c by (simp add: codec_consts)
qed

theorem bench_frames_equivalent_witness:
  "\<exists>b2. content b2 = [0] \<and> frameLoop (\<lambda>f s. Some (s @ [f])) demo_frames [] = Some (b2, [(2, [9]), (12, [])])"
proof -
  have b: "buf_inv demo_frames"
    by (simp add: demo_frames_def buf_inv_def kCheapPrepend_def)
  obtain b1 where "onMessage (Some ()) demo_frames = Some ([RawMessage 2 [9], RawMessage 12 []], b1)" "content b1 = [0]"
    using onMessage_refines [OF b, of "Some ()"] demo_split by auto
  then show ?thesis
    using bench_frames_equivalent [OF b, of "()" _ b1 "\<lambda>f s. Some (s @ [f])" "[]"] by simp
qed

subsection \<open>The figures of the summary\<close>

definition streamed :: "(client_msg \<Rightarrow> byte list) \<Rightarrow> Conn \<Rightarrow> bool" where
  "streamed ser c \<longleftrightarrow> wire c @ outBytes c = concat (map (\<lambda>m. encode ser (msgId_value (msg_id m)) m) (queued c))"

definition pendingConn :: "Conn \<Rightarrow> nat" where
  "pendingConn c = (if cstate c = kConnecting then 1 else 0)"

definition deadConn :: "Conn \<Rightarrow> nat" where
  "deadConn c = (if cstate c = kDead then 1 else 0)"

text \<open>What every operation on a connection keeps, as a preorder on connections with their statistics.\<close>

definition accounts :: "(client_msg \<Rightarrow> byte list) \<Rightarrow> Conn \<times> Stats \<Rightarrow> Conn \<times> Stats \<Rightarrow> bool" where
  "accounts ser x y \<longleftrightarrow> (case (x, y) of ((c, st), (c', st')) \<Rightarrow>
     (streamed ser c \<longrightarrow> streamed ser c') \<and>
     established st' + pendingConn c' \<le> established st + pendingConn c \<and> failed st' = failed st \<and> deadCount st' = deadCount st \<and>
     sentCount st' + length (queued c) \<le> sentCount st + length (queued c'))"

lemma accounts_refl: "accounts ser x x"
  by (cases x) (simp add: accounts_def)

lemma accounts_trans: "accounts ser x y \<Longrightarrow> accounts ser y z \<Longrightarrow> accounts ser x z"
  by (cases x; cases y; cases z) (auto simp: accounts_def)

text \<open>Changes of the other fields, and leaving the state \<open>kConnecting\<close>.\<close>

lemma accounts_fields:
  assumes "(wire c', outBytes c', queued c') = (wire c, outBytes c, queued c)" "pendingConn c' \<le> pendingConn c"
    "(established st', failed st', deadCount st', sentCount st') = (established st, failed st, deadCount st, sentCount st)"
  shows "accounts ser (c, st) (c', st')"
  using assms by (simp add: accounts_def streamed_def)

lemma send_loop_stream:
  "send_loop as c = Some (c', e) \<Longrightarrow>
   wire c' @ outBytes c' = wire c @ outBytes c \<and> queued c' = queued c \<and> cstate c' = cstate c"
proof (induction as c arbitrary: c' e rule: send_loop.induct)
  case (1 as c)
  show ?case
  proof (cases "outBytes c = []")
    case False
    then obtain a as' where as: "as = a # as'"
      using "1.prems" by (cases as) (simp_all add: send_loop.simps [of "[]"])
    show ?thesis
    proof (cases a)
      case (Sent n)
      with False as "1.prems" have n: "n \<noteq> 0" "n \<le> length (outBytes c)"
        and s: "send_loop as' (c\<lparr> outBytes := drop n (outBytes c), wire := wire c @ take n (outBytes c) \<rparr>) = Some (c', e)"
        by (auto simp: send_loop.simps [of "Sent n # as'"] split: if_splits)
      show ?thesis
        using "1.IH" [OF False as Sent _ s] n by simp
    next
      case (SendFail x)
      with False as "1.prems" show ?thesis
        by (auto simp: send_loop.simps [of "SendFail x # as'"])
    qed
  qed (use "1.prems" in \<open>auto simp: send_loop.simps [of as]\<close>)
qed

lemma sendMsg_accounts:
  assumes "sendMsg ser m c st = Some (c', st')"
  shows "accounts ser (c, st) (c', st')"
proof -
  let ?f = "encode ser (msgId_value (msg_id m)) m"
  let ?c = "c\<lparr> outBytes := outBytes c @ ?f, queued := queued c @ [m] \<rparr>"
  obtain c1 e where l: "send_loop (answers c) ?c = Some (c1, e)"
    using assms by (auto simp: sendMsg_def Let_def split: option.splits)
  then have "(c', st') = (if e = Broken then (c1\<lparr> cstate := kDead \<rparr>, st)
      else (c1\<lparr> wantOut := outBytes c1 \<noteq> [] \<rparr>, st\<lparr> sentCount := sentCount st + 1 \<rparr>))"
    using assms by (cases e) (auto simp: sendMsg_def Let_def)
  then show ?thesis
    using send_loop_stream [OF l] by (auto simp: accounts_def streamed_def pendingConn_def simp flip: append_assoc split: if_splits)
qed

lemma resumeWrite_accounts:
  assumes "resumeWrite c = Some c'"
  shows "accounts ser (c, st) (c', st)"
  using assms send_loop_stream [of "answers c" c]
  by (auto simp: resumeWrite_def accounts_def streamed_def pendingConn_def split: option.splits)

lemma handleFrame_accounts:
  assumes "handleFrame q opt now f c st = Some (c', st')"
  shows "accounts (bSer q) (c, st) (c', st')"
proof -
  obtain mid body where f: "f = (mid, body)"
    by (cases f)
  have field: "accounts (bSer q) (c, st) (c', st')"
    if "\<nexists>r. mid = msgId_value kLoginResp \<and> bLoginResp q body = Some r \<and> lr_code r = 0 \<and> battle opt"
    using assms that unfolding f handleFrame_def
    by (intro accounts_fields) (auto simp: Let_def pendingConn_def split: if_splits option.splits)
  show ?thesis
  proof (cases "\<exists>r. mid = msgId_value kLoginResp \<and> bLoginResp q body = Some r \<and> lr_code r = 0 \<and> battle opt")
    case True
    then obtain r where r: "mid = msgId_value kLoginResp" "bLoginResp q body = Some r" "lr_code r = 0" "battle opt"
      by blast
    then obtain c1 where s: "sendMsg (bSer q) (CMatch (lr_player_id r)) (c\<lparr> cPlayerId := lr_player_id r \<rparr>) st = Some (c1, st')"
      and c': "c' = c1\<lparr> cstate := kMatching \<rparr>"
      using assms unfolding f handleFrame_def by (auto simp: Let_def split: option.splits)
    have "accounts (bSer q) (c, st) (c\<lparr> cPlayerId := lr_player_id r \<rparr>, st)"
      by (rule accounts_fields) (simp_all add: pendingConn_def)
    moreover have "accounts (bSer q) (c1, st') (c', st')"
      unfolding c' by (rule accounts_fields) (simp_all add: pendingConn_def)
    ultimately show ?thesis
      using sendMsg_accounts [OF s] accounts_trans by blast
  qed (use field in blast)
qed

lemma frameLoop_invariant:
  assumes "frameLoop h b s = Some (b', s')"
    and step: "\<And>f s s'. h f s = Some s' \<Longrightarrow> R s s'" and same: "\<And>s. R s s" and trans: "\<And>s t u. R s t \<Longrightarrow> R t u \<Longrightarrow> R s u"
  shows "R s s'"
  using assms(1,2)
proof (induction h b s arbitrary: b' s' rule: frameLoop.induct)
  case (1 h b s)
  let ?len = "be_nat (take 4 (peek b))"
  let ?f = "(be_nat (take 2 (drop 4 (peek b))), take (u32 (?len + 2 ^ 32 - 2)) (drop 6 (peek b)))"
  show ?case
  proof (cases "readableBytes b < 6 \<or> readableBytes b < u32 (4 + ?len)")
    case True
    then show ?thesis
      using "1.prems"(1) by (auto simp: frameLoop.simps [of h b s] Let_def intro: same split: if_splits)
  next
    case False
    then obtain t b1 where t: "\<not> (?len < 2 \<or> 2 ^ 32 \<le> 4 + ?len)" "h ?f s = Some t" "retrieve b (u32 (4 + ?len)) = Some b1"
      "frameLoop h b1 t = Some (b', s')"
      using "1.prems"(1) by (auto simp: frameLoop.simps [of h b s] Let_def split: if_splits option.splits)
    then have "R t s'"
      using "1.IH" [OF _ refl] False "1.prems"(2) by blast
    with "1.prems"(2) [OF t(2)] show ?thesis
      by (rule trans)
  qed
qed

lemma onReadable_accounts:
  assumes "onReadable q opt now rs c st = Some (c', st')"
  shows "accounts (bSer q) (c, st) (c', st')"
proof -
  obtain b alive where r: "readAll rs (inBuf c) = Some (b, alive)"
    using assms by (auto simp: onReadable_def split: option.splits)
  show ?thesis
  proof (cases alive)
    case True
    then obtain b' c1 where l: "frameLoop (countFrame q opt now) b (c, st) = Some (b', c1, st')" and c': "c' = c1\<lparr> inBuf := b' \<rparr>"
      using assms r by (auto simp: onReadable_def split: option.splits)
    have step: "accounts (bSer q) x y" if "countFrame q opt now f x = Some y" for f x y
    proof -
      obtain c st c' st' where xy: "x = (c, st)" "y = (c', st')"
        by (cases x; cases y)
      have "accounts (bSer q) (c, st) (c, st\<lparr> recvd := recvd st + 1 \<rparr>)"
        by (rule accounts_fields) simp_all
      moreover have "accounts (bSer q) (c, st\<lparr> recvd := recvd st + 1 \<rparr>) (c', st')"
        by (rule handleFrame_accounts [where f = f]) (use that in \<open>simp add: xy countFrame_def\<close>)
      ultimately show ?thesis
        unfolding xy by (rule accounts_trans)
    qed
    have "accounts (bSer q) (c, st) (c1, st')"
      by (rule frameLoop_invariant [OF l step accounts_refl accounts_trans])
    moreover have "accounts (bSer q) (c1, st') (c', st')"
      unfolding c' by (rule accounts_fields) (simp_all add: pendingConn_def)
    ultimately show ?thesis
      by (rule accounts_trans)
  next
    case False
    then show ?thesis
      using assms r by (intro accounts_fields) (auto simp: onReadable_def pendingConn_def)
  qed
qed

lemma onConnect_accounts:
  assumes "onConnect q now acc sg c st = Some (c', st')" and "cstate c = kConnecting"
  shows "accounts (bSer q) (c, st) (c', st')"
proof -
  let ?c = "c\<lparr> cstate := kWaitLogin \<rparr>" and ?st = "st\<lparr> established := established st + 1 \<rparr>"
  obtain c1 where s: "sendMsg (bSer q) (CLogin acc) ?c ?st = Some (c1, st')"
    and c': "c' = c1\<lparr> nextHbMs := now + 500 + sg mod 2000 \<rparr>"
    using assms(1) by (auto simp: onConnect_def split: option.splits)
  have "accounts (bSer q) (c, st) (?c, ?st)"
    using assms(2) by (simp add: accounts_def streamed_def pendingConn_def)
  moreover have "accounts (bSer q) (c1, st') (c', st')"
    unfolding c' by (rule accounts_fields) (simp_all add: pendingConn_def)
  ultimately show ?thesis
    using sendMsg_accounts [OF s] accounts_trans by blast
qed

text \<open>One turn of the loop for a connection: a connection found dead is left as it is.\<close>

definition turn_ok :: "(client_msg \<Rightarrow> byte list) \<Rightarrow> Conn \<Rightarrow> Stats \<Rightarrow> Conn \<Rightarrow> Stats \<Rightarrow> bool" where
  "turn_ok ser c st c' st' \<longleftrightarrow> (streamed ser c \<longrightarrow> streamed ser c') \<and>
     established st' + failed st' + pendingConn c' \<le> established st + failed st + pendingConn c \<and>
     sentCount st' + length (queued c) \<le> sentCount st + length (queued c') \<and>
     failed st' + deadConn c \<le> failed st + deadConn c' \<and> deadCount st' = deadCount st"

lemma turn_ok_accounts:
  "accounts ser (c, st) (c', st') \<Longrightarrow> cstate c \<noteq> kDead \<Longrightarrow> turn_ok ser c st c' st'"
  by (simp add: turn_ok_def accounts_def deadConn_def)

lemma turn_ok_refl: "turn_ok ser c st c st"
  by (simp add: turn_ok_def)

lemma onEvent_turn:
  assumes "onEvent q opt now acc ev sg c st = Some (sg', c', st')"
  shows "turn_ok (bSer q) c st c' st'"
proof (cases "cstate c = kDead \<or> (cstate c = kConnecting \<and> canWrite ev \<and> soError ev)")
  case True
  then show ?thesis
    using assms by (auto simp: onEvent_def Let_def turn_ok_def streamed_def pendingConn_def deadConn_def)
next
  case False
  let ?up = "cstate c = kConnecting \<and> canWrite ev"
  obtain c1 st1 c2 where
    1: "(if ?up then onConnect q now acc sg c st else Some (c, st)) = Some (c1, st1)" and
    2: "(if canRead ev then onReadable q opt now (reads ev) c1 st1 else Some (c1, st1)) = Some (c2, st')" and
    3: "(if cstate c2 \<noteq> kDead \<and> cstate c2 \<noteq> kConnecting \<and> canWrite ev \<and> outBytes c2 \<noteq> [] then resumeWrite c2 else Some c2) = Some c'"
    using assms False unfolding onEvent_def Let_def by (auto split: option.splits if_splits)
  have "accounts (bSer q) (c, st) (c1, st1)"
    using 1 onConnect_accounts accounts_refl by (auto split: if_splits)
  moreover have "accounts (bSer q) (c1, st1) (c2, st')"
    using 2 onReadable_accounts accounts_refl by (auto split: if_splits)
  moreover have "accounts (bSer q) (c2, st') (c', st')"
    using 3 resumeWrite_accounts accounts_refl by (auto split: if_splits)
  ultimately have "accounts (bSer q) (c, st) (c', st')"
    using accounts_trans by blast
  then show ?thesis
    using False by (auto intro: turn_ok_accounts)
qed

lemma sendInput_accounts:
  assumes "sendInput q now c st = Some (c', st')"
  shows "accounts (bSer q) (c, st) (c', st')"
proof -
  let ?c = "c\<lparr> nextInputMs := now + 100, cSeq := u32 (cSeq c + 1) \<rparr>"
  obtain m c1 where s: "sendMsg (bSer q) m ?c st = Some (c1, st')"
    and c': "c' = (if pendingSeq c1 = 0 then c1\<lparr> pendingSeq := cSeq c1, pendingSentMs := now \<rparr> else c1)"
    using assms unfolding sendInput_def Let_def by (auto split: option.splits)
  have "accounts (bSer q) (c, st) (?c, st)"
    by (rule accounts_fields) (simp_all add: pendingConn_def)
  moreover have "accounts (bSer q) (c1, st') (c', st')"
    unfolding c' by (rule accounts_fields) (simp_all add: pendingConn_def)
  ultimately show ?thesis
    using sendMsg_accounts [OF s] accounts_trans by blast
qed

lemma onClock_turn:
  assumes "onClock q now c st = Some (c', st')"
  shows "turn_ok (bSer q) c st c' st'"
proof (cases "cstate c = kDead \<or> cstate c = kConnecting \<or> cstate c = kWaitLogin")
  case True
  then show ?thesis
    using assms turn_ok_refl by (auto simp: onClock_def)
next
  case False
  let ?hb = "c\<lparr> nextHbMs := now + 2000 \<rparr>"
  obtain c1 st1 where
    1: "(if nextHbMs c \<le> now then sendMsg (bSer q) (CHeartbeat (int now)) ?hb st else Some (c, st)) = Some (c1, st1)" and
    2: "(if cstate c1 = kBattle \<and> nextInputMs c1 \<le> now then sendInput q now c1 st1 else Some (c1, st1)) = Some (c', st')"
    using assms False unfolding onClock_def by (auto split: option.splits if_splits)
  have "accounts (bSer q) (c, st) (?hb, st)"
    by (rule accounts_fields) (simp_all add: pendingConn_def)
  then have "accounts (bSer q) (c, st) (c1, st1)"
    using 1 sendMsg_accounts [of "bSer q" "CHeartbeat (int now)" ?hb st c1 st1] accounts_refl [of "bSer q" "(c, st)"]
    by (cases "nextHbMs c \<le> now") (auto elim: accounts_trans)
  moreover have "accounts (bSer q) (c1, st1) (c', st')"
    using 2 sendInput_accounts accounts_refl by (auto split: if_splits)
  ultimately show ?thesis
    using False accounts_trans by (blast intro: turn_ok_accounts)
qed

subsection \<open>A worker's run\<close>

definition worker_inv :: "(client_msg \<Rightarrow> byte list) \<Rightarrow> nat \<Rightarrow> Worker \<Rightarrow> bool" where
  "worker_inv ser n w \<longleftrightarrow> length (wconns w) = n \<and> (\<forall>c \<in> set (wconns w). streamed ser c) \<and>
     established (wstats w) + failed (wstats w) + sum_list (map pendingConn (wconns w)) \<le> n \<and>
     sentCount (wstats w) \<le> sum_list (map (length \<circ> queued) (wconns w)) \<and>
     failed (wstats w) \<le> sum_list (map deadConn (wconns w)) \<and> deadCount (wstats w) = 0"

lemma sum_list_map_update:
  "i < length xs \<Longrightarrow> sum_list (map f (xs[i := y])) + f (xs ! i) = sum_list (map f xs) + (f y :: nat)"
  by (induction xs arbitrary: i) (auto split: nat.splits)

lemma eventStep_inv:
  assumes "eventStep q opt now accOf x w = Some w'" and "worker_inv (bSer q) n w"
  shows "worker_inv (bSer q) n w'"
proof -
  obtain i ev sg c st where x: "x = (i, ev)" and i: "i < length (wconns w)"
    and e: "onEvent q opt now (accOf i) ev (hbStagger w) (wconns w ! i) (wstats w) = Some (sg, c, st)"
    and w': "w' = \<lparr> wconns = (wconns w)[i := c], wstats = st, hbStagger = sg \<rparr>"
    using assms(1) by (auto simp: eventStep_def split: prod.splits if_splits option.splits)
  note turn = onEvent_turn [OF e, unfolded turn_ok_def]
  have "streamed (bSer q) c' " if "c' \<in> set ((wconns w)[i := c])" for c'
    using that turn assms(2) i unfolding worker_inv_def by (metis in_set_conv_nth length_list_update nth_list_update)
  then show ?thesis
    using assms(2) turn sum_list_map_update [OF i, of pendingConn c] sum_list_map_update [OF i, of deadConn c]
      sum_list_map_update [OF i, of "length \<circ> queued" c]
    by (simp add: worker_inv_def w')
qed

lemma clockConns_turn:
  "clockConns q now cs st = Some (cs', st') \<Longrightarrow>
   length cs' = length cs \<and> ((\<forall>c \<in> set cs. streamed (bSer q) c) \<longrightarrow> (\<forall>c \<in> set cs'. streamed (bSer q) c)) \<and>
   established st' + failed st' + sum_list (map pendingConn cs') \<le> established st + failed st + sum_list (map pendingConn cs) \<and>
   sentCount st' + sum_list (map (length \<circ> queued) cs) \<le> sentCount st + sum_list (map (length \<circ> queued) cs') \<and>
   failed st' + sum_list (map deadConn cs) \<le> failed st + sum_list (map deadConn cs') \<and> deadCount st' = deadCount st"
proof (induction cs arbitrary: st cs')
  case (Cons c cs)
  then obtain c1 st1 cs1 where 1: "onClock q now c st = Some (c1, st1)" and 2: "clockConns q now cs st1 = Some (cs1, st')"
    and cs': "cs' = c1 # cs1"
    by (auto split: option.splits)
  show ?case
    using onClock_turn [OF 1] Cons.IH [OF 2] unfolding cs' by (auto simp: turn_ok_def)
qed simp

lemma workerRound_inv:
  assumes "workerRound q opt accOf x w = Some w'" and "worker_inv (bSer q) n w"
  shows "worker_inv (bSer q) n w'"
proof -
  obtain now evs where x: "x = (now, evs)"
    by (cases x)
  have events: "eventRound q opt now accOf evs v = Some v' \<Longrightarrow> worker_inv (bSer q) n v \<Longrightarrow> worker_inv (bSer q) n v'" for v v'
  proof (induction evs arbitrary: v)
    case (Cons e evs)
    then show ?case
      using eventStep_inv by (auto split: option.splits)
  qed simp
  obtain v cs st where "eventRound q opt now accOf evs w = Some v" "clockConns q now (wconns v) (wstats v) = Some (cs, st)"
    "w' = v\<lparr> wconns := cs, wstats := st \<rparr>"
    using assms(1) unfolding x workerRound_def by (auto split: option.splits)
  then show ?thesis
    using events [OF _ assms(2)] clockConns_turn [of q now "wconns v" "wstats v" cs st] by (simp add: worker_inv_def)
qed

lemma startConn_counts:
  "startConn f r as st = (c, st') \<Longrightarrow> streamed ser c \<and> queued c = [] \<and> failed st' + pendingConn c = failed st + 1 \<and>
   failed st' = failed st + deadConn c \<and>
   (established st', deadCount st', sentCount st') = (established st, deadCount st, sentCount st)"
  by (auto simp: startConn_def newConn_def streamed_def pendingConn_def deadConn_def split: if_splits)

lemma startAll_counts:
  "startAll xs st = (cs, st') \<Longrightarrow>
   length cs = length xs \<and> (\<forall>c \<in> set cs. streamed ser c \<and> queued c = []) \<and>
   failed st' + sum_list (map pendingConn cs) = failed st + length xs \<and>
   failed st' = failed st + sum_list (map deadConn cs) \<and>
   (established st', deadCount st', sentCount st') = (established st, deadCount st, sentCount st)"
proof (induction xs arbitrary: st cs)
  case (Cons x xs)
  obtain f r as where x: "x = (f, r, as)"
    by (cases x)
  obtain c st1 cs1 where "startConn f r as st = (c, st1)" "startAll xs st1 = (cs1, st')" "cs = c # cs1"
    using Cons.prems unfolding x by (auto split: prod.splits)
  then show ?case
    using Cons.IH [of st1 cs1] startConn_counts [of f r as st c st1 ser] by auto
qed simp

lemma startWorker_inv: "worker_inv ser (length xs) (startWorker xs)"
proof -
  obtain cs st where s: "startAll xs newStats = (cs, st)"
    by fastforce
  have "sum_list (map (length \<circ> queued) cs) = 0"
    using startAll_counts [OF s] by simp
  moreover have "startWorker xs = \<lparr> wconns = cs, wstats = st, hbStagger = 0 \<rparr>"
    by (simp add: startWorker_def s)
  moreover have "established newStats = 0" "failed newStats = 0" "deadCount newStats = 0" "sentCount newStats = 0"
    by (simp_all add: newStats_def)
  ultimately show ?thesis
    using startAll_counts [OF s, of ser] by (simp add: worker_inv_def)
qed

lemma deadConn_sum: "sum_list (map deadConn cs) = length (filter (\<lambda>c. cstate c = kDead) cs)"
  by (induction cs) (auto simp: deadConn_def)

lemma worker_run_inv:
  assumes "workerRun q opt accOf rounds (startWorker xs) = Some w"
  shows "worker_inv (bSer q) (length xs) w"
proof -
  have "workerRun q opt accOf rounds v = Some w \<Longrightarrow> worker_inv (bSer q) n v \<Longrightarrow> worker_inv (bSer q) n w" for v n
    by (induction rounds arbitrary: v) (auto split: option.splits intro: workerRound_inv)
  from this [OF assms startWorker_inv] show ?thesis .
qed

lemma worker_counts:
  assumes "workerRun q opt accOf rounds (startWorker xs) = Some w"
  shows "established (countDead w) + failed (countDead w) \<le> length xs"
  using worker_run_inv [OF assms] by (auto simp: worker_inv_def countDead_def)

text \<open>
  The figures of the load generator add up and its streams are whole. Whatever the sockets answer, after
  any number of rounds of a worker what the kernel took from a connection followed by what is still
  unsent is the frames of the messages it sent, in order; the established and the failed connections are at most
  the worker's connections; the failed ones are among the dead; and no more messages are counted as sent than were
  queued.
\<close>

theorem bench_summary_consistent:
  assumes "workerRun q opt accOf rounds (startWorker xs) = Some w"
  shows "(\<forall>c \<in> set (wconns w). wire c @ outBytes c = concat (map (\<lambda>m. encode (bSer q) (msgId_value (msg_id m)) m) (queued c))) \<and>
    established (countDead w) + failed (countDead w) \<le> length xs \<and>
    failed (countDead w) \<le> deadCount (countDead w) \<and> deadCount (countDead w) \<le> length xs \<and>
    sentCount (countDead w) \<le> sum_list (map (\<lambda>c. length (queued c)) (wconns w))"
proof -
  from worker_run_inv [OF assms] show ?thesis
    using length_filter_le [of "\<lambda>c. cstate c = kDead" "wconns w"]
    by (auto simp: worker_inv_def countDead_def streamed_def deadConn_sum comp_def)
qed

definition demo_bench :: BenchParsers where
  "demo_bench = \<lparr> bLoginResp = (\<lambda>bs. if bs = [5] then Some \<lparr> lr_code = 0, lr_player_id = 5, lr_session_token = ''t'' \<rparr> else None),
     bHeartbeat = (\<lambda>_. None), bStateSnapshot = (\<lambda>_. None), bSer = demo_ser \<rparr>"

definition demo_opt :: Options where
  "demo_opt = \<lparr> optConns = 2, optThreads = 1, battle = True \<rparr>"

definition demo_xs :: "(int \<times> bool \<times> send_result list) list" where
  "demo_xs = [(7, False, [Sent 3, SendFail EAGAIN, Sent 5]), (8, True, [])]"

definition demo_rounds :: "(nat \<times> (nat \<times> EpollEvent) list) list" where
  "demo_rounds = [(10, [(0, \<lparr> canWrite = True, canRead = False, soError = False, reads = [] \<rparr>)]),
                  (20, [(0, \<lparr> canWrite = True, canRead = False, soError = False, reads = [] \<rparr>)])]"

lemma demo_run:
  "map_option (\<lambda>w. (map wire (wconns w), established (wstats w))) (workerRun demo_bench demo_opt (\<lambda>_. ''ab'') demo_rounds (startWorker demo_xs))
   = Some ([[0, 0, 0, 4, 0, 3, 97, 98], []], 1)"
  by (simp add: demo_rounds_def demo_xs_def demo_opt_def demo_bench_def startWorker_def startConn_def newStats_def newConn_def
    workerRound_def eventStep_def onEvent_def onConnect_def sendMsg_def send_loop.simps encode_def htonl_bytes_def htons_bytes_def
    codec_consts u32_def u16_def byte_of_def onClock_def resumeWrite_def)

theorem bench_summary_consistent_witness:
  "\<exists>w. workerRun demo_bench demo_opt (\<lambda>_. ''ab'') demo_rounds (startWorker demo_xs) = Some w \<and>
     map wire (wconns w) = [[0, 0, 0, 4, 0, 3, 97, 98], []] \<and> established (countDead w) = 1 \<and> failed (countDead w) \<le> 1"
proof -
  obtain w where w: "workerRun demo_bench demo_opt (\<lambda>_. ''ab'') demo_rounds (startWorker demo_xs) = Some w"
    and "map wire (wconns w) = [[0, 0, 0, 4, 0, 3, 97, 98], []]" "established (wstats w) = 1"
    using demo_run by (auto simp: map_option_eq_Some)
  then show ?thesis
    using bench_summary_consistent [OF w] by (auto simp: countDead_def demo_xs_def)
qed

text \<open>Every connection asked for belongs to one worker.\<close>

lemma sum_first_larger: "r \<le> n \<Longrightarrow> (\<Sum>t<n. k + (if t < r then 1 else 0)) = k * n + (r :: nat)"
proof (induction n)
  case (Suc n)
  then show ?case
    by (cases "r = Suc n") (auto simp: sum.distrib)
qed simp

lemma connections_shared_out:
  "0 < optThreads opt \<Longrightarrow> (\<Sum>tid<optThreads opt. myConns opt tid) = optConns opt"
  unfolding myConns_def using sum_first_larger [of "optConns opt mod optThreads opt" "optThreads opt" "optConns opt div optThreads opt"]
  by (simp add: less_imp_le)

text \<open>A connection whose send failed while it asked for a match is not dead for the rest of the program:
  \<open>handleFrame\<close> overwrites the state that \<open>sendMsg\<close> has set.\<close>

lemma broken_send_revived:
  assumes "bLoginResp q body = Some r" "lr_code r = 0" "battle opt" "answers c = SendFail e # as" "e \<noteq> EAGAIN"
  shows "\<exists>c'. handleFrame q opt now (msgId_value kLoginResp, body) c st = Some (c', st) \<and> cstate c' = kMatching \<and> outBytes c' \<noteq> []
    \<and> (\<exists>c''. sendMsg (bSer q) (CMatch (lr_player_id r)) (c\<lparr> cPlayerId := lr_player_id r \<rparr>) st = Some (c'', st) \<and> cstate c'' = kDead)"
  using assms by (simp add: handleFrame_def sendMsg_def Let_def send_loop.simps encode_def htonl_bytes_def)

end
