(* ===== verification/Programs.thy ===== *)
theory Programs
  imports EventLoop Decimal Sockets
begin

text \<open>
  The programs of \<^verbatim>\<open>src/examples\<close>: the command lines of the servers and of the bot, and the life of the game
  server's main thread (\<^verbatim>\<open>game_server.cc\<close>) with the signals that end it. A signal is taken by the main thread or
  by another one; one without a handler ends the process. \<open>inWait\<close> tells a main thread inside \<^verbatim>\<open>epoll_wait\<close>,
  which a signal interrupts, from one that is about to enter it.
\<close>

subsection \<open>Command lines\<close>

text \<open>The cast of an \<^verbatim>\<open>int\<close> to \<^verbatim>\<open>uint16_t\<close>.\<close>

definition to_uint16 :: "int \<Rightarrow> nat" where
  "to_uint16 i = nat (i mod 2 ^ 16)"

record GameArgs =
  portArg :: nat
  ioArg :: int
  gameArg :: int

definition gameArgs :: "string list \<Rightarrow> GameArgs" where
  "gameArgs argv = \<lparr>
     portArg = (if 1 < length argv then to_uint16 (atoi (argv ! 1)) else 9100),
     ioArg = (if 2 < length argv then atoi (argv ! 2) else 2),
     gameArg = (if 3 < length argv then atoi (argv ! 3) else 2) \<rparr>"

definition echoArgs :: "string list \<Rightarrow> nat \<times> int" where
  "echoArgs argv =
     (if 1 < length argv then to_uint16 (atoi (argv ! 1)) else 9000,
      if 2 < length argv then atoi (argv ! 2) else 4)"

text \<open>The bot's port, account and the time after which it drops its connection, -1 for never; None is the usage
  message and exit code 1. \<^verbatim>\<open>atoll\<close> reads like \<^verbatim>\<open>atoi\<close>.\<close>

definition botArgs :: "string list \<Rightarrow> (nat \<times> string \<times> int) option" where
  "botArgs argv =
     (if length argv < 3 then None
      else Some (to_uint16 (atoi (argv ! 1)), argv ! 2,
        if 5 \<le> length argv \<and> argv ! 3 = ''--drop-after-ms'' then atoi (argv ! 4) else - 1))"

text \<open>\<open>connectTo\<close> of the bot, with the answers of \<^verbatim>\<open>socket\<close> and \<^verbatim>\<open>connect\<close>: the descriptor and the address it asked for;
  None is exit code 1.\<close>

definition connectTo :: "int \<Rightarrow> bool \<Rightarrow> nat \<Rightarrow> (int \<times> sockaddr_in) option" where
  "connectTo sock ok port = (if 0 \<le> sock \<and> ok then Some (sock, newInetAddress port ''127.0.0.1'') else None)"

lemma connectTo_local: "connectTo sock ok port = Some (f, a) \<Longrightarrow> toIpPort a = ''127.0.0.1:'' @ dec (u16 port)"
proof -
  assume "connectTo sock ok port = Some (f, a)"
  then have a: "a = newInetAddress port ''127.0.0.1''"
    by (simp add: connectTo_def split: if_splits)
  have d: "dec 0 = ''0''" "dec 1 = ''1''" "dec 127 = ''127''"
    by (simp_all add: dec.simps digit_def)
  have "dotted [127, 0, 0, 1] = ''127.0.0.1''"
    using d by simp
  then have "\<exists>b. length b = 4 \<and> ''127.0.0.1'' = dotted b"
    by (intro exI [of _ "[127, 0, 0, 1]"]) (simp only: list.size, simp)
  then show ?thesis
    unfolding a address_text_eq by simp
qed

text \<open>The threads a pool starts for a count given as an \<^verbatim>\<open>int\<close>.\<close>

definition threads_started :: "(nat \<Rightarrow> nat) \<Rightarrow> int \<Rightarrow> EventLoopThreadPool \<Rightarrow> EventLoopThreadPool" where
  "threads_started new n p = pool_start new (nat n) p"

lemma gameArgs_typed:
  assumes "port < 2 ^ 16"
  shows "gameArgs [prog, dec port, decInt io, decInt game] = \<lparr> portArg = port, ioArg = io, gameArg = game \<rparr>"
  using assms by (simp add: gameArgs_def to_uint16_def atoi_dec atoi_decInt)

lemma negative_threads: "n \<le> 0 \<Longrightarrow> fst (getNextLoop (threads_started new n (newPool base))) = base"
  by (simp add: threads_started_def getNextLoop_def newPool_def)

subsection \<open>The main thread of the game server\<close>

datatype signal = SIGINT | SIGTERM

datatype main_pc = MConstruct | MSetLoop | MArmInt | MArmTerm | MBanner | MLoop | MDestroy | MKilled

record 'f GameMain =
  mainPc :: main_pc
  gLoop :: bool
  handled :: "signal set"
  inWait :: bool
  mainLoop :: "'f EventLoop"

definition newGameMain :: "'f GameMain" where
  "newGameMain = \<lparr> mainPc = MConstruct, gLoop = False, handled = {}, inWait = False, mainLoop = newEventLoop \<rparr>"

text \<open>\<open>handleSignal\<close>, and the delivery of a signal: without a handler the process ends; a main thread
  inside \<^verbatim>\<open>epoll_wait\<close> comes back from it with \<^verbatim>\<open>EINTR\<close> and no active channels.\<close>

definition handleSignal :: "bool \<Rightarrow> 'f GameMain \<Rightarrow> 'f GameMain" where
  "handleSignal inMain g = (if gLoop g then g\<lparr> mainLoop := quit inMain (mainLoop g) \<rparr> else g)"

definition interrupt :: "'f GameMain \<Rightarrow> 'f GameMain" where
  "interrupt g = g\<lparr> inWait := False, mainLoop := (mainLoop g)\<lparr> wakeActive := False, loopPc := Dispatching \<rparr> \<rparr>"

definition deliver :: "signal \<Rightarrow> bool \<Rightarrow> 'f GameMain \<Rightarrow> 'f GameMain" where
  "deliver s inMain g =
     (if s \<notin> handled g then g\<lparr> mainPc := MKilled \<rparr>
      else let g = handleSignal inMain g in if inMain \<and> inWait g then interrupt g else g)"

inductive main_thread :: "'f GameMain \<Rightarrow> 'f GameMain \<Rightarrow> bool" where
  mt_construct: "mainPc g = MConstruct \<Longrightarrow> main_thread g (g\<lparr> mainPc := MSetLoop \<rparr>)"
| mt_set: "mainPc g = MSetLoop \<Longrightarrow> main_thread g (g\<lparr> gLoop := True, mainPc := MArmInt \<rparr>)"
| mt_int: "mainPc g = MArmInt \<Longrightarrow> main_thread g (g\<lparr> handled := insert SIGINT (handled g), mainPc := MArmTerm \<rparr>)"
| mt_term: "mainPc g = MArmTerm \<Longrightarrow> main_thread g (g\<lparr> handled := insert SIGTERM (handled g), mainPc := MBanner \<rparr>)"
| mt_banner: "mainPc g = MBanner \<Longrightarrow> main_thread g (g\<lparr> mainPc := MLoop \<rparr>)"
| mt_loop: "mainPc g = MLoop \<Longrightarrow> loopPc (mainLoop g) \<noteq> Polling \<Longrightarrow> loop_thread (mainLoop g) l \<Longrightarrow>
    main_thread g (g\<lparr> mainLoop := l \<rparr>)"
| mt_wait: "mainPc g = MLoop \<Longrightarrow> loopPc (mainLoop g) = Polling \<Longrightarrow> \<not> inWait g \<Longrightarrow> main_thread g (g\<lparr> inWait := True \<rparr>)"
| mt_return: "mainPc g = MLoop \<Longrightarrow> loopPc (mainLoop g) = Polling \<Longrightarrow> inWait g \<Longrightarrow>
    main_thread g (g\<lparr> inWait := False, mainLoop := poll_return (mainLoop g) \<rparr>)"
| mt_exit: "mainPc g = MLoop \<Longrightarrow> loopPc (mainLoop g) = Stopped \<Longrightarrow> main_thread g (g\<lparr> mainPc := MDestroy \<rparr>)"

inductive other_thread :: "'f GameMain \<Rightarrow> 'f GameMain \<Rightarrow> bool" where
  ot_push: "mainPc g \<noteq> MKilled \<Longrightarrow> other_thread g (g\<lparr> mainLoop := queue_push f (mainLoop g) \<rparr>)"
| ot_wakeup: "mainPc g \<noteq> MKilled \<Longrightarrow> 0 < owing (mainLoop g) \<Longrightarrow> other_thread g (g\<lparr> mainLoop := wakeup (mainLoop g) \<rparr>)"

inductive unsignalled :: "'f GameMain \<Rightarrow> 'f GameMain \<Rightarrow> bool" where
  us_main: "main_thread g h \<Longrightarrow> unsignalled g h"
| us_other: "other_thread g h \<Longrightarrow> unsignalled g h"

inductive gm_step :: "'f GameMain \<Rightarrow> 'f GameMain \<Rightarrow> bool" where
  gm_run: "unsignalled g h \<Longrightarrow> gm_step g h"
| gm_signal: "mainPc g \<noteq> MKilled \<Longrightarrow> gm_step g (deliver s inMain g)"

inductive_cases main_threadE: "main_thread g h"
inductive_cases other_threadE: "other_thread g h"
inductive_cases unsignalledE: "unsignalled g h"
inductive_cases gm_stepE: "gm_step g h"

interpretation gm_ts: transition_system "\<lambda>g. g = newGameMain" gm_step .

definition gm_inv :: "'f GameMain \<Rightarrow> bool" where
  "gm_inv g \<longleftrightarrow>
     (mainPc g \<in> {MBanner, MLoop, MDestroy} \<longrightarrow> SIGTERM \<in> handled g) \<and>
     (mainPc g \<in> {MArmTerm, MBanner, MLoop, MDestroy} \<longrightarrow> SIGINT \<in> handled g) \<and>
     (mainPc g \<in> {MArmInt, MArmTerm, MBanner, MLoop, MDestroy} \<longrightarrow> gLoop g) \<and>
     (mainPc g \<in> {MConstruct, MSetLoop, MArmInt, MArmTerm, MBanner} \<longrightarrow> loopPc (mainLoop g) = NotStarted) \<and>
     (inWait g \<longrightarrow> loopPc (mainLoop g) = Polling)"

lemma gm_invD:
  assumes "gm_inv g"
  shows "mainPc g \<in> {MBanner, MLoop, MDestroy} \<Longrightarrow> s \<in> handled g" "mainPc g \<in> {MBanner, MLoop, MDestroy} \<Longrightarrow> gLoop g"
    "mainPc g = MBanner \<Longrightarrow> loopPc (mainLoop g) = NotStarted" "inWait g \<Longrightarrow> loopPc (mainLoop g) = Polling"
  using assms by (cases s; simp add: gm_inv_def; blast)+

lemma gm_inv_main: "gm_inv g \<Longrightarrow> main_thread g h \<Longrightarrow> gm_inv h"
  by (erule main_threadE) (auto simp: gm_inv_def)

lemma gm_inv_other: "gm_inv g \<Longrightarrow> other_thread g h \<Longrightarrow> gm_inv h"
  by (erule other_threadE) (simp_all add: gm_inv_def queue_push_def wakeup_def)

lemma deliver_fields [simp]:
  "handled (deliver s m g) = handled g" "gLoop (deliver s m g) = gLoop g"
  "mainPc (deliver s m g) = (if s \<in> handled g then mainPc g else MKilled)"
  "inWait (deliver s m g) = (inWait g \<and> \<not> (s \<in> handled g \<and> m))"
  "loopPc (mainLoop (deliver s m g)) = (if s \<in> handled g \<and> m \<and> inWait g then Dispatching else loopPc (mainLoop g))"
  "quitFlag (mainLoop (deliver s m g)) = (quitFlag (mainLoop g) \<or> s \<in> handled g \<and> gLoop g)"
  "functors (mainLoop (deliver s m g)) = functors (mainLoop g)"
  by (auto simp: deliver_def handleSignal_def interrupt_def quit_def Let_def)

lemma gm_inv_deliver:
  assumes "gm_inv g"
  shows "gm_inv (deliver s m g)"
proof (cases "s \<in> handled g \<and> m \<and> inWait g")
  case True
  then have "loopPc (mainLoop g) = Polling"
    using assms by (simp add: gm_inv_def)
  then show ?thesis
    using assms True by (simp add: gm_inv_def)
next
  case False
  then have "loopPc (mainLoop (deliver s m g)) = loopPc (mainLoop g)" "inWait (deliver s m g) = inWait g"
    by auto
  then show ?thesis
    using assms unfolding gm_inv_def by (cases "s \<in> handled g") (simp_all del: deliver_fields(4,5))
qed

lemma gm_step_cases:
  assumes "gm_step g h"
  obtains (main) "main_thread g h" | (other) "other_thread g h" | (sig) s inMain where "h = deliver s inMain g"
  using assms by (elim gm_stepE unsignalledE) auto

lemma gm_reach_inv: "gm_ts.reach g \<Longrightarrow> gm_inv g"
proof (rule gm_ts.reach_invariant [of gm_inv])
  show "gm_inv h" if "gm_inv g" "gm_step g h" for g h :: "'a GameMain"
    using that(2)
  proof (cases rule: gm_step_cases)
    case main
    then show ?thesis
      by (rule gm_inv_main [OF that(1)])
  next
    case other
    then show ?thesis
      by (rule gm_inv_other [OF that(1)])
  next
    case sig
    then show ?thesis
      using gm_inv_deliver [OF that(1)] by simp
  qed
qed (simp_all add: newGameMain_def newEventLoop_def gm_inv_def)

subsection \<open>A signal that meets the loop\<close>

definition stopping :: "'f GameMain \<Rightarrow> bool" where
  "stopping g \<longleftrightarrow> gm_inv g \<and> (mainPc g = MDestroy \<or> mainPc g = MLoop \<and> quitFlag (mainLoop g) \<and> loopPc (mainLoop g) \<noteq> NotStarted)"

text \<open>How far the main thread is from its destructors once it has been told to quit, and how much of the
  batch it is running is left.\<close>

definition stop_rank :: "'f GameMain \<Rightarrow> nat \<times> nat" where
  "stop_rank g = (if mainPc g = MDestroy then (0, 0) else
     (case loopPc (mainLoop g) of
        NotStarted \<Rightarrow> 8 | Polling \<Rightarrow> (if inWait g then 6 else 7) | Dispatching \<Rightarrow> 5 | Swapping \<Rightarrow> 4
      | RunningBatch \<Rightarrow> 3 | Test \<Rightarrow> 2 | Stopped \<Rightarrow> 1, length (functors (mainLoop g))))"

definition closer :: "'f GameMain \<Rightarrow> 'f GameMain \<Rightarrow> bool" where
  "closer h g \<longleftrightarrow> (stop_rank h, stop_rank g) \<in> less_than <*lex*> less_than"

lemma closer_wf: "wfP (closer :: 'f GameMain \<Rightarrow> 'f GameMain \<Rightarrow> bool)"
proof -
  have "wf (inv_image (less_than <*lex*> less_than) (stop_rank :: 'f GameMain \<Rightarrow> nat \<times> nat))"
    by (intro wf_inv_image wf_lex_prod) simp_all
  then show ?thesis
    by (simp add: wfp_def closer_def inv_image_def)
qed

lemma stopping_main:
  assumes "stopping g" "main_thread g h"
  shows "stopping h \<and> closer h g"
proof -
  have inv: "gm_inv h"
    using assms gm_inv_main by (auto simp: stopping_def)
  show ?thesis
    using assms(2,1) inv
    by (elim main_threadE loop_threadE) (auto simp: stopping_def closer_def stop_rank_def loop_ops split: list.splits)
qed

lemma stopping_other:
  assumes "stopping g" "other_thread g h"
  shows "stopping h \<and> stop_rank h = stop_rank g"
  using assms(2,1) gm_inv_other [OF _ assms(2)]
  by (elim other_threadE) (auto simp: stopping_def stop_rank_def queue_push_def wakeup_def)

lemma stopping_deliver:
  assumes "stopping g"
  shows "stopping (deliver s inMain g) \<and> (stop_rank (deliver s inMain g) = stop_rank g \<or> closer (deliver s inMain g) g)"
proof -
  have inv: "gm_inv g"
    using assms by (simp add: stopping_def)
  then have sg: "s \<in> handled g" "gLoop g"
    using assms gm_invD(1,2) [of g] by (auto simp: stopping_def)
  have inv': "gm_inv (deliver s inMain g)"
    using gm_inv_deliver [OF inv] .
  show ?thesis
  proof (cases "inMain \<and> inWait g")
    case True
    then have "loopPc (mainLoop g) = Polling"
      using inv by (simp add: gm_inv_def)
    then show ?thesis
      using assms inv' sg True by (auto simp: stopping_def closer_def stop_rank_def)
  next
    case False
    then show ?thesis
      using assms inv' sg by (auto simp: stopping_def stop_rank_def)
  qed
qed

lemma stopping_step: "stopping g \<Longrightarrow> gm_step g h \<Longrightarrow> stopping h"
  by (erule gm_step_cases) (use stopping_main stopping_other stopping_deliver in \<open>blast+\<close>)

lemma main_enabled: "mainPc g = MLoop \<Longrightarrow> \<exists>h. main_thread g h"
proof -
  assume m: "mainPc g = MLoop"
  show ?thesis
  proof (cases "loopPc (mainLoop g)")
    case Polling
    then show ?thesis
      using mt_wait [OF m] mt_return [OF m] by blast
  next
    case Stopped
    then show ?thesis
      using mt_exit [OF m] by blast
  qed (use mt_loop [OF m] loop_thread.intros in \<open>fastforce+\<close>)
qed

text \<open>
  C20. A signal taken while the loop runs ends the server. Whichever thread takes \<^verbatim>\<open>SIGINT\<close> or \<^verbatim>\<open>SIGTERM\<close> once the
  main thread is inside \<open>loop\<close>, the process is not killed, the request is never taken back whatever other
  threads and further signals do, the main thread always has a next step until it reaches the
  destructors, every step of it brings it closer to them in a well-founded order, and no other step takes it away.
\<close>

theorem signal_ends_server:
  assumes reach: "gm_ts.reach g" and inside: "mainPc g = MLoop" "loopPc (mainLoop g) \<noteq> NotStarted"
    and run: "gm_step\<^sup>*\<^sup>* (deliver s inMain g) h"
  shows "(mainPc h = MDestroy \<or> mainPc h = MLoop \<and> quitFlag (mainLoop h) \<and> (\<exists>h'. main_thread h h')) \<and>
    (\<forall>h'. main_thread h h' \<longrightarrow> (stop_rank h', stop_rank h) \<in> less_than <*lex*> less_than) \<and>
    (\<forall>h'. gm_step h h' \<longrightarrow> stop_rank h' = stop_rank h \<or> (stop_rank h', stop_rank h) \<in> less_than <*lex*> less_than)"
proof -
  have inv: "gm_inv g"
    using gm_reach_inv [OF reach] .
  then have "s \<in> handled g" "gLoop g"
    using inside(1) gm_invD(1,2) [of g] by simp_all
  then have st: "stopping (deliver s inMain g)"
    using gm_inv_deliver [OF inv, of s inMain] inside by (simp add: stopping_def)
  have h: "stopping h"
    by (rule gm_ts.stable_along [of stopping, OF stopping_step st run])
  have "stop_rank h' = stop_rank h \<or> closer h' h" if "gm_step h h'" for h'
    using that
  proof (cases rule: gm_step_cases)
    case main
    then show ?thesis
      using stopping_main [OF h] by blast
  next
    case other
    then show ?thesis
      using stopping_other [OF h] by blast
  next
    case sig
    then show ?thesis
      using stopping_deliver [OF h] by blast
  qed
  moreover have "closer h' h" if "main_thread h h'" for h'
    using stopping_main [OF h that] by blast
  moreover have "mainPc h = MDestroy \<or> mainPc h = MLoop \<and> quitFlag (mainLoop h) \<and> (\<exists>h'. main_thread h h')"
    using h main_enabled by (auto simp: stopping_def)
  ultimately show ?thesis
    unfolding closer_def by blast
qed

subsection \<open>Signals that are lost or late\<close>

text \<open>The loop runs and nobody has asked it to stop.\<close>

definition unstopped :: "'f GameMain \<Rightarrow> bool" where
  "unstopped g \<longleftrightarrow> (mainPc g = MBanner \<or> mainPc g = MLoop) \<and>
     (loopPc (mainLoop g) = NotStarted \<or> mainPc g = MLoop \<and> \<not> quitFlag (mainLoop g) \<and> loopPc (mainLoop g) \<noteq> Stopped)"

lemma unstopped_step: "unstopped g \<Longrightarrow> unsignalled g h \<Longrightarrow> unstopped h"
  by (elim unsignalledE main_threadE other_threadE loop_threadE) (auto simp: unstopped_def loop_ops split: list.splits)

interpretation us_ts: transition_system "\<lambda>g. g = newGameMain" unsignalled .

text \<open>
  C38. A signal that comes before the loop is lost. Between the installation of the handlers and the first
  statement of \<open>loop\<close>, which clears the flag that the handler has set, \<^verbatim>\<open>SIGINT\<close> and \<^verbatim>\<open>SIGTERM\<close> are accepted and
  then forgotten: unless another signal comes, no execution whatever reaches the destructors, and the queue of
  database writes is never flushed.
\<close>

theorem early_signal_lost:
  assumes reach: "gm_ts.reach g" and early: "mainPc g = MBanner \<or> mainPc g = MLoop \<and> loopPc (mainLoop g) = NotStarted"
  shows "quitFlag (mainLoop (deliver s inMain g)) \<and> (\<forall>h. unsignalled\<^sup>*\<^sup>* (deliver s inMain g) h \<longrightarrow> mainPc h \<noteq> MDestroy)"
proof -
  have inv: "gm_inv g"
    using gm_reach_inv [OF reach] .
  then have g: "s \<in> handled g" "gLoop g" "loopPc (mainLoop g) = NotStarted" "\<not> inWait g"
    using early gm_invD [of g] by force+
  then have lost: "unstopped (deliver s inMain g)"
    using early by (auto simp: unstopped_def)
  have "mainPc h \<noteq> MDestroy" if "unsignalled\<^sup>*\<^sup>* (deliver s inMain g) h" for h
    using us_ts.stable_along [of unstopped, OF unstopped_step lost that] by (auto simp: unstopped_def)
  moreover have "quitFlag (mainLoop (deliver s inMain g))"
    using g(1,2) by simp
  ultimately show ?thesis
    by blast
qed

text \<open>The server just before its loop, reached by the main thread alone.\<close>

definition banner :: "unit GameMain" where
  "banner = newGameMain\<lparr> mainPc := MBanner, gLoop := True, handled := {SIGTERM, SIGINT} \<rparr>"

lemma main_reach: "gm_ts.reach g \<Longrightarrow> main_thread g h \<Longrightarrow> gm_ts.reach h"
  by (rule gm_ts.reach_step [OF _ gm_run [OF us_main]])

lemma banner_reach: "gm_ts.reach banner"
proof -
  let ?g0 = "newGameMain :: unit GameMain"
  have 1: "gm_ts.reach (?g0\<lparr> mainPc := MSetLoop \<rparr>)"
    by (rule main_reach [OF gm_ts.reach_init [OF refl] mt_construct]) (simp add: newGameMain_def)
  have 2: "gm_ts.reach (?g0\<lparr> mainPc := MArmInt, gLoop := True \<rparr>)"
    using main_reach [OF 1 mt_set] by (simp add: newGameMain_def)
  have 3: "gm_ts.reach (?g0\<lparr> mainPc := MArmTerm, gLoop := True, handled := {SIGINT} \<rparr>)"
    using main_reach [OF 2 mt_int] by (simp add: newGameMain_def)
  show ?thesis
    using main_reach [OF 3 mt_term] by (simp add: newGameMain_def banner_def)
qed

theorem early_signal_lost_witness:
  "quitFlag (mainLoop (deliver SIGTERM True banner)) \<and> \<not> (\<exists>h. unsignalled\<^sup>*\<^sup>* (deliver SIGTERM True banner) h \<and> mainPc h = MDestroy)"
  using early_signal_lost [OF banner_reach, of SIGTERM True] by (auto simp: banner_def simp del: deliver_fields)

text \<open>The server inside its loop, about to wait for events.\<close>

definition pollingMain :: "unit GameMain" where
  "pollingMain = banner\<lparr> mainPc := MLoop, mainLoop := loop_test (loop_enter newEventLoop) \<rparr>"

lemma polling_reach: "gm_ts.reach pollingMain"
proof -
  have 1: "gm_ts.reach (banner\<lparr> mainPc := MLoop \<rparr>)"
    by (rule main_reach [OF banner_reach mt_banner]) (simp add: banner_def)
  have "loop_thread newEventLoop (loop_enter newEventLoop :: unit EventLoop)"
    by (rule lt_enter) (simp add: newEventLoop_def)
  then have 2: "gm_ts.reach (banner\<lparr> mainPc := MLoop, mainLoop := loop_enter newEventLoop \<rparr>)"
    using main_reach [OF 1 mt_loop, of "loop_enter newEventLoop"] by (simp add: banner_def newGameMain_def newEventLoop_def)
  have "loop_thread (loop_enter newEventLoop) (loop_test (loop_enter newEventLoop) :: unit EventLoop)"
    by (rule lt_test) (simp add: loop_enter_def)
  then show ?thesis
    using main_reach [OF 2 mt_loop, of "loop_test (loop_enter newEventLoop)"] by (simp add: pollingMain_def loop_enter_def)
qed

theorem signal_ends_server_witness:
  "mainPc (deliver SIGTERM True pollingMain) = MLoop \<and> quitFlag (mainLoop (deliver SIGTERM True pollingMain)) \<and>
   (\<exists>h. main_thread (deliver SIGTERM True pollingMain) h)"
  using signal_ends_server [OF polling_reach _ _ rtranclp.rtrancl_refl, of SIGTERM True]
  by (simp add: pollingMain_def loop_test_def loop_enter_def banner_def newEventLoop_def newGameMain_def)

text \<open>
  A signal that the main thread takes just before \<^verbatim>\<open>epoll_wait\<close> ends the server late: \<open>quit\<close> called on the loop's own
  thread writes no wake-up, so the thread goes to sleep with the flag set, no wake-up pending and none on
  its way, and only the ten second timeout or an unrelated descriptor brings it back.
\<close>

theorem signal_before_poll_sleeps:
  "\<exists>g :: unit GameMain. gm_ts.reach g \<and> mainPc g = MLoop \<and> loopPc (mainLoop g) = Polling \<and> inWait g \<and>
     quitFlag (mainLoop g) \<and> \<not> edge (mainLoop g) \<and> owing (mainLoop g) = 0"
proof (intro exI conjI)
  let ?g = "deliver SIGTERM True pollingMain"
  have f: "mainPc ?g = MLoop" "loopPc (mainLoop ?g) = Polling" "\<not> inWait ?g" "quitFlag (mainLoop ?g)"
      "\<not> edge (mainLoop ?g)" "owing (mainLoop ?g) = 0"
    by (simp_all add: pollingMain_def banner_def newGameMain_def newEventLoop_def loop_test_def loop_enter_def)
      (simp_all add: deliver_def handleSignal_def quit_def)
  have "gm_ts.reach ?g"
    by (rule gm_ts.reach_step [OF polling_reach gm_signal]) (simp add: pollingMain_def)
  then show "gm_ts.reach (?g\<lparr> inWait := True \<rparr>)"
    by (rule main_reach) (rule mt_wait [OF f(1-3)])
  show "mainPc (?g\<lparr> inWait := True \<rparr>) = MLoop" "loopPc (mainLoop (?g\<lparr> inWait := True \<rparr>)) = Polling"
      "inWait (?g\<lparr> inWait := True \<rparr>)" "quitFlag (mainLoop (?g\<lparr> inWait := True \<rparr>))"
      "\<not> edge (mainLoop (?g\<lparr> inWait := True \<rparr>))" "owing (mainLoop (?g\<lparr> inWait := True \<rparr>)) = 0"
    using f by (simp_all del: deliver_fields)
qed

end
