(* ===== verification/BenchMain.thy ===== *)
theory BenchMain
  imports BenchClient Programs Float32 "HOL-Library.Multiset" "HOL-Library.Signed_Division"
begin

text \<open>
  The main program of the load generator (\<^verbatim>\<open>src/examples/bench_client.cc\<close>): its options, the connections each
  worker gets, the merge of the workers' figures under the mutex, and the percentiles of the summary, which are computed in
  \<^verbatim>\<open>double\<close>. An \<^verbatim>\<open>int\<close> divides towards zero. None is the \<^verbatim>\<open>std::length_error\<close> of a vector of negative size,
  which no thread catches.
\<close>

subsection \<open>Options\<close>

record BenchOpts =
  bPort :: nat
  bConns :: int
  bThreads :: int
  bBattle :: bool
  bDuration :: int
  bRampUs :: int

definition defaultOpts :: BenchOpts where
  "defaultOpts = \<lparr> bPort = 9100, bConns = 100, bThreads = 2, bBattle = False, bDuration = 10, bRampUs = 200 \<rparr>"

definition setOption :: "string \<Rightarrow> string \<Rightarrow> BenchOpts \<Rightarrow> BenchOpts" where
  "setOption k v opt =
     (if k = ''--port'' then opt\<lparr> bPort := to_uint16 (atoi v) \<rparr>
      else if k = ''--conns'' then opt\<lparr> bConns := atoi v \<rparr>
      else if k = ''--threads'' then opt\<lparr> bThreads := atoi v \<rparr>
      else if k = ''--mode'' then opt\<lparr> bBattle := (v = ''battle'') \<rparr>
      else if k = ''--duration'' then opt\<lparr> bDuration := atoi v \<rparr>
      else if k = ''--ramp-us'' then opt\<lparr> bRampUs := atoi v \<rparr>
      else opt)"

text \<open>The arguments after the program's name, two at a time; a last one without a value is ignored.\<close>

fun parseOptions :: "string list \<Rightarrow> BenchOpts \<Rightarrow> BenchOpts" where
  "parseOptions (k # v # args) opt = parseOptions args (setOption k v opt)"
| "parseOptions _ opt = opt"

definition workerConns :: "BenchOpts \<Rightarrow> nat \<Rightarrow> nat option" where
  "workerConns opt tid =
     (let n = bConns opt sdiv bThreads opt + (if int tid < bConns opt smod bThreads opt then 1 else 0)
      in if n < 0 then None else Some (nat n))"

text \<open>The account of a worker's connection, by the numbers of both.\<close>

definition benchAccount :: "nat \<Rightarrow> nat \<Rightarrow> string" where
  "benchAccount tid i = ''bench_'' @ dec tid @ ''_'' @ dec i"

subsection \<open>Percentiles\<close>

text \<open>Rounding of a positive value to \<^verbatim>\<open>double\<close>, away from overflow and underflow.\<close>

definition ulp_exp64 :: "rat \<Rightarrow> int" where
  "ulp_exp64 x = (case quotient_of x of (a, b) \<Rightarrow>
     (let k = bitlen a - bitlen b in if x < pow2 k then k - 53 else k - 52))"

definition round64 :: "rat \<Rightarrow> rat" where
  "round64 x = (if x = 0 then 0 else let q = pow2 (ulp_exp64 x) in of_int (rne (x / q)) * q)"

definition pctIndex :: "nat \<Rightarrow> rat \<Rightarrow> nat" where
  "pctIndex n p = nat \<lfloor>round64 (round64 (p / 100) * round64 (of_nat (n - 1)))\<rfloor>"

definition pct :: "nat list \<Rightarrow> rat \<Rightarrow> nat" where
  "pct v p = (if v = [] then 0 else sort v ! pctIndex (length v) p)"

subsection \<open>The summary\<close>

record Percentiles =
  samples :: nat
  p50 :: nat
  p90 :: nat
  p99 :: nat
  pmax :: nat

definition percentiles :: "nat list \<Rightarrow> Percentiles" where
  "percentiles v = \<lparr> samples = length v, p50 = pct v 50, p90 = pct v 90, p99 = pct v 99, pmax = pct v 100 \<rparr>"

text \<open>The figures that \<open>main\<close> prints once every worker has added its own to the total.\<close>

definition benchTotal :: "Stats list \<Rightarrow> Stats" where
  "benchTotal sts = fold (\<lambda>st tot. mergeStats tot st) sts newStats"

definition summary :: "bool \<Rightarrow> Stats \<Rightarrow> (nat \<times> nat \<times> nat \<times> nat \<times> nat) \<times> Percentiles \<times> Percentiles option" where
  "summary mode tot = ((established tot, failed tot, deadCount tot, sentCount tot, recvd tot), percentiles (hbRtt tot),
     if mode then Some (percentiles (inputRtt tot)) else None)"

subsection \<open>Rounding\<close>

lemma rne_int [simp]: "rne (of_int z) = z"
  by (simp add: rne_def)

lemma ulp64_small:
  assumes "0 < x" "x < 2 ^ 53"
  shows "ulp_exp64 x \<le> 0"
proof -
  obtain a b where q: "quotient_of x = (a, b)"
    by fastforce
  have b: "0 < b" and x: "x = of_int a / of_int b"
    using quotient_of_denom_pos [OF q] quotient_of_div [OF q] by simp_all
  then have a: "0 < a"
    using assms(1) by (simp add: zero_less_divide_iff)
  define k where "k = bitlen a - bitlen b"
  have ab: "a < b * 2 ^ 53"
  proof -
    have "of_int a < (of_int (b * 2 ^ 53) :: rat)"
      using assms(2) b by (simp add: x divide_less_eq mult.commute)
    then show ?thesis
      by (simp only: of_int_less_iff)
  qed
  have "k \<le> 53"
  proof (rule ccontr)
    assume "\<not> k \<le> 53"
    then have "nat (bitlen b) + 53 \<le> nat (bitlen a - 1)"
      using bitlen_nonneg [of b] by (simp add: k_def)
    then have "(2 :: int) ^ (nat (bitlen b) + 53) \<le> 2 ^ nat (bitlen a - 1)"
      by (rule power_increasing) simp
    then have "2 ^ nat (bitlen b) * 2 ^ 53 \<le> a"
      using bitlen_bounds [OF a] by (simp add: power_add)
    moreover have "b * 2 ^ 53 \<le> 2 ^ nat (bitlen b) * 2 ^ 53"
      using bitlen_bounds [OF b] by simp
    ultimately show False
      using ab by simp
  qed
  moreover have "k \<noteq> 53" if "\<not> x < pow2 k"
    using that assms(2) by (auto simp: pow2_def)
  ultimately show ?thesis
    by (auto simp: ulp_exp64_def q Let_def k_def)
qed

text \<open>Below \<open>2^53\<close> an integer is a multiple of the last place of every value up to it, so rounding does not
  pass it and leaves it alone.\<close>

lemma integer_multiple: "e \<le> 0 \<Longrightarrow> \<exists>z. of_int y / pow2 e = (of_int z :: rat)"
  by (rule exI [of _ "y * 2 ^ nat (- e)"]) (simp add: pow2_def)

lemma round64_bounds:
  assumes "0 \<le> x" "x \<le> of_int y" "y < 2 ^ 53"
  shows "0 \<le> round64 x" "round64 x \<le> of_int y" "x = of_int y \<Longrightarrow> round64 x = x"
proof -
  define q where "q = pow2 (ulp_exp64 x)"
  have q: "0 < q"
    by (simp add: q_def)
  have r: "x \<noteq> 0 \<Longrightarrow> round64 x = of_int (rne (x / q)) * q"
    by (simp add: round64_def q_def Let_def)
  have "of_int y < (2 ^ 53 :: rat)"
    using assms(3) by (metis of_int_less_iff of_int_numeral of_int_power)
  then have "x \<noteq> 0 \<Longrightarrow> ulp_exp64 x \<le> 0"
    using assms(1,2) ulp64_small by simp
  then obtain z where z: "x \<noteq> 0 \<Longrightarrow> of_int y / q = of_int z"
    using integer_multiple unfolding q_def by metis
  have "rne 0 \<le> rne (x / q)"
    using assms(1) q by (intro rne_mono) simp
  then show "0 \<le> round64 x"
    using r q by (cases "x = 0") (simp_all add: round64_def rne_def)
  have "x \<noteq> 0 \<Longrightarrow> rne (x / q) \<le> z"
    using rne_mono [OF divide_right_mono [OF assms(2) less_imp_le [OF q]]] z by simp
  then have "x \<noteq> 0 \<Longrightarrow> of_int (rne (x / q)) * q \<le> of_int z * q"
    using q by simp
  moreover have zq: "x \<noteq> 0 \<Longrightarrow> of_int z * q = of_int y"
    using z q by (metis nonzero_divide_eq_eq less_irrefl)
  ultimately show "round64 x \<le> of_int y"
    using r assms(1,2) by (cases "x = 0") (simp_all add: round64_def)
  show "round64 x = x" if "x = of_int y"
    using that r z zq by (cases "x = 0") (simp_all add: round64_def)
qed

lemma pctIndex_range:
  assumes "0 \<le> p" "p \<le> 100" "0 < n" "n \<le> 2 ^ 53"
  shows "pctIndex n p < n" "p = 100 \<Longrightarrow> pctIndex n p = n - 1"
proof -
  let ?m = "int (n - 1)"
  have m: "?m < 2 ^ 53"
    using assms(3,4) by simp
  have n1: "round64 (of_nat (n - 1)) = of_int ?m"
    using round64_bounds(3) [of "of_int ?m" ?m] m by simp
  have share: "0 \<le> round64 (p / 100)" "round64 (p / 100) \<le> 1" "p = 100 \<Longrightarrow> round64 (p / 100) = 1"
    using round64_bounds [of "p / 100" 1] assms(1,2) by simp_all
  define x where "x = round64 (p / 100) * of_int ?m"
  have x: "0 \<le> x" "x \<le> of_int ?m"
    using share mult_right_mono [OF share(2), of "of_int ?m"] by (simp_all add: x_def)
  have idx: "pctIndex n p = nat \<lfloor>round64 x\<rfloor>"
    by (simp only: pctIndex_def n1 x_def)
  have "\<lfloor>round64 x\<rfloor> \<le> ?m"
    using round64_bounds(2) [OF x m] by (simp add: floor_le_iff)
  then show "pctIndex n p < n"
    using assms(3) by (simp add: idx)
  show "pctIndex n p = n - 1" if "p = 100"
  proof -
    have "x = of_int ?m"
      using share(3) [OF that] by (simp add: x_def)
    then have "round64 x = of_int ?m"
      using round64_bounds(3) [OF x m] by simp
    then show ?thesis
      by (simp only: idx floor_of_int nat_int)
  qed
qed

lemma pct_sample:
  assumes "v \<noteq> []" "length v \<le> 2 ^ 53" "0 \<le> p" "p \<le> 100"
  shows "pct v p \<in> set v" "pct v 100 = Max (set v)"
proof -
  have "sort v ! pctIndex (length v) r \<in> set (sort v)" if "0 \<le> r" "r \<le> 100" for r
    using pctIndex_range(1) [OF that, of "length v"] assms(1,2) by (intro nth_mem) simp
  from this [OF assms(3,4)] show "pct v p \<in> set v"
    using assms(1) by (simp add: pct_def)
  have "pctIndex (length v) 100 = length (sort v) - 1"
    using pctIndex_range(2) [of 100 "length v"] assms(1,2) by simp
  moreover have ne: "sort v \<noteq> []"
    using assms(1) by (metis length_0_conv length_sort)
  ultimately have last: "pct v 100 = last (sort v)"
    using assms(1) last_conv_nth [OF ne] by (simp add: pct_def)
  have "x \<le> last (sort v)" if "x \<in> set v" for x
  proof -
    have "x \<in> set (sort v)"
      using that by simp
    then obtain i where "i < length (sort v)" "x = sort v ! i"
      by (metis in_set_conv_nth)
    then show ?thesis
      using sorted_nth_mono [OF sorted_sort, of i "length v - 1" v] last_conv_nth [OF ne] by simp
  qed
  moreover have "last (sort v) \<in> set v"
    using last_in_set [OF ne] by simp
  ultimately show "pct v 100 = Max (set v)"
    unfolding last by (intro Max_eqI [symmetric]) simp_all
qed

subsection \<open>The merge\<close>

lemma sort_perm: "mset xs = mset ys \<Longrightarrow> sort xs = sort (ys :: nat list)"
  by (metis properties_for_sort mset_sort sorted_sort)

lemma percentiles_perm: "mset v = mset w \<Longrightarrow> percentiles v = percentiles w"
proof -
  assume m: "mset v = mset w"
  have "length v = length w" "v = [] \<longleftrightarrow> w = []"
    using m by (auto dest: mset_eq_length)
  then show ?thesis
    using sort_perm [OF m] by (simp add: percentiles_def pct_def)
qed

lemma benchTotal_fields:
  "established (benchTotal sts) = sum_list (map established sts)" "failed (benchTotal sts) = sum_list (map failed sts)"
  "deadCount (benchTotal sts) = sum_list (map deadCount sts)" "sentCount (benchTotal sts) = sum_list (map sentCount sts)"
  "recvd (benchTotal sts) = sum_list (map recvd sts)"
  "mset (hbRtt (benchTotal sts)) = \<Sum>\<^sub># (image_mset (mset \<circ> hbRtt) (mset sts))"
  "mset (inputRtt (benchTotal sts)) = \<Sum>\<^sub># (image_mset (mset \<circ> inputRtt) (mset sts))"
proof -
  have *: "established (fold (\<lambda>st tot. mergeStats tot st) sts t) = established t + sum_list (map established sts) \<and>
      failed (fold (\<lambda>st tot. mergeStats tot st) sts t) = failed t + sum_list (map failed sts) \<and>
      deadCount (fold (\<lambda>st tot. mergeStats tot st) sts t) = deadCount t + sum_list (map deadCount sts) \<and>
      sentCount (fold (\<lambda>st tot. mergeStats tot st) sts t) = sentCount t + sum_list (map sentCount sts) \<and>
      recvd (fold (\<lambda>st tot. mergeStats tot st) sts t) = recvd t + sum_list (map recvd sts) \<and>
      mset (hbRtt (fold (\<lambda>st tot. mergeStats tot st) sts t)) = mset (hbRtt t) + \<Sum>\<^sub># (image_mset (mset \<circ> hbRtt) (mset sts)) \<and>
      mset (inputRtt (fold (\<lambda>st tot. mergeStats tot st) sts t)) = mset (inputRtt t) + \<Sum>\<^sub># (image_mset (mset \<circ> inputRtt) (mset sts))" for t
    by (induction sts arbitrary: t) (simp_all add: mergeStats_def)
  show "established (benchTotal sts) = sum_list (map established sts)" "failed (benchTotal sts) = sum_list (map failed sts)"
    "deadCount (benchTotal sts) = sum_list (map deadCount sts)" "sentCount (benchTotal sts) = sum_list (map sentCount sts)"
    "recvd (benchTotal sts) = sum_list (map recvd sts)"
    "mset (hbRtt (benchTotal sts)) = \<Sum>\<^sub># (image_mset (mset \<circ> hbRtt) (mset sts))"
    "mset (inputRtt (benchTotal sts)) = \<Sum>\<^sub># (image_mset (mset \<circ> inputRtt) (mset sts))"
    using * [of newStats] by (simp_all add: benchTotal_def newStats_def)
qed

lemma sum_list_perm: "mset xs = mset ys \<Longrightarrow> sum_list (map f xs) = sum_list (map (f :: _ \<Rightarrow> nat) ys)"
  by (metis mset_map sum_mset_sum_list)

lemma summary_perm: "mset xs = mset ys \<Longrightarrow> summary mode (benchTotal xs) = summary mode (benchTotal ys)"
  using percentiles_perm [of "hbRtt (benchTotal xs)" "hbRtt (benchTotal ys)"]
    percentiles_perm [of "inputRtt (benchTotal xs)" "inputRtt (benchTotal ys)"]
  by (simp add: summary_def benchTotal_fields sum_list_perm [of xs ys])

subsection \<open>The report\<close>

text \<open>With sensible options every worker gets its share of the connections; a negative count kills the program.\<close>

lemma workerConns_share:
  assumes "0 \<le> bConns opt" "0 < bThreads opt" "optConns o' = nat (bConns opt)" "optThreads o' = nat (bThreads opt)"
  shows "workerConns opt tid = Some (myConns o' tid)"
proof -
  obtain c t where c: "bConns opt = int c" "bThreads opt = int t" "0 < t"
    using assms(1,2) by (metis nonneg_int_cases of_nat_0_less_iff order_less_imp_le)
  have q: "bConns opt sdiv bThreads opt = int (c div t)" "bConns opt smod bThreads opt = int (c mod t)"
    using c by (cases "c = 0"; simp add: signed_divide_int_def signed_modulo_int_def sgn_if zdiv_int zmod_int)+
  show ?thesis
    unfolding workerConns_def q using assms(3,4) c(1,2) by (simp add: myConns_def nat_add_distrib Let_def)
qed

lemma accounts_distinct: "benchAccount t i = benchAccount t' i' \<longleftrightarrow> t = t' \<and> i = i'"
proof
  assume eq: "benchAccount t i = benchAccount t' i'"
  have "\<not> isDigit CHR ''_''"
    by (simp add: isDigit_def)
  then have "takeWhile isDigit (dec n @ ''_'' @ xs) = dec n" for n xs
    using takeWhile_digits(1) [OF dec_digits(1)] by simp
  with eq have "dec t = dec t'"
    unfolding benchAccount_def by (metis same_append_eq)
  with eq show "t = t' \<and> i = i'"
    by (simp add: benchAccount_def dec_inject)
qed simp

lemma negative_conns_abort:
  assumes "bConns opt \<le> - bThreads opt" "0 < bThreads opt"
  shows "workerConns opt tid = None"
proof -
  have "1 \<le> \<bar>bConns opt\<bar> div \<bar>bThreads opt\<bar>"
    using assms by (simp add: pos_imp_zdiv_pos_iff int_one_le_iff_zero_less)
  moreover have "bConns opt smod bThreads opt \<le> 0"
    using assms by (simp add: signed_modulo_int_def)
  ultimately show ?thesis
    using assms by (simp add: workerConns_def signed_divide_int_def sgn_if)
qed

text \<open>
  C32. The summary of the load generator does not depend on the order in which its workers finish, and its
  figures are sound: whatever the sockets answered, at most as many connections are reported
  established or failed as were asked for, and of the round trip times reported, with the index computed in
  double precision, the maximum is the largest sample and the percentiles are samples.
\<close>

theorem bench_report_exact:
  assumes opts: "0 \<le> bConns opt" "0 < bThreads opt" and ws: "length ws = nat (bThreads opt)"
    and runs: "\<And>tid. tid < length ws \<Longrightarrow> \<exists>rounds xs. workerConns opt tid = Some (length xs) \<and>
      workerRun q o' (benchAccount tid) rounds (startWorker xs) = Some (ws ! tid)"
    and order: "mset sts = mset (map countDead ws)"
    and v: "v = hbRtt (benchTotal sts)" "v \<noteq> []" "length v \<le> 2 ^ 53"
  shows "summary mode (benchTotal sts) = summary mode (benchTotal (map countDead ws)) \<and>
    established (benchTotal sts) + failed (benchTotal sts) \<le> nat (bConns opt) \<and>
    pmax (percentiles v) = Max (set v) \<and> {p50 (percentiles v), p90 (percentiles v), p99 (percentiles v)} \<subseteq> set v"
proof -
  let ?o = "\<lparr> optConns = nat (bConns opt), optThreads = nat (bThreads opt), battle = bBattle opt \<rparr>"
  have each: "established (countDead (ws ! tid)) + failed (countDead (ws ! tid)) \<le> myConns ?o tid" if tid: "tid < length ws" for tid
  proof -
    obtain rounds xs where r: "workerConns opt tid = Some (length xs)" "workerRun q o' (benchAccount tid) rounds (startWorker xs) = Some (ws ! tid)"
      using runs [OF tid] by blast
    then show ?thesis
      using worker_counts [OF r(2)] workerConns_share [OF opts, of ?o tid] by simp
  qed
  have "established (benchTotal sts) + failed (benchTotal sts) =
      (\<Sum>tid<length ws. established (countDead (ws ! tid)) + failed (countDead (ws ! tid)))"
    using sum_list_perm [OF order, of established] sum_list_perm [OF order, of failed]
    by (simp add: benchTotal_fields sum_list_sum_nth sum.distrib atLeast0LessThan)
  also have "\<dots> \<le> (\<Sum>tid<length ws. myConns ?o tid)"
    using each by (intro sum_mono) simp
  also have "\<dots> = nat (bConns opt)"
    using connections_shared_out [of ?o] opts(2) ws by simp
  finally show ?thesis
    using summary_perm [OF order] pct_sample(1) [OF v(2,3)] pct_sample(2) [OF v(2,3), of 0] by (simp add: percentiles_def)
qed

text \<open>A run of one worker with one connection that measures one heartbeat.\<close>

definition beat_parsers :: BenchParsers where
  "beat_parsers = demo_bench\<lparr> bHeartbeat := (\<lambda>_. Some 3) \<rparr>"

definition beat_opts :: BenchOpts where
  "beat_opts = parseOptions [''--conns'', ''1'', ''--threads'', ''1''] defaultOpts"

definition beat_rounds :: "(nat \<times> (nat \<times> EpollEvent) list) list" where
  "beat_rounds = [(10, [(0, \<lparr> canWrite = False, canRead = True, soError = False,
     reads = [ReadvData (encode id 2 [9]), ReadvError EAGAIN] \<rparr>)])]"

lemma beat_opts_fields: "bConns beat_opts = 1" "bThreads beat_opts = 1"
  by (simp_all add: beat_opts_def setOption_def defaultOpts_def atoi_def digitsVal_def isSpace_def isDigit_def digitVal_def)

lemma beat_read:
  obtains b where "readAll [ReadvData (encode id 2 [9]), ReadvError EAGAIN] newBuffer = Some (b, True)"
    "buf_inv b" "split_frames (content b) = ([(2, [9])], [], False)"
proof -
  obtain b n e where r: "readFd newBuffer (ReadvData (encode id 2 [9])) = (b, n, e)"
    by (metis prod_cases3)
  have b: "buf_inv b" "content b = encode id 2 [9]" "n = int (length (encode id 2 [9 :: byte]))"
    using readFd_data_ok [OF _ r] newBuffer_ok by simp_all
  have "split_frames [] = ([], [], False)"
    by (simp add: split_frames.simps)
  from split_frames_encode [OF _ _ this, of id "[9]" 2] have "split_frames (content b) = ([(2, [9])], [], False)"
    by (simp add: b(2) codec_consts)
  moreover have "0 < n"
    by (simp add: b(3) encode_def)
  then have "readAll [ReadvData (encode id 2 [9]), ReadvError EAGAIN] newBuffer = Some (b, True)"
    by (simp add: r readFd_def [of b])
  ultimately show ?thesis
    using that b(1) by blast
qed

lemma beat_run:
  obtains w where "workerRun beat_parsers demo_opt (benchAccount 0) beat_rounds (startWorker [(7, False, [])]) = Some w"
    "hbRtt (wstats w) = [7]"
proof -
  obtain b where b: "readAll [ReadvData (encode id 2 [9]), ReadvError EAGAIN] newBuffer = Some (b, True)"
      "buf_inv b" "split_frames (content b) = ([(2, [9])], [], False)"
    by (rule beat_read)
  have h: "countFrame beat_parsers demo_opt 10 (2, [9]) (c, st) = Some (c, st\<lparr> recvd := recvd st + 1, hbRtt := hbRtt st @ [7] \<rparr>)" for c st
    by (simp add: countFrame_def handleFrame_def beat_parsers_def u64_minus_def)
  let ?c = "(newConn [])\<lparr> cfd := 7 \<rparr>"
  obtain b' where f: "frameLoop (countFrame beat_parsers demo_opt 10) b (?c, newStats) =
      Some (b', ?c, newStats\<lparr> recvd := recvd newStats + 1, hbRtt := hbRtt newStats @ [7] \<rparr>)"
    using frameLoop_split [OF b(2,3), of "countFrame beat_parsers demo_opt 10" "(?c, newStats)"] by (auto simp: h)
  have start: "startWorker [(7, False, [])] = \<lparr> wconns = [?c], wstats = newStats, hbStagger = 0 \<rparr>"
    by (simp add: startWorker_def startConn_def)
  have c: "cstate ?c = kConnecting" "inBuf ?c = newBuffer"
    by (simp_all add: newConn_def)
  have "workerRun beat_parsers demo_opt (benchAccount 0) beat_rounds (startWorker [(7, False, [])]) =
      Some \<lparr> wconns = [?c\<lparr> inBuf := b' \<rparr>], wstats = newStats\<lparr> recvd := recvd newStats + 1, hbRtt := hbRtt newStats @ [7] \<rparr>, hbStagger = 0 \<rparr>"
    unfolding start beat_rounds_def
    using b(1) f c by (simp add: workerRound_def eventStep_def onEvent_def onReadable_def onClock_def Let_def del: readAll.simps)
  then show ?thesis
    using that by (simp add: newStats_def)
qed

theorem bench_report_exact_witness:
  "\<exists>w. workerRun beat_parsers demo_opt (benchAccount 0) beat_rounds (startWorker [(7, False, [])]) = Some w \<and>
     pmax (percentiles (hbRtt (benchTotal [countDead w]))) = 7 \<and> established (benchTotal [countDead w]) \<le> 1"
proof -
  obtain w where w: "workerRun beat_parsers demo_opt (benchAccount 0) beat_rounds (startWorker [(7, False, [])]) = Some w"
      "hbRtt (wstats w) = [7]"
    by (rule beat_run)
  have v: "hbRtt (benchTotal [countDead w]) = [7]"
    by (simp add: benchTotal_def mergeStats_def newStats_def countDead_def w(2))
  have share: "workerConns beat_opts 0 = Some (length [(7 :: int, False, [] :: send_result list)])"
    by (simp add: workerConns_def beat_opts_fields signed_divide_int_def signed_modulo_int_def)
  have "summary True (benchTotal [countDead w]) = summary True (benchTotal (map countDead [w])) \<and>
      established (benchTotal [countDead w]) + failed (benchTotal [countDead w]) \<le> nat (bConns beat_opts) \<and>
      pmax (percentiles [7]) = Max (set [7]) \<and> {p50 (percentiles [7]), p90 (percentiles [7]), p99 (percentiles [7])} \<subseteq> set [7]"
  proof (rule bench_report_exact)
    fix tid
    assume "tid < length [w]"
    then show "\<exists>rounds xs. workerConns beat_opts tid = Some (length xs) \<and>
        workerRun beat_parsers demo_opt (benchAccount tid) rounds (startWorker xs) = Some ([w] ! tid)"
      using share w(1) by (intro exI [of _ beat_rounds] exI [of _ "[(7, False, [])]"]) simp
  qed (simp_all add: beat_opts_fields v)
  then show ?thesis
    using w(1) by (auto simp: beat_opts_fields v)
qed

end
