(* ===== verification/Assembly.thy ===== *)
theory Assembly
  imports Programs Watchers TcpServer LobbyInv Storage
begin

text \<open>
  The game server program put together: \<open>main\<close> of \<^verbatim>\<open>src/examples/game_server.cc\<close> up to its loop, with the constructors
  of \<^verbatim>\<open>GameServer\<close> and \<^verbatim>\<open>TcpServer\<close> and \<open>GameServer::start\<close>. The answers of the system calls are arguments; None is
  \<^verbatim>\<open>std::abort\<close> in one of them.
\<close>

text \<open>What the kernel answers: the eventfd and the socket, and whether \<^verbatim>\<open>setsockopt\<close>, \<^verbatim>\<open>bind\<close> and \<^verbatim>\<open>listen\<close> succeed.\<close>

record StartAnswers =
  eventFd :: "nat option"
  socketFd :: "nat option"
  optOk :: bool
  bindOk :: bool
  listenOk :: bool

text \<open>\<open>TcpServer::TcpServer\<close> makes the acceptor, on every local address; \<open>TcpServer::start\<close> starts the threads and listens,
  at once because the main thread is the base loop's.\<close>

definition newTcpServer :: "StartAnswers \<Rightarrow> nat \<Rightarrow> kernel \<Rightarrow> (Acceptor \<times> kernel) option" where
  "newTcpServer ans port k = newAcceptor (socketFd ans) (optOk ans) (bindOk ans) (newInetAddress port ''0.0.0.0'') k"

definition startTcpServer :: "StartAnswers \<Rightarrow> int \<Rightarrow> Acceptor \<Rightarrow> Poller \<Rightarrow> kernel \<Rightarrow> (TcpServer \<times> Acceptor \<times> Poller \<times> kernel) option" where
  "startTcpServer ans threads a p k = map_option (Pair (newServer (nat threads))) (Watchers.listen (listenOk ans) a p k)"

text \<open>The members \<open>GameServer::GameServer\<close> sets, besides its callbacks (\<open>Frontend\<close>), and what \<open>GameServer::start\<close> brings up.\<close>

definition defaultStorage :: StorageOptions where
  "defaultStorage = \<lparr> enabled = False, redisHost = ''127.0.0.1'', redisPort = 6379, mysqlHost = ''127.0.0.1'', mysqlUser = ''gs'',
     mysqlPass = ''gs123'', mysqlDb = ''gs'', leaderboardKey = ''leaderboard'' \<rparr>"

record GameParts =
  gsAcceptor :: Acceptor
  ioThreads :: int
  gameThreads :: int
  storeOpts :: StorageOptions

record Running =
  runAcceptor :: Acceptor
  runPoller :: Poller
  runKernel :: kernel
  runServer :: TcpServer
  runLobby :: GameServer

definition newGameServer :: "StartAnswers \<Rightarrow> nat \<Rightarrow> int \<Rightarrow> int \<Rightarrow> StorageOptions \<Rightarrow> kernel \<Rightarrow> (GameParts \<times> kernel) option" where
  "newGameServer ans port io game opts k =
     map_option (\<lambda>(a, k). (\<lparr> gsAcceptor = a, ioThreads = io, gameThreads = game, storeOpts = opts \<rparr>, k)) (newTcpServer ans port k)"

definition startGameServer :: "(float32 \<Rightarrow> float32 \<Rightarrow> float32) \<Rightarrow> StartAnswers \<Rightarrow> GameParts \<Rightarrow> Poller \<Rightarrow> kernel \<Rightarrow> Running option" where
  "startGameServer hyp ans gs p k =
     (let lobby = startServer hyp (nat (gameThreads gs)) (enabled (storeOpts gs)) in
      map_option (\<lambda>(srv, a, p, k). \<lparr> runAcceptor = a, runPoller = p, runKernel = k, runServer = srv, runLobby = lobby \<rparr>)
        (startTcpServer ans (ioThreads gs) (gsAcceptor gs) p k))"

definition gameMain :: "(float32 \<Rightarrow> float32 \<Rightarrow> float32) \<Rightarrow> StartAnswers \<Rightarrow> string list \<Rightarrow> kernel \<Rightarrow> Running option" where
  "gameMain hyp ans argv k =
     (let args = gameArgs argv; store = defaultStorage\<lparr> enabled := True \<rparr> in
      case newLoop (eventFd ans) of
        None \<Rightarrow> None
      | Some (lp, p) \<Rightarrow>
          (case newGameServer ans (portArg args) (ioArg args) (gameArg args) store k of
             None \<Rightarrow> None
           | Some (gs, k) \<Rightarrow> startGameServer hyp ans gs p k))"

text \<open>The echo server, and the line its connection callback prints.\<close>

definition echoMain :: "StartAnswers \<Rightarrow> string list \<Rightarrow> kernel \<Rightarrow> (TcpServer \<times> Acceptor \<times> Poller \<times> kernel) option" where
  "echoMain ans argv k =
     (case echoArgs argv of (port, threads) \<Rightarrow>
        (case newLoop (eventFd ans) of
           None \<Rightarrow> None
         | Some (lp, p) \<Rightarrow>
             (case newTcpServer ans port k of
                None \<Rightarrow> None
              | Some (a, k) \<Rightarrow> startTcpServer ans threads a p k)))"

definition echoLog :: "sockaddr_in \<Rightarrow> bool \<Rightarrow> string" where
  "echoLog peer up = toIpPort peer @ '' '' @ (if up then ''UP'' else ''DOWN'')"

lemma newAcceptor_Some:
  "newAcceptor (Some f) opt True addr k =
     Some (\<lparr> acceptFd = f, acceptChannel = (newChannel f)\<lparr> readCb := True \<rparr> \<rparr>,
       k(f \<mapsto> \<lparr> reuseAddr = opt, noDelay = False, boundTo = Some addr, listening = False \<rparr>))"
  by (simp add: newAcceptor_def socket_ops newKSock_def)

lemma comes_up_None:
  "(case newLoop (eventFd ans) of None \<Rightarrow> None | Some (lp, p) \<Rightarrow>
      (case newTcpServer ans port k of None \<Rightarrow> None | Some (a, k) \<Rightarrow> startTcpServer ans threads a p k)) = None \<longleftrightarrow>
    eventFd ans = None \<or> socketFd ans = None \<or> \<not> bindOk ans \<or> \<not> listenOk ans"
  by (cases "eventFd ans"; cases "socketFd ans"; cases "bindOk ans"; cases "listenOk ans")
     (simp_all add: newTcpServer_def startTcpServer_def newLoop_def setupLoop_def newAcceptor_def socket_ops Watchers.listen_def
        split: prod.split)

lemma start_listens:
  assumes new: "newTcpServer ans port k = Some (a, k')" and start: "startTcpServer ans threads a p k' = Some (srv, a', p', k'')"
    and port: "port < 2 ^ 16"
  shows "\<exists>s. k'' (acceptFd a') = Some s \<and> listening s \<and> reuseAddr s = optOk ans \<and>
    map_option toIpPort (boundTo s) = Some (''0.0.0.0:'' @ dec port)"
    and "nth_loop n (threadPool srv) = (if threads \<le> 0 then 0 else Suc (n mod nat threads))"
proof -
  obtain f where f: "socketFd ans = Some f" "bindOk ans" and ok: "listenOk ans"
    using new start by (auto simp: newTcpServer_def startTcpServer_def newAcceptor_def socket_ops Watchers.listen_def split: option.splits if_splits)
  have "toIpPort (newInetAddress port ''0.0.0.0'') = ''0.0.0.0:'' @ dec port"
    using port by (simp add: address_text_eq u16_id)
  then show "\<exists>s. k'' (acceptFd a') = Some s \<and> listening s \<and> reuseAddr s = optOk ans \<and>
      map_option toIpPort (boundTo s) = Some (''0.0.0.0:'' @ dec port)"
    using new start f ok
    by (auto simp: newTcpServer_def startTcpServer_def newAcceptor_Some Watchers.listen_def listenSocket_def on_sock_def watchAccept_def
        split: option.splits prod.splits)
  show "nth_loop n (threadPool srv) = (if threads \<le> 0 then 0 else Suc (n mod nat threads))"
    using start pool_round_robin [of n Suc "nat threads" 0] by (auto simp del: pool_start.simps simp: startTcpServer_def newServer_def)
qed

lemma echo_comes_up:
  assumes "argv = [prog, dec port, decInt threads]" "port < 2 ^ 16" "echoMain ans argv k = Some (srv, a, p, k')"
  shows "(\<exists>s. k' (acceptFd a) = Some s \<and> listening s \<and> map_option toIpPort (boundTo s) = Some (''0.0.0.0:'' @ dec port)) \<and>
    nth_loop n (threadPool srv) = (if threads \<le> 0 then 0 else Suc (n mod nat threads))"
proof -
  have "echoArgs argv = (port, threads)"
    using assms(1,2) by (simp add: echoArgs_def to_uint16_def atoi_dec atoi_decInt)
  then obtain a' k'' p0 where "newTcpServer ans port k = Some (a', k'')" "startTcpServer ans threads a' p0 k'' = Some (srv, a, p, k')"
    using assms(3) by (auto simp: echoMain_def split: option.splits)
  from start_listens [OF this assms(2)] show ?thesis
    by metis
qed

lemma gameMain_eq:
  assumes "gameArgs argv = \<lparr> portArg = port, ioArg = io, gameArg = game \<rparr>"
  shows "gameMain hyp ans argv k = map_option (\<lambda>(srv, a, p, k). \<lparr> runAcceptor = a, runPoller = p, runKernel = k, runServer = srv,
      runLobby = startServer hyp (nat game) True \<rparr>)
    (case newLoop (eventFd ans) of None \<Rightarrow> None | Some (lp, p) \<Rightarrow>
      (case newTcpServer ans port k of None \<Rightarrow> None | Some (a, k) \<Rightarrow> startTcpServer ans io a p k))"
  by (simp add: gameMain_def assms newGameServer_def startGameServer_def split: option.split)



end
