(* ===== verification/Spec2Isabelle.thy ===== *)
theory Spec2Isabelle
  imports Prelude Buffer ProtobufCodec MatchQueue TimerWheel Float32 BattleSim Room TaskQueue
    AsyncWriter EventLoop Channel TcpConnection TcpServer GameServer LobbyInv Lobby LobbyLimits
    Matching Shutdown Decimal Storage Persist ServerStop Sockets Watchers Delivery EchoServer Dispatcher Frontend
    BotClient EndToEnd BenchClient Programs BenchMain Assembly
begin

text \<open>
  A verification of MyGameServer, a two-player real-time battle server in C++17 (\<^verbatim>\<open>src/src\<close>).

  \<^bold>\<open>The program.\<close> IO threads accept TCP connections (\<^verbatim>\<open>net/\<close>), cut the byte streams into frames
  (\<^verbatim>\<open>proto/ProtobufCodec\<close>), parse them and route them by number (\<^verbatim>\<open>proto/Dispatcher.h\<close>) to handlers that post tasks
  to the lobby thread (\<^verbatim>\<open>game/GameServer\<close>). The lobby owns the sessions, the match queue and a timer wheel
  (\<^verbatim>\<open>timer/TimerWheel\<close>), pairs players and creates rooms. A room (\<^verbatim>\<open>game/Room\<close>) is bound to one loop of a pool
  of game threads, runs a battle (\<^verbatim>\<open>game/BattleSim\<close>) at 20 ticks a second, sends delta snapshots, and reports
  the end to the lobby. Results and the online state go to a storage thread (\<^verbatim>\<open>storage/AsyncWriter\<close>).
  Every object is touched by one thread only; threads talk through the task queues of event loops.

  \<^bold>\<open>The theories\<close>, in the order of their imports. Definitions carry the names of the source.

  \<^item> \<open>Prelude\<close>: the collections of simplification rules, 16-, 32- and 64-bit unsigned arithmetic, and
    \<open>umap\<close>, the association lists that stand for \<^verbatim>\<open>unordered_map\<close> where the code iterates.
  \<^item> \<open>Buffer\<close> (\<^verbatim>\<open>net/Buffer\<close>): the vector, its two indices, growth and compaction. A run of any operations
    refines a FIFO list of bytes. The contract of a byte queue is the locale \<open>byte_buffer\<close>, interpreted on it.
  \<^item> \<open>ProtobufCodec\<close>: framing. Encoded messages survive any cutting of the stream; on arbitrary bytes the
    receive loop returns, keeps the bounds and shuts the connection at most once; what it does after
    a framing error.
  \<^item> \<open>MatchQueue\<close>: the deque with lazy deletion refines the order of arrival.
  \<^item> \<open>TimerWheel\<close>: the two-level wheel with callbacks that add and cancel timers. A tick fires exactly the
    timers due; a delay is met to the tick. \<open>timer_callbacks\<close> states what a callback may do to the
    wheel; \<open>timer_client\<close> proves invariants of clients through whole ticks. Both are interpreted on the lobby.
  \<^item> \<open>Float32\<close>: IEEE binary32 with rounding, infinities and NaN, as far as the battle uses it.
  \<^item> \<open>BattleSim\<close>: the whole simulation in that arithmetic; \<^verbatim>\<open>std::hypot\<close> is a parameter. Invariants, exactness
    of the change and removal lists, damage, arena bounds, and the two ways a battle goes astray.
  \<^item> \<open>Room\<close>: the room's tasks. The end is announced once; a client that applies the snapshot and the deltas
    it is sent holds exactly the server's state.
  \<^item> \<open>TaskQueue\<close>: the producer-consumer queue both thread classes are built on, as a locale of histories,
    and \<open>transition_system\<close>, reachability and invariants of step relations.
  \<^item> \<open>AsyncWriter\<close>, \<open>EventLoop\<close>: interleaving models, one step per critical section or atomic access.
    Tasks run once, in order; the destructor of the writer ends and flushes; a loop never sleeps
    on a task; the pool deals loops in turn; the destructor of \<^verbatim>\<open>EventLoopThread\<close> can hang.
  \<^item> \<open>Channel\<close> (\<^verbatim>\<open>Channel\<close>, \<^verbatim>\<open>EPollPoller\<close>): registration in the poller, with the kernel's interest list as state.
  \<^item> \<open>TcpConnection\<close>: every handler of a connection, over the answers of \<^verbatim>\<open>readv\<close> and \<^verbatim>\<open>write\<close>. The bytes on the
    wire are the bytes accepted, in order; data before an end of file is delivered; the write side
    is shut only when the output is gone. \<open>message_callback\<close> is the contract of the installed callback,
    interpreted on the codec.
  \<^item> \<open>Delivery\<close>: the codec on both sides of a connection. The peer decodes a prefix of the messages sent, in order,
    and all of them once the output has drained. \<open>quiet_callback\<close> extends the contract of the callback by one
    that sends nothing; the codec satisfies it.
  \<^item> \<open>EchoServer\<close> (\<^verbatim>\<open>examples/echo_server.cc\<close>): a second callback on that contract; it sends back exactly what arrives.
  \<^item> \<open>TcpServer\<close> (\<^verbatim>\<open>TcpServer\<close>, \<^verbatim>\<open>Acceptor\<close>): the connection table and the three hops of a connection's life.
  \<^item> \<open>ServerStop\<close> (the destructor of \<^verbatim>\<open>TcpServer\<close>): every connection leaves its poller once the loops have run
    their queues.
  \<^item> \<open>Decimal\<close>: printing and reading of numbers as the C library does it, and that reading undoes printing.
  \<^item> \<open>Sockets\<close> (\<^verbatim>\<open>InetAddress\<close>, \<^verbatim>\<open>Socket\<close>): the text of an address is exact; the socket calls, over a table of the kernel's
    open sockets.
  \<^item> \<open>Watchers\<close> (\<^verbatim>\<open>Acceptor\<close>, \<^verbatim>\<open>PeriodicTimer\<close>, constructor and destructor of \<^verbatim>\<open>EventLoop\<close>): the other owners of a descriptor.
    \<open>descriptor_owner\<close> is their contract with the poller, interpreted on all three; setting the reactor up and taking
    it down leaves no trace; a stalled loop makes a timer miss periods.
  \<^item> \<open>GameServer\<close>: sessions, match making, routing, reconnection, heartbeats, expiry and storage tasks.
    \<open>gs_step\<close> interleaves the lobby's tasks, the wheel, the loops' room tasks and room ticks.
  \<^item> \<open>LobbyInv\<close>: the invariant of the lobby with its preservation by every handler and timer callback.
  \<^item> \<open>Lobby\<close>: its consequences: consistent tables, tasks that complete, exact reconnection, removal of
    disconnected sessions within 30 s of wheel time, the heartbeat sweep, tokens, leaderboard requests.
  \<^item> \<open>LobbyLimits\<close>: once-only battle ends, and what the lobby gets wrong (a second login on a connection,
    a match timer left armed, forfeits that are not recorded).
  \<^item> \<open>Matching\<close>: what a match request does on every branch, up to the start of the battle.
  \<^item> \<open>Shutdown\<close> (the destructor of \<^verbatim>\<open>GameServer\<close>): the hand-shake of main thread, lobby and game threads, with
    requests and room tasks running beside it. It completes once, after every room has stopped; the
    requests it does not stop can meet a destroyed pool.
  \<^item> \<open>Storage\<close> (\<^verbatim>\<open>storage/RedisClient\<close>, \<^verbatim>\<open>storage/MySqlStore\<close> and the storage tasks of \<^verbatim>\<open>GameServer\<close>): the clients over
    hiredis and libmysqlclient as parameters. The thread sends the operations of the server's model and
    nothing else; accounts cannot alter statements; accounts with null bytes collide in Redis.
  \<^item> \<open>Persist\<close>: what the lobby hands to the storage thread: the connection task once and first, then only appended
    tasks. Section \<open>Properties across components\<close> below composes lobby, writer and clients.
  \<^item> \<open>Dispatcher\<close>, \<open>Frontend\<close>: the handler table, and the composition of stream, framing, dispatch and posting.
  \<^item> \<open>BotClient\<close> (\<^verbatim>\<open>examples/bot_client.cc\<close>): the blocking bot. It sees the players of its battle as the server has
    them; a timeout inside a frame makes it lose the frame boundaries.
  \<^item> \<open>EndToEnd\<close>: room, codec, connection, network and bot composed: the battle of the room is the battle the bot sees.
  \<^item> \<open>BenchClient\<close> (\<^verbatim>\<open>examples/bench_client.cc\<close>): the load generator. Its framing loop is equivalent to the
    codec; its streams are whole and its figures add up. \<open>BenchMain\<close> adds its options, accounts, the merge of the workers'
    figures and the percentiles in double arithmetic.
  \<^item> \<open>Programs\<close> (\<^verbatim>\<open>examples/game_server.cc\<close> and the command lines of the other programs): the main thread with the signals
    that end it. A signal taken inside the loop leads to the destructors; one taken before it is lost.
  \<^item> \<open>Assembly\<close>: the servers put together from the constructors of all components: they come up exactly when the system calls
    succeed, on the port and with the threads of the command line.

  \<^bold>\<open>Conventions.\<close> Connections, rooms and loops are numbers, and the objects live in maps; a connection's
  name is its number. Errors of the code that would be undefined behaviour (an assertion, the front of an
  empty deque) are the value None, and theorems show that the server does not meet them. Results of system calls,
  clock readings and random draws are arguments. Loops that end by the kernel's answers take the list
  of answers and are None only when it is too short; no other function uses fuel. The counters of
  connections, players, rooms and timers are unbounded naturals: they would need \<open>2^31\<close> connections
  or \<open>2^64\<close> events to wrap. Frame lengths, message numbers, times and the arithmetic of the
  battle are kept at their width.

  \<^bold>\<open>Not modelled.\<close> Serialisation of message bodies (protobuf, parameters of the codec, the front
  end and the clients); the libraries hiredis and libmysqlclient (parameters of \<open>Storage\<close>); what the programs print, apart from
  the figures of the load generator; the implementations of the clock and of the random generator, whose values are arguments;
  the Unity client, which is not C++, and the tests. The memory model is sequentially consistent. What the map leaves out of the
  C++ sources beyond that are declarations in headers, whose definitions are modelled, and comments.
\<close>

section \<open>Properties across components\<close>

text \<open>
  C3. What the lobby has decided is in the stores after a clean shutdown. Take any reachable state of the lobby of a
  server with storage, and a storage thread that has been given what the lobby enqueued, with leaderboard
  queries of the IO threads in between, and is asked to stop. The thread can run to its exit, and the tasks it
  has executed then, run on the clients whatever Redis and MySQL answer, have sent the commands and statements
  of everything the lobby enqueued, in its order, and no others; or, if the stores never came up, none.
\<close>

theorem lobby_decisions_reach_the_stores:
  assumes lobby: "gs_ts.reach g" "writerOn g" and writer: "writer_ts.reach w" "carries w g" "stopFlag w" "pc w \<noteq> Exited"
    and redis: "zrange_strings rl"
  shows "\<exists>w'. thread_step\<^sup>*\<^sup>* w w' \<and> pc w' = Exited \<and>
    (\<exists>es s pre. storeTasks rl ml atof opt (executed w') (newStores r m) = Some (es, s) \<and>
       filter isWrite (rlog (redis s)) = concat (map redisOf (opsOf opt (storageReady s) (storageTasks g))) \<and>
       mlog (mysql s) = pre @ concat (map (mysqlOf ml) (opsOf opt (storageReady s) (storageTasks g))) \<and>
       set pre \<subseteq> {cstr schemaSql})"
proof -
  have inv: "writer_inv w"
    by (rule writer_reach_inv [OF writer(1)])
  obtain w' where w': "thread_step\<^sup>*\<^sup>* w w'" "pc w' = Exited"
    using thread_terminates [OF inv writer(3)] by blast
  have e: "executed w' = hist w"
    by (rule thread_flushes [OF w'(1) inv writer(3) w'(2) writer(4)])
  obtain ts where ts: "hist w = ConnectStores # ts" "ConnectStores \<notin> set ts" "\<And>opt b. opsOf opt b ts = opsOf opt b (storageTasks g)"
    using carries_hist [OF writer(2) lobby] by blast
  show ?thesis
    using w' storage_run [OF redis ts(2), of ml atof opt r m] by (auto simp: e ts(1,3))
qed

theorem lobby_decisions_reach_the_stores_witness:
  "\<exists>w'. thread_step\<^sup>*\<^sup>* demo_writer w' \<and> pc w' = Exited \<and>
    (\<exists>es s pre. storeTasks demo_redis demo_mysql length demo_store_opt (executed w') (newStores 0 0) = Some (es, s) \<and>
       filter isWrite (rlog (redis s)) = concat (map redisOf (opsOf demo_store_opt (storageReady s) [ConnectStores, SetOnline ''ann''])) \<and>
       mlog (mysql s) = pre @ concat (map (mysqlOf demo_mysql) (opsOf demo_store_opt (storageReady s) [ConnectStores, SetOnline ''ann''])) \<and>
       set pre \<subseteq> {cstr schemaSql})"
  using lobby_decisions_reach_the_stores [OF demo_login_reach(1,2) demo_writer_reach(1,4,2,3) demo_zrange, of demo_mysql length demo_store_opt 0 0]
  by (simp only: demo_login_reach(3))

end
